(* ===== verification/Prelude.thy ===== *)
theory Prelude
  imports Main
    "HOL-Library.Word"
    "HOL-Library.Sublist"
    "HOL-Library.Char_ord"
    "HOL-Library.List_Lexorder"
    "HOL-Library.Product_Lexorder"
    "HOL-Library.Multiset"
begin

text \<open>
  Shared vocabulary of the development: the collections that the component
  theories fill, Rust's numeric casts and durations, and the facts about
  lists that the table operations (filter, ordered limit, update in place)
  need everywhere.
\<close>

section \<open>Collections\<close>

named_theorems stmt_defs \<open>definitions of the SurrealQL statements\<close>
named_theorems row_simps \<open>what a statement does to the fields of one row\<close>
named_theorems db_inv_intros \<open>preservation of the database invariants\<close>

section \<open>Numbers\<close>

text \<open>
  Instants are nanoseconds since the Unix epoch; \<open>time::now() - duration\<close> is plain
  subtraction on them.
\<close>

type_synonym time = int
type_synonym bytes = "8 word list"

definition nanos_per_milli :: int where
  "nanos_per_milli = 1000000"

definition nanos_per_sec :: int where
  "nanos_per_sec = 1000000000"

definition millis :: "int \<Rightarrow> int" where
  "millis ms = ms * nanos_per_milli"

text \<open>
  Rust's \<open>as i64\<close> and \<open>as usize\<close> (64 bit): keep the low 64 bits and read them as
  signed or unsigned. Widening conversions keep the value, so a model value is the
  mathematical integer of the Rust value whatever its width.
\<close>

definition as_i64 :: "int \<Rightarrow> int" where
  "as_i64 x = sint (word_of_int x :: 64 word)"

definition as_usize :: "int \<Rightarrow> nat" where
  "as_usize x = unat (word_of_int x :: 64 word)"

lemma as_i64_eq: "as_i64 x = (x + 2 ^ 63) mod 2 ^ 64 - 2 ^ 63"
  unfolding as_i64_def by (subst int_word_sint) simp

lemma as_i64_id:
  assumes "- (2 ^ 63) \<le> x" and "x < 2 ^ 63"
  shows "as_i64 x = x"
  using assms by (simp add: as_i64_def signed_of_int signed_take_bit_int_eq_self)

lemma as_i64_range: "- (2 ^ 63) \<le> as_i64 x \<and> as_i64 x < 2 ^ 63"
  using sint_range_size [of "word_of_int x :: 64 word"]
  by (simp add: as_i64_def word_size)

lemma as_usize_eq: "int (as_usize x) = x mod 2 ^ 64"
  by (simp add: as_usize_def unat_eq_nat_uint uint_word_of_int)

lemma as_usize_id:
  assumes "0 \<le> x" and "x < 2 ^ 64"
  shows "as_usize x = nat x"
proof -
  have "int (as_usize x) = x" using assms by (simp add: as_usize_eq)
  then show ?thesis by linarith
qed

text \<open>Casting a length to \<open>i64\<close> never enlarges it.\<close>

lemma nat_as_i64_le: "nat (as_i64 (int n)) \<le> n"
proof -
  have "(int n + 2 ^ 63) mod 2 ^ 64 \<le> int n + (2 ^ 63 :: int)"
    by (rule zmod_le_nonneg_dividend) simp
  moreover have "as_i64 (int n) = (int n + 2 ^ 63) mod 2 ^ 64 - 2 ^ 63" by (rule as_i64_eq)
  ultimately show ?thesis by linarith
qed

section \<open>Options and ordered limits\<close>

lemma Some_eq_map_option [simp]: "Some y = map_option f x \<longleftrightarrow> (\<exists>z. x = Some z \<and> y = f z)"
  by (cases x) auto

text \<open>
  \<open>ORDER BY f LIMIT n\<close>: nothing left out precedes something taken, and the taken
  rows are rows of the table.
\<close>

lemma length_map_filter_le: "length (List.map_filter f xs) \<le> length xs"
  by (simp add: List.map_filter_def)

lemma set_take_sort_key: "x \<in> set (take n (sort_key f xs)) \<Longrightarrow> x \<in> set xs"
  by (metis in_set_takeD set_sort)

lemma take_sort_key_precedes:
  assumes x: "x \<in> set (take n (sort_key f xs))"
    and y: "y \<in> set xs" "y \<notin> set (take n (sort_key f xs))"
  shows "f x \<le> f y"
proof -
  let ?s = "sort_key f xs"
  have "y \<in> set (take n ?s @ drop n ?s)" using y(1) by simp
  with y(2) have "y \<in> set (drop n ?s)" by (metis UnE set_append)
  moreover have "sorted (map f (take n ?s) @ map f (drop n ?s))"
    by (simp flip: map_append)
  then have "\<forall>a\<in>set (take n ?s). \<forall>b\<in>set (drop n ?s). f a \<le> f b"
    unfolding sorted_append set_map by blast
  ultimately show ?thesis using x by blast
qed

lemma length_take_sort_key: "length (take n (sort_key f xs)) = min n (length xs)"
  by simp

lemma distinct_take_sort_key: "distinct xs \<Longrightarrow> distinct (take n (sort_key f xs))"
  by (simp add: distinct_sort)

lemma distinct_map_filterI: "distinct (map f xs) \<Longrightarrow> distinct (map f (filter P xs))"
  by (induction xs) auto

lemma distinct_filter_map_filter:
  assumes "distinct (filter Q (map f xs))"
  shows "distinct (filter Q (map f (filter P xs)))"
proof -
  have "filter Q (map f (filter P xs)) = map f (filter P (filter (Q \<circ> f) xs))"
    by (simp add: filter_map conj_commute)
  moreover have "distinct (map f (filter (Q \<circ> f) xs))" using assms by (simp add: filter_map)
  ultimately show ?thesis by (simp only: distinct_map_filterI)
qed

lemma distinct_map_take_sort_key:
  "distinct (map f xs) \<Longrightarrow> distinct (map f (take n (sort_key g xs)))"
  by (simp add: take_map [symmetric] distinct_map distinct_sort inj_on_def)

lemma sort_key_mset_eq:
  assumes "mset xs = mset ys" and "distinct (map k xs)"
  shows "sort_key k xs = sort_key k ys"
proof -
  have s: "set xs = set ys" using assms(1) by (rule mset_eq_setD)
  have dy: "distinct (map k ys)"
    using assms by (metis mset_eq_imp_distinct_iff mset_map)
  have "distinct (map k (sort_key k zs))" if "distinct (map k zs)" for zs
    using that by (simp add: distinct_map)
  with assms(2) dy s show ?thesis
    by (intro map_sorted_distinct_set_unique [where f = k]) (simp_all add: distinct_map)
qed

section \<open>Rows updated in place\<close>

text \<open>
  \<open>UPDATE t SET f WHERE P\<close> on a table kept as a list of rows: the matching rows
  become \<open>f\<close> of themselves and the others stay as they are.
\<close>

definition update_where :: "('a \<Rightarrow> bool) \<Rightarrow> ('a \<Rightarrow> 'a) \<Rightarrow> 'a list \<Rightarrow> 'a list" where
  "update_where P f xs = map (\<lambda>x. if P x then f x else x) xs"

lemma length_update_where [simp]: "length (update_where P f xs) = length xs"
  by (simp add: update_where_def)

lemma update_where_Nil [simp]: "update_where P f [] = []"
  by (simp add: update_where_def)

lemma update_where_Cons [simp]:
  "update_where P f (x # xs) = (if P x then f x else x) # update_where P f xs"
  by (simp add: update_where_def)

lemma map_update_where:
  assumes "\<And>x. x \<in> set xs \<Longrightarrow> P x \<Longrightarrow> k (f x) = k x"
  shows "map k (update_where P f xs) = map k xs"
  using assms by (simp add: update_where_def)

lemma set_update_where:
  "set (update_where P f xs) = f ` {x \<in> set xs. P x} \<union> {x \<in> set xs. \<not> P x}"
  by (auto simp: update_where_def)

lemma update_where_none: "(\<And>x. x \<in> set xs \<Longrightarrow> \<not> P x) \<Longrightarrow> update_where P f xs = xs"
  by (simp add: update_where_def map_idI)

text \<open>A primary key makes a table a finite map: at most one row has a given key.\<close>

lemma key_notin_image: "f x \<notin> f ` A \<Longrightarrow> y \<in> A \<Longrightarrow> f y \<noteq> f x"
  by (metis imageI)

lemma distinct_key_eq:
  assumes "distinct (map k xs)" and "x \<in> set xs" and "y \<in> set xs" and "k x = k y"
  shows "x = y"
  using assms by (metis distinct_map inj_onD)

lemma find_key_Some:
  assumes "distinct (map k xs)" and "x \<in> set xs"
  shows "find (\<lambda>y. k y = k x) xs = Some x"
  using assms by (induction xs) (auto simp: image_iff)

lemma find_key_None: "find (\<lambda>y. k y = a) xs = None \<longleftrightarrow> a \<notin> k ` set xs"
  by (auto simp: find_None_iff)

section \<open>Ordered maps\<close>

text \<open>
  Rust's \<open>BTreeMap\<close> as an association list in key order; \<open>bt_upsert k f\<close> is \<open>entry(k)\<close> with
  what becomes of a missing or present value.
\<close>

type_synonym ('k, 'v) btree = "('k \<times> 'v) list"

fun bt_upsert :: "'k::linorder \<Rightarrow> ('v option \<Rightarrow> 'v) \<Rightarrow> ('k, 'v) btree \<Rightarrow> ('k, 'v) btree" where
  "bt_upsert k f [] = [(k, f None)]"
| "bt_upsert k f ((a, v) # xs) =
     (if k < a then (k, f None) # (a, v) # xs
      else if k = a then (a, f (Some v)) # xs
      else (a, v) # bt_upsert k f xs)"

definition bt_insert :: "'k::linorder \<Rightarrow> 'v \<Rightarrow> ('k, 'v) btree \<Rightarrow> ('k, 'v) btree" where
  "bt_insert k v = bt_upsert k (\<lambda>_. v)"

definition bt_remove :: "'k \<Rightarrow> ('k, 'v) btree \<Rightarrow> ('k, 'v) btree" where
  "bt_remove k xs = filter (\<lambda>(a, _). a \<noteq> k) xs"

definition bt_ok :: "('k::linorder, 'v) btree \<Rightarrow> bool" where
  "bt_ok xs \<longleftrightarrow> sorted_wrt (<) (map fst xs)"

lemma bt_ok_Nil [simp]: "bt_ok []"
  by (simp add: bt_ok_def)

lemma keys_bt_upsert [simp]: "fst ` set (bt_upsert k f xs) = insert k (fst ` set xs)"
  by (induction k f xs rule: bt_upsert.induct) auto

lemma bt_ok_upsert: "bt_ok xs \<Longrightarrow> bt_ok (bt_upsert k f xs)"
proof (induction k f xs rule: bt_upsert.induct)
  case (2 k f a v xs)
  have "\<forall>x \<in> fst ` set (bt_upsert k f xs). a < x" if "\<not> k < a" "k \<noteq> a"
    using 2(2) that by (auto simp: bt_ok_def)
  with 2 show ?case by (auto simp: bt_ok_def)
qed (simp add: bt_ok_def)

lemma lookup_bt_upsert:
  "bt_ok xs \<Longrightarrow>
    map_of (bt_upsert k f xs) x = (if x = k then Some (f (map_of xs k)) else map_of xs x)"
proof (induction k f xs rule: bt_upsert.induct)
  case (2 k f a v xs)
  have "map_of ((a, v) # xs) k = None" if "k < a"
    using 2(2) that by (force simp: bt_ok_def map_of_eq_None_iff)
  with 2 show ?case by (auto simp: bt_ok_def)
qed simp

lemma bt_upsert_all:
  assumes "\<forall>(k, v) \<in> set xs. P v" and "P (f None)" and "\<And>v. P v \<Longrightarrow> P (f (Some v))"
  shows "\<forall>(k, v) \<in> set (bt_upsert k f xs). P v"
  using assms by (induction k f xs rule: bt_upsert.induct) auto

section \<open>Traces\<close>

text \<open>
  A run of a labelled step relation, and the contract of a property that the allowed steps
  keep: it then holds at the end of every run of allowed steps.
\<close>

inductive run :: "('s \<Rightarrow> 'a \<Rightarrow> 's \<Rightarrow> bool) \<Rightarrow> 's \<Rightarrow> 'a list \<Rightarrow> 's \<Rightarrow> bool" for step where
  run_Nil: "run step s [] s"
| run_Cons: "step s a s' \<Longrightarrow> run step s' as s'' \<Longrightarrow> run step s (a # as) s''"

inductive_simps run_Nil_simp [simp]: "run step s [] t"
inductive_simps run_Cons_simp: "run step s (a # as) t"

lemma run_append: "run step s as t \<Longrightarrow> run step t bs u \<Longrightarrow> run step s (as @ bs) u"
  by (induction rule: run.induct) (auto intro: run.intros)

lemma run_single: "step s a t \<Longrightarrow> run step s [a] t"
  by (auto intro: run.intros)

locale kept_by_steps =
  fixes step :: "'s \<Rightarrow> 'a \<Rightarrow> 's \<Rightarrow> bool" and allowed :: "'a \<Rightarrow> bool" and P :: "'s \<Rightarrow> bool"
  assumes step_keeps: "step s a s' \<Longrightarrow> allowed a \<Longrightarrow> P s \<Longrightarrow> P s'"
begin

lemma run_keeps:
  assumes "run step s as s'" and "\<forall>a \<in> set as. allowed a" and "P s"
  shows "P s'"
  using assms by (induction rule: run.induct) (auto intro: step_keeps)

end

end
