(* ===== verification/Schema.thy ===== *)
theory Schema
  imports Prelude
begin

text \<open>
  The data of the backend: the tables of \<open>src/schema.surql\<close> (rows as
  \<open>SurrealTaskRow\<close> of \<open>src/from_row.rs\<close> reads them), the statuses the schema
  admits, record keys with the engine's order, and the parts of the apalis types
  (task, context, configuration, SQL row) that the crate reads and writes.
\<close>

section \<open>Values\<close>

datatype json =
    JNull
  | JBool bool
  | JNumber int
  | JString string
  | JArray "json list"
  | JObject "(string \<times> json) list"

text \<open>\<open>{ Err: reason }\<close>, the shape the statements and the acknowledgement store.\<close>

definition err_object :: "string \<Rightarrow> json" where
  "err_object reason = JObject [(''Err'', JString reason)]"

definition ok_object :: "json \<Rightarrow> json" where
  "ok_object v = JObject [(''Ok'', v)]"

text \<open>The \<open>ASSERT $value INSIDE [...]\<close> of the status field.\<close>

datatype status = Pending | Queued | Running | Done | Failed | Killed

fun status_text :: "status \<Rightarrow> string" where
  "status_text Pending = ''Pending''"
| "status_text Queued = ''Queued''"
| "status_text Running = ''Running''"
| "status_text Done = ''Done''"
| "status_text Failed = ''Failed''"
| "status_text Killed = ''Killed''"

lemma status_text_inj [simp]: "status_text s = status_text t \<longleftrightarrow> s = t"
  by (cases s; cases t; simp)

lemma status_exhaustive: "s \<in> {Pending, Queued, Running, Done, Failed, Killed}"
  by (cases s) simp_all

text \<open>
  A record key: the crate creates string keys only (\<open>RecordId::new(JOB_TABLE, id)\<close>)
  and treats every other kind alike; \<open>OtherKey\<close> stands for them, by their rank in
  the engine's order, in which they are put before the strings.
\<close>

datatype record_key = OtherKey nat | StringKey string

instantiation record_key :: linorder
begin

fun less_eq_record_key :: "record_key \<Rightarrow> record_key \<Rightarrow> bool" where
  "less_eq_record_key (OtherKey m) (OtherKey n) = (m \<le> n)"
| "less_eq_record_key (OtherKey _) (StringKey _) = True"
| "less_eq_record_key (StringKey _) (OtherKey _) = False"
| "less_eq_record_key (StringKey s) (StringKey t) = (s \<le> t)"

definition less_record_key :: "record_key \<Rightarrow> record_key \<Rightarrow> bool" where
  "less_record_key a b = (a \<le> b \<and> \<not> b \<le> a)"

instance
proof
  fix a b c :: record_key
  show "a < b \<longleftrightarrow> a \<le> b \<and> \<not> b \<le> a" by (rule less_record_key_def)
  show "a \<le> a" by (cases a) simp_all
  show "a \<le> b \<Longrightarrow> b \<le> c \<Longrightarrow> a \<le> c" by (cases a; cases b; cases c) auto
  show "a \<le> b \<Longrightarrow> b \<le> a \<Longrightarrow> a = b" by (cases a; cases b) auto
  show "a \<le> b \<or> b \<le> a" by (cases a; cases b) auto
qed

end

section \<open>Tables\<close>

record job =
  job_id :: record_key
  args :: bytes
  queue :: string
  status :: status
  attempts :: int
  max_attempts :: int
  run_at :: time
  last_result :: "json option"
  lock_at :: "time option"
  lock_by :: "string option"
  done_at :: "time option"
  priority :: int
  metadata :: "json option"
  idempotency_key :: "string option"

record worker =
  worker_id :: record_key
  worker_name :: string
  worker_queue :: string
  storage_name :: string
  layers :: "string option"
  worker_instance :: string
  started_at :: time
  last_seen :: time

record db =
  jobs :: "job list"
  workers :: "worker list"
  meta_version :: "int option"

definition empty_db :: db where
  "empty_db = \<lparr>jobs = [], workers = [], meta_version = None\<rparr>"

definition lookup_job :: "db \<Rightarrow> record_key \<Rightarrow> job option" where
  "lookup_job d k = find (\<lambda>j. job_id j = k) (jobs d)"

definition lookup_worker :: "db \<Rightarrow> record_key \<Rightarrow> worker option" where
  "lookup_worker d k = find (\<lambda>x. worker_id x = k) (workers d)"

lemma lookup_job_Some:
  "lookup_job d k = Some j \<Longrightarrow> j \<in> set (jobs d) \<and> job_id j = k"
  by (auto simp: lookup_job_def find_Some_iff)

lemma lookup_job_mem:
  "distinct (map job_id (jobs d)) \<Longrightarrow> j \<in> set (jobs d) \<Longrightarrow> lookup_job d (job_id j) = Some j"
  by (simp add: lookup_job_def find_key_Some)

lemma lookup_job_iff:
  "distinct (map job_id (jobs d)) \<Longrightarrow>
    lookup_job d k = Some j \<longleftrightarrow> j \<in> set (jobs d) \<and> job_id j = k"
  using lookup_job_Some lookup_job_mem by blast

lemma lookup_job_None: "lookup_job d k = None \<longleftrightarrow> k \<notin> job_id ` set (jobs d)"
  by (simp add: lookup_job_def find_key_None)

section \<open>Conditions on rows\<close>

text \<open>
  The row predicates that several statements share, in the words of the queries: due for a
  claim (\<open>fetch_next.surql\<close>) and finished for good (\<open>vacuum.surql\<close>, \<open>fetch_completed_tasks.surql\<close>).
\<close>

definition retryable :: "job \<Rightarrow> bool" where
  "retryable j \<longleftrightarrow>
     (status j = Pending \<and> lock_by j = None) \<or> (status j = Failed \<and> attempts j < max_attempts j)"

definition due :: "time \<Rightarrow> job \<Rightarrow> bool" where
  "due now j \<longleftrightarrow> retryable j \<and> run_at j \<le> now"

definition terminal :: "job \<Rightarrow> bool" where
  "terminal j \<longleftrightarrow>
     status j = Done \<or> (status j = Failed \<and> attempts j \<ge> max_attempts j) \<or> status j = Killed"

definition in_flight :: "job \<Rightarrow> bool" where
  "in_flight j \<longleftrightarrow> status j = Queued \<or> status j = Running"

lemma terminal_not_retryable: "terminal j \<Longrightarrow> \<not> retryable j"
  by (auto simp: terminal_def retryable_def)

section \<open>Invariants\<close>

text \<open>
  What every statement of the crate keeps of a row: the lock and completion columns agree
  with the status.
\<close>

definition row_ok :: "job \<Rightarrow> bool" where
  "row_ok j \<longleftrightarrow>
     (lock_by j \<noteq> None \<longrightarrow> lock_at j \<noteq> None) \<and>
     (status j = Pending \<longrightarrow> lock_by j = None \<and> lock_at j = None \<and> done_at j = None) \<and>
     (status j = Queued \<longrightarrow> lock_at j \<noteq> None) \<and>
     (status j = Running \<longrightarrow> lock_by j \<noteq> None) \<and>
     (status j \<in> {Done, Failed} \<longrightarrow> lock_by j \<noteq> None \<and> done_at j \<noteq> None) \<and>
     (status j = Killed \<longrightarrow> done_at j \<noteq> None)"

text \<open>No two rows of a queue carry the same idempotency key.\<close>

definition idem_key :: "job \<Rightarrow> (string \<times> string) option" where
  "idem_key j = map_option (\<lambda>k. (queue j, k)) (idempotency_key j)"

definition idem_unique :: "job list \<Rightarrow> bool" where
  "idem_unique js \<longleftrightarrow> distinct (filter (\<lambda>k. k \<noteq> None) (map idem_key js))"

definition db_inv :: "db \<Rightarrow> bool" where
  "db_inv d \<longleftrightarrow>
     distinct (map job_id (jobs d)) \<and>
     distinct (map worker_id (workers d)) \<and>
     (\<forall>j \<in> set (jobs d). row_ok j) \<and>
     (\<forall>x \<in> set (workers d). worker_id x = StringKey (worker_instance x)) \<and>
     idem_unique (jobs d)"

lemma idem_unique_eq:
  assumes "idem_unique js" and "x \<in> set js" and "y \<in> set js"
    and "idem_key x = Some k" and "idem_key y = Some k"
  shows "x = y"
proof -
  have "distinct (map idem_key (filter (\<lambda>j. idem_key j \<noteq> None) js))"
    using assms(1) by (simp add: idem_unique_def filter_map o_def)
  then show ?thesis
    by (rule distinct_key_eq) (use assms(2-) in simp_all)
qed

lemma db_inv_empty: "db_inv empty_db"
  by (simp add: db_inv_def empty_db_def idem_unique_def)

text \<open>Under the row invariant every job is in exactly one of three phases.\<close>

lemma row_phases:
  assumes "row_ok j"
  shows "retryable j \<or> in_flight j \<or> terminal j"
    and "\<not> (retryable j \<and> in_flight j)"
    and "\<not> (in_flight j \<and> terminal j)"
    and "\<not> (retryable j \<and> terminal j)"
  using assms
  by (cases "status j"; auto simp: row_ok_def retryable_def in_flight_def terminal_def)+

section \<open>The apalis types the crate uses\<close>

text \<open>
  \<open>SqlContext\<close> and \<open>Task\<close>: the fields the crate reads. A \<open>Ulid\<close> is its 26 character
  text, the form in which it reaches the database.
\<close>

record sql_context =
  ctx_max_attempts :: int
  ctx_priority :: int
  ctx_meta :: "(string \<times> json) list"
  ctx_queue :: "string option"
  ctx_lock_by :: "string option"

record parts =
  part_task_id :: "string option"
  part_run_at :: nat
  part_idempotency_key :: "string option"
  part_attempt :: nat
  part_status :: status
  part_ctx :: sql_context

type_synonym 'a surreal_task = "'a \<times> parts"
type_synonym compact_task = "bytes surreal_task"

record task_row =
  tr_job :: bytes
  tr_id :: string
  tr_job_type :: string
  tr_status :: string
  tr_attempts :: nat
  tr_max_attempts :: "nat option"
  tr_run_at :: "time option"
  tr_last_result :: "json option"
  tr_lock_at :: "time option"
  tr_lock_by :: "string option"
  tr_done_at :: "time option"
  tr_priority :: "nat option"
  tr_metadata :: "json option"
  tr_idempotency_key :: "string option"

text \<open>\<open>Config\<close>: durations in nanoseconds.\<close>

record config =
  cfg_queue :: string
  cfg_buffer_size :: nat
  cfg_keep_alive :: nat
  cfg_reenqueue_after :: nat

end
