(* ===== verification/Errors.thy ===== *)
theory Errors
  imports Schema
begin

text \<open>
  \<open>src/errors.rs\<close> and the error classification of \<open>src/queries/mod.rs\<close>: which
  failures of a transaction are retried and which are reported.
\<close>

section \<open>Errors of the engine and of the crate\<close>

text \<open>
  \<open>surrealdb::Error\<close>: \<open>query_details()\<close> and \<open>message()\<close>. Only two details are
  told apart by the crate.
\<close>

datatype query_error = TransactionConflict | NotExecuted | OtherQueryError nat

record db_error =
  query_details :: "query_error option"
  message :: string

datatype surreal_error =
    Database db_error
  | Decode string
  | Row string
  | TaskNotFound string
  | WorkerNotFound string
  | MissingTaskId
  | MissingWorkerContext

text \<open>The \<open>Display\<close> of \<open>SurrealError\<close>, from its \<open>#[error(...)]\<close> attributes.\<close>

fun surreal_error_text :: "surreal_error \<Rightarrow> string" where
  "surreal_error_text (Database e) = message e"
| "surreal_error_text (Decode e) = ''Failed to decode task: '' @ e"
| "surreal_error_text (Row e) = e"
| "surreal_error_text (TaskNotFound t) = ''Task not found: '' @ t"
| "surreal_error_text (WorkerNotFound t) = ''Worker not found: '' @ t"
| "surreal_error_text MissingTaskId = ''Task is missing a record id''"
| "surreal_error_text MissingWorkerContext = ''Task is missing its worker context''"

section \<open>Classifying the errors of a transaction\<close>

text \<open>\<open>str::contains\<close>.\<close>

fun str_contains :: "string \<Rightarrow> string \<Rightarrow> bool" where
  "str_contains pat [] = (pat = [])"
| "str_contains pat (c # cs) = (prefix pat (c # cs) \<or> str_contains pat cs)"

lemma str_contains_sublist: "str_contains pat s = sublist pat s"
  by (induction s) (auto simp: sublist_Cons_right)

definition is_conflict :: "db_error \<Rightarrow> bool" where
  "is_conflict e \<longleftrightarrow>
     query_details e = Some TransactionConflict \<or> str_contains ''Transaction conflict'' (message e)"

definition is_not_executed :: "db_error \<Rightarrow> bool" where
  "is_not_executed e \<longleftrightarrow> query_details e = Some NotExecuted"

datatype tx_outcome = Retry db_error | Fail db_error

text \<open>\<open>Option::get_or_insert\<close> as the loop uses it: the first value stays.\<close>

definition get_or_insert :: "'a option \<Rightarrow> 'a \<Rightarrow> 'a option" where
  "get_or_insert slot x = (case slot of None \<Rightarrow> Some x | Some y \<Rightarrow> Some y)"

fun classify_loop ::
  "db_error list \<Rightarrow> db_error option \<times> db_error option \<times> db_error option
    \<Rightarrow> db_error option \<times> db_error option \<times> db_error option" where
  "classify_loop [] acc = acc"
| "classify_loop (e # es) (conflict, real, skipped) =
     classify_loop es
       (if is_conflict e then (get_or_insert conflict e, real, skipped)
        else if is_not_executed e then (conflict, real, get_or_insert skipped e)
        else (conflict, get_or_insert real e, skipped))"

text \<open>
  The \<open>HashMap\<close> of errors is a list of slots with their errors in the map's iteration
  order, which is arbitrary; collecting it into a \<open>BTreeMap\<close> orders it by slot.
\<close>

definition classify_tx_errors :: "(nat \<times> db_error) list \<Rightarrow> tx_outcome option" where
  "classify_tx_errors errors =
     (if errors = [] then None
      else
        case classify_loop (map snd (sort_key fst errors)) (None, None, None) of
          (conflict, real, skipped) \<Rightarrow>
            (case real of
               Some e \<Rightarrow> Some (Fail e)
             | None \<Rightarrow>
                 (case conflict of
                    Some e \<Rightarrow> Some (Retry e)
                  | None \<Rightarrow> map_option Fail skipped)))"

text \<open>
  The reference: the lowest slot of the strongest kind present, where a real error is
  stronger than a conflict and a conflict stronger than a skipped statement.
\<close>

definition is_real :: "db_error \<Rightarrow> bool" where
  "is_real e \<longleftrightarrow> \<not> is_conflict e \<and> \<not> is_not_executed e"

definition classify_spec :: "(nat \<times> db_error) list \<Rightarrow> tx_outcome option" where
  "classify_spec errors =
     (let es = map snd (sort_key fst errors) in
      case find is_real es of
        Some e \<Rightarrow> Some (Fail e)
      | None \<Rightarrow>
          (case find is_conflict es of
             Some e \<Rightarrow> Some (Retry e)
           | None \<Rightarrow> map_option Fail (case es of [] \<Rightarrow> None | e # _ \<Rightarrow> Some e)))"

definition or_else :: "'a option \<Rightarrow> 'a option \<Rightarrow> 'a option" where
  "or_else a b = (case a of None \<Rightarrow> b | Some x \<Rightarrow> Some x)"

lemma or_else_simps [simp]:
  "or_else None b = b" "or_else (Some x) b = Some x" "or_else a None = a"
  by (auto simp: or_else_def split: option.splits)

lemma classify_loop_find:
  "classify_loop es (c, r, s) =
     (or_else c (find is_conflict es), or_else r (find is_real es),
      or_else s (find (\<lambda>e. \<not> is_conflict e \<and> is_not_executed e) es))"
  by (induction es arbitrary: c r s)
     (auto simp: get_or_insert_def or_else_def is_real_def split: option.splits)

lemma find_skipped:
  assumes "find is_real es = None" and "find is_conflict es = None"
  shows "find (\<lambda>e. \<not> is_conflict e \<and> is_not_executed e) es = (case es of [] \<Rightarrow> None | e # _ \<Rightarrow> Some e)"
  using assms by (cases es) (auto simp: is_real_def split: if_splits)

text \<open>C36. On every set of statement errors the classification loop agrees with the reference: it reports the lowest-slot real error, else retries on the lowest-slot conflict, else fails with the lowest skipped statement, and does nothing on no error.\<close>

theorem classify_tx_errors_correct: "classify_tx_errors errors = classify_spec errors"
proof (cases "errors = []")
  case True
  then show ?thesis by (simp add: classify_tx_errors_def classify_spec_def)
next
  case False
  then show ?thesis
    by (auto simp: classify_tx_errors_def classify_spec_def classify_loop_find Let_def
          find_skipped split: option.splits)
qed

text \<open>The classification does not depend on the iteration order of the error map: two listings of the same slots give the same outcome.\<close>

lemma classify_tx_errors_order:
  assumes "mset errors = mset errors'" and "distinct (map fst errors)"
  shows "classify_tx_errors errors = classify_tx_errors errors'"
  using sort_key_mset_eq [OF assms]
  by (simp add: classify_tx_errors_correct classify_spec_def)

lemma classify_nonempty: "errors \<noteq> [] \<Longrightarrow> classify_tx_errors errors \<noteq> None"
proof -
  assume "errors \<noteq> []"
  then have "sort_key fst errors \<noteq> []" by (metis length_0_conv length_sort)
  then show ?thesis
    by (auto simp: classify_tx_errors_correct classify_spec_def Let_def
          split: option.splits list.splits)
qed

end
