(* ===== verification/Engine.thy ===== *)
theory Engine
  imports Errors
begin

text \<open>
  The database connection as the crate sees it, and the retry loop that
  \<open>push_tasks\<close>, \<open>fetch_next\<close>, \<open>fetch_next_shared\<close> and \<open>kill_task\<close> share.

  The engine itself is not part of the repository. It is the argument \<open>env\<close> of every
  operation: for the n-th round trip it says what other clients committed before the
  request (\<open>others\<close>), the engine's clock, and what becomes of the request. Theorems
  quantify over all of it.
\<close>

section \<open>Round trips\<close>

text \<open>
  A request is executed, or rejected with errors in some statement slots and no effect (a
  failed transaction or statement is rolled back), or its reply is lost, in which case
  the \<open>await\<close> fails and the effect may or may not have been applied.
\<close>

datatype verdict =
    Executes
  | Rejects "nat \<times> db_error" "(nat \<times> db_error) list"
  | NoReply db_error bool

record moment =
  others :: "db \<Rightarrow> db"
  clock :: time
  verdict :: verdict

type_synonym env = "nat \<Rightarrow> moment"

record world =
  store :: db
  trips :: nat

text \<open>
  A statement (or transaction) is a function of the engine's time and tables; it can fail
  on its own with errors in some slots.
\<close>

type_synonym 'r stmt =
  "time \<Rightarrow> db \<Rightarrow> ((nat \<times> db_error) \<times> (nat \<times> db_error) list) + ('r \<times> db)"

datatype 'r reply =
    Transport db_error
  | Errors "nat \<times> db_error" "(nat \<times> db_error) list"
  | Rows 'r

definition query :: "env \<Rightarrow> 'r stmt \<Rightarrow> world \<Rightarrow> 'r reply \<times> world" where
  "query env stmt w =
     (let m = env (trips w);
          d = others m (store w);
          w' = w\<lparr>store := d, trips := Suc (trips w)\<rparr>
      in case verdict m of
           NoReply e applied \<Rightarrow>
             (Transport e,
              if applied
              then (case stmt (clock m) d of Inl _ \<Rightarrow> w' | Inr (_, d') \<Rightarrow> w'\<lparr>store := d'\<rparr>)
              else w')
         | Rejects e es \<Rightarrow> (Errors e es, w')
         | Executes \<Rightarrow>
             (case stmt (clock m) d of
                Inl (e, es) \<Rightarrow> (Errors e es, w')
              | Inr (r, d') \<Rightarrow> (Rows r, w'\<lparr>store := d'\<rparr>)))"

text \<open>\<open>response.take_errors()\<close> and \<open>response.take(slot)\<close>.\<close>

fun take_errors :: "'r reply \<Rightarrow> (nat \<times> db_error) list" where
  "take_errors (Errors e es) = e # es"
| "take_errors _ = []"

fun take_rows :: "'r reply \<Rightarrow> surreal_error + 'r" where
  "take_rows (Rows r) = Inr r"
| "take_rows (Errors (_, e) _) = Inl (Database e)"
| "take_rows (Transport e) = Inl (Database e)"

text \<open>What the tables hold when the k-th of the following requests arrives, if none before it had an effect.\<close>

definition arrives :: "env \<Rightarrow> world \<Rightarrow> nat \<Rightarrow> db" where
  "arrives env w k = fold (\<lambda>i. others (env i)) [trips w..<Suc (trips w + k)] (store w)"

lemma arrives_0 [simp]: "arrives env w 0 = others (env (trips w)) (store w)"
  by (simp add: arrives_def)

lemma arrives_Suc:
  assumes "store w' = others (env (trips w)) (store w)" and "trips w' = Suc (trips w)"
  shows "arrives env w' k = arrives env w (Suc k)"
proof -
  have "[trips w..<Suc (trips w + Suc k)] = trips w # [Suc (trips w)..<Suc (Suc (trips w) + k)]"
    by (simp add: upt_conv_Cons)
  then show ?thesis using assms by (simp add: arrives_def)
qed

section \<open>The retry loop\<close>

text \<open>
  \<open>MAX_TX_RETRIES\<close> attempts; a conflict is remembered and retried, any other error ends
  the loop, and a clean reply is returned. When the attempts are used up the remembered
  conflict is the error (the loop runs at least once, so the fallback is never taken).
\<close>

definition MAX_TX_RETRIES :: nat where
  "MAX_TX_RETRIES = 5"

definition retries_exhausted :: db_error where
  "retries_exhausted =
     \<lparr>query_details = Some TransactionConflict,
      message = ''Transaction conflict retries exhausted''\<rparr>"

fun tx_loop ::
  "env \<Rightarrow> 'r stmt \<Rightarrow> nat \<Rightarrow> db_error option \<Rightarrow> world \<Rightarrow> (surreal_error + 'r reply) \<times> world"
where
  "tx_loop env stmt 0 conflict w =
     (Inl (Database (case conflict of Some e \<Rightarrow> e | None \<Rightarrow> retries_exhausted)), w)"
| "tx_loop env stmt (Suc n) conflict w =
     (case query env stmt w of
        (Transport e, w') \<Rightarrow> (Inl (Database e), w')
      | (resp, w') \<Rightarrow>
          (case classify_tx_errors (take_errors resp) of
             Some (Retry e) \<Rightarrow> tx_loop env stmt n (Some e) w'
           | Some (Fail e) \<Rightarrow> (Inl (Database e), w')
           | None \<Rightarrow> (Inr resp, w')))"

lemma query_trips: "query env stmt w = (r, w') \<Longrightarrow> trips w' = Suc (trips w)"
  by (auto simp: query_def Let_def split: verdict.splits sum.splits prod.splits if_splits)

lemma query_Rows:
  "query env stmt w = (Rows r, w') \<Longrightarrow>
     stmt (clock (env (trips w))) (others (env (trips w)) (store w)) = Inr (r, store w')"
  by (auto simp: query_def Let_def split: verdict.splits sum.splits prod.splits if_splits)

lemma query_Errors:
  "query env stmt w = (Errors e es, w') \<Longrightarrow> store w' = others (env (trips w)) (store w)"
  by (auto simp: query_def Let_def split: verdict.splits sum.splits prod.splits if_splits)

lemma classify_Nil [simp]: "classify_tx_errors [] = None"
  by (simp add: classify_tx_errors_def)

lemma classify_Cons [simp]: "classify_tx_errors (e # es) = None \<longleftrightarrow> False"
  using classify_nonempty [of "e # es"] by simp

lemma tx_loop_trips:
  "tx_loop env stmt n c w = (r, w') \<Longrightarrow> trips w \<le> trips w' \<and> trips w' \<le> trips w + n"
proof (induction n arbitrary: c w)
  case (Suc n)
  show ?case
  proof (cases "query env stmt w")
    case (Pair resp w1)
    have t: "trips w1 = Suc (trips w)" using query_trips [OF Pair] .
    show ?thesis
      using Suc.prems Pair t Suc.IH [of _ w1]
      by (fastforce split: reply.splits option.splits tx_outcome.splits)
  qed
qed simp

text \<open>
  The errors in the answer to the i-th of the following requests, and whether the loop takes that
  answer for a conflict.
\<close>

definition answered_errors :: "env \<Rightarrow> 'r stmt \<Rightarrow> world \<Rightarrow> nat \<Rightarrow> (nat \<times> db_error) list" where
  "answered_errors env stmt w i =
     (case verdict (env (trips w + i)) of
        Rejects e es \<Rightarrow> e # es
      | NoReply _ _ \<Rightarrow> []
      | Executes \<Rightarrow>
          (case stmt (clock (env (trips w + i))) (arrives env w i) of Inl (e, es) \<Rightarrow> e # es | Inr _ \<Rightarrow> []))"

definition conflicted :: "env \<Rightarrow> 'r stmt \<Rightarrow> world \<Rightarrow> nat \<Rightarrow> bool" where
  "conflicted env stmt w i \<longleftrightarrow> (\<exists>c. classify_tx_errors (answered_errors env stmt w i) = Some (Retry c))"

lemma query_answer:
  assumes "query env stmt w = (reply, w1)"
  shows "(case reply of Errors e es \<Rightarrow> answered_errors env stmt w 0 = e # es | _ \<Rightarrow> True) \<and>
    (case reply of Rows r \<Rightarrow> verdict (env (trips w)) = Executes | _ \<Rightarrow> True)"
  using assms
  by (auto simp: query_def Let_def answered_errors_def split: verdict.splits sum.splits prod.splits if_splits)

lemma conflicted_Suc:
  assumes "store w1 = others (env (trips w)) (store w)" and "trips w1 = Suc (trips w)"
  shows "conflicted env stmt w1 i = conflicted env stmt w (Suc i)"
proof -
  have "trips w1 + i = trips w + Suc i" using assms(2) by simp
  with arrives_Suc [where env = env, OF assms, of i] show ?thesis
    by (simp only: conflicted_def answered_errors_def)
qed

text \<open>
  The loop commits at most once: when it hands back a reply, that reply is the outcome of the
  statement run at one instant, on what the other clients had left by then, and every attempt
  before that one met a conflict.
\<close>

lemma tx_loop_commits:
  assumes "tx_loop env stmt n c w = (Inr resp, w')"
  shows "\<exists>k r. k < n \<and> resp = Rows r \<and> trips w' = Suc (trips w + k) \<and>
    stmt (clock (env (trips w + k))) (arrives env w k) = Inr (r, store w') \<and>
    verdict (env (trips w + k)) = Executes \<and> (\<forall>i < k. conflicted env stmt w i)"
  using assms
proof (induction n arbitrary: c w)
  case (Suc n)
  obtain reply w1 where q: "query env stmt w = (reply, w1)" by (cases "query env stmt w")
  have t1: "trips w1 = Suc (trips w)" using query_trips [OF q] .
  show ?case
  proof (cases reply)
    case (Rows r)
    with Suc.prems q have "resp = Rows r \<and> w' = w1" by simp
    then show ?thesis using query_Rows [OF q [unfolded Rows]] query_answer [OF q] t1 Rows
      by (intro exI [of _ 0]) auto
  next
    case (Errors e es)
    with Suc.prems q obtain e' where e': "tx_loop env stmt n (Some e') w1 = (Inr resp, w')"
      "classify_tx_errors (e # es) = Some (Retry e')"
      by (auto split: option.splits tx_outcome.splits)
    from Suc.IH [OF e'(1)] obtain k r where k: "k < n" "resp = Rows r" "trips w' = Suc (trips w1 + k)"
      "stmt (clock (env (trips w1 + k))) (arrives env w1 k) = Inr (r, store w')"
      "verdict (env (trips w1 + k)) = Executes" "\<forall>i < k. conflicted env stmt w1 i" by blast
    have s1: "store w1 = others (env (trips w)) (store w)" using query_Errors [OF q [unfolded Errors]] .
    have "conflicted env stmt w i" if "i < Suc k" for i
    proof (cases i)
      case 0
      then show ?thesis using query_answer [OF q] e'(2) Errors by (simp add: conflicted_def)
    next
      case (Suc j)
      with that k(6) conflicted_Suc [where env = env, OF s1 t1, of stmt j] show ?thesis by simp
    qed
    with k t1 arrives_Suc [where env = env, OF s1 t1, of k] show ?thesis by (intro exI [of _ "Suc k"]) auto
  next
    case (Transport e)
    with Suc.prems q show ?thesis by simp
  qed
qed simp

lemma tx_loop_commit:
  assumes "tx_loop env stmt n c w = (Inr resp, w')"
  shows "\<exists>k r. k < n \<and> resp = Rows r \<and> trips w' = Suc (trips w + k) \<and>
    stmt (clock (env (trips w + k))) (arrives env w k) = Inr (r, store w')"
  using tx_loop_commits [OF assms] by blast

text \<open>
  An error of the loop leaves no trace: unless a reply was lost after the engine had
  applied the request, the tables hold what the other clients made of them.
\<close>

definition lossless :: "env \<Rightarrow> bool" where
  "lossless env \<longleftrightarrow> (\<forall>i e. verdict (env i) \<noteq> NoReply e True)"

lemma query_Transport_lossless:
  "query env stmt w = (Transport e, w') \<Longrightarrow> lossless env \<Longrightarrow>
     store w' = others (env (trips w)) (store w)"
  by (auto simp: query_def Let_def lossless_def split: verdict.splits sum.splits prod.splits if_splits)

lemma tx_loop_error_step:
  assumes "tx_loop env stmt (Suc n) c w = (Inl e, w')" and "lossless env"
  obtains w1 where "store w1 = others (env (trips w)) (store w)" "trips w1 = Suc (trips w)"
    "w' = w1 \<or> (\<exists>e'. tx_loop env stmt n (Some e') w1 = (Inl e, w'))"
proof -
  obtain reply w1 where q: "query env stmt w = (reply, w1)" by (cases "query env stmt w")
  have t1: "trips w1 = Suc (trips w)" using query_trips [OF q] .
  show ?thesis
  proof (cases reply)
    case (Rows r)
    with assms(1) q show ?thesis by simp
  next
    case (Errors x es)
    have s: "store w1 = others (env (trips w)) (store w)"
      using query_Errors [OF q [unfolded Errors]] .
    from assms(1) q Errors have "w' = w1 \<or> (\<exists>e'. tx_loop env stmt n (Some e') w1 = (Inl e, w'))"
      by (auto split: option.splits tx_outcome.splits)
    with s t1 show ?thesis using that by blast
  next
    case (Transport x)
    have "store w1 = others (env (trips w)) (store w)"
      using query_Transport_lossless [OF q [unfolded Transport] assms(2)] .
    moreover have "w' = w1" using assms(1) q Transport by simp
    ultimately show ?thesis using t1 that by blast
  qed
qed

lemma tx_loop_no_effect:
  assumes "tx_loop env stmt (Suc n) c w = (Inl e, w')" and "lossless env"
  shows "\<exists>k \<le> n. trips w' = Suc (trips w + k) \<and> store w' = arrives env w k"
  using assms(1)
proof (induction n arbitrary: c w)
  case 0
  from 0 assms(2) show ?case by (rule tx_loop_error_step) auto
next
  case (Suc n)
  from Suc.prems assms(2) obtain w1
    where s1: "store w1 = others (env (trips w)) (store w)" and t1: "trips w1 = Suc (trips w)"
      and alt: "w' = w1 \<or> (\<exists>e'. tx_loop env stmt (Suc n) (Some e') w1 = (Inl e, w'))"
    by (rule tx_loop_error_step)
  from alt show ?case
  proof
    assume "w' = w1"
    with s1 t1 show ?thesis by (intro exI [of _ 0]) auto
  next
    assume "\<exists>e'. tx_loop env stmt (Suc n) (Some e') w1 = (Inl e, w')"
    then obtain k where k: "k \<le> n" "trips w' = Suc (trips w1 + k)" "store w' = arrives env w1 k"
      using Suc.IH by blast
    have "arrives env w1 k = arrives env w (Suc k)" using s1 t1 by (rule arrives_Suc)
    with k t1 show ?thesis by (intro exI [of _ "Suc k"]) auto
  qed
qed

text \<open>A conflict at the i-th round trip, with the error the loop remembers.\<close>

definition conflict_at :: "env \<Rightarrow> nat \<Rightarrow> db_error option" where
  "conflict_at env i =
     (case verdict (env i) of
        Rejects e es \<Rightarrow>
          (case classify_tx_errors (e # es) of Some (Retry c) \<Rightarrow> Some c | _ \<Rightarrow> None)
      | _ \<Rightarrow> None)"

text \<open>A statement that cannot fail by itself meets a conflict only where the engine rejects it with one.\<close>

lemma conflicted_rejected:
  assumes "\<And>t d. stmt t d = Inr (f t d)" and "conflicted env stmt w i"
  shows "conflict_at env (trips w + i) \<noteq> None"
  using assms by (auto simp: conflicted_def answered_errors_def conflict_at_def split: verdict.splits)

lemma tx_loop_conflict_step:
  assumes "conflict_at env (trips w) = Some e"
  shows "tx_loop env stmt (Suc n) c w =
    tx_loop env stmt n (Some e)
      (w\<lparr>store := others (env (trips w)) (store w), trips := Suc (trips w)\<rparr>)"
  using assms
  by (auto simp: conflict_at_def query_def Let_def
        split: verdict.splits option.splits tx_outcome.splits)

lemma tx_loop_conflicts:
  assumes "\<forall>i < k. conflict_at env (trips w + i) = Some (e i)" and "0 < k"
  shows "tx_loop env stmt (k + n) c w =
    tx_loop env stmt n (Some (e (k - 1)))
      (w\<lparr>store := arrives env w (k - 1), trips := trips w + k\<rparr>)"
  using assms
proof (induction k arbitrary: c w e)
  case (Suc k)
  let ?w1 = "w\<lparr>store := others (env (trips w)) (store w), trips := Suc (trips w)\<rparr>"
  have step: "tx_loop env stmt (Suc k + n) c w = tx_loop env stmt (k + n) (Some (e 0)) ?w1"
    using Suc.prems(1) tx_loop_conflict_step [of env w "e 0" stmt "k + n" c] by force
  show ?case
  proof (cases "k = 0")
    case True
    with step show ?thesis by simp
  next
    case False
    have "\<forall>i < k. conflict_at env (trips ?w1 + i) = Some (e (Suc i))"
      using Suc.prems(1) by auto
    from Suc.IH [OF this] False step show ?thesis
      using arrives_Suc [of ?w1 env w "k - 1"] by simp
  qed
qed simp

text \<open>An engine with no other clients and no failures, for the undisturbed behaviour.\<close>

definition calm :: "time \<Rightarrow> env" where
  "calm now = (\<lambda>_. \<lparr>others = (\<lambda>d. d), clock = now, verdict = Executes\<rparr>)"

lemma lossless_calm [simp]: "lossless (calm now)"
  by (simp add: lossless_def calm_def)

lemma arrives_calm: "arrives (calm now) w k = store w"
proof -
  have "fold (\<lambda>i. others (calm now i)) xs d = d" for xs d by (induction xs) (simp_all add: calm_def)
  then show ?thesis by (simp add: arrives_def del: upt_Suc)
qed

lemma query_calm:
  assumes "stmt now (store w) = Inr (r, d')"
  shows "query (calm now) stmt w = (Rows r, w\<lparr>store := d', trips := Suc (trips w)\<rparr>)"
  using assms by (simp add: query_def calm_def Let_def)

lemma tx_loop_calm:
  assumes "stmt now (store w) = Inr (r, d')"
  shows "tx_loop (calm now) stmt (Suc n) c w =
    (Inr (Rows r), w\<lparr>store := d', trips := Suc (trips w)\<rparr>)"
  using query_calm [where stmt = stmt and w = w, OF assms] by simp

text \<open>An engine that executes and answers every request, whatever other clients do in between.\<close>

definition responsive :: "env \<Rightarrow> bool" where
  "responsive env \<longleftrightarrow> (\<forall>i. verdict (env i) = Executes)"

lemma query_executes:
  assumes "verdict (env (trips w)) = Executes"
    and "stmt (clock (env (trips w))) (others (env (trips w)) (store w)) = Inr (r, d')"
  shows "query env stmt w = (Rows r, w\<lparr>store := d', trips := Suc (trips w)\<rparr>)"
  using assms by (simp add: query_def Let_def)

text \<open>Whether the i-th request has an effect; one that has none leaves what the others committed.\<close>

definition gets_through :: "env \<Rightarrow> nat \<Rightarrow> bool" where
  "gets_through env i =
     (case verdict (env i) of Executes \<Rightarrow> True | Rejects _ _ \<Rightarrow> False | NoReply _ applied \<Rightarrow> applied)"

lemma query_blocked:
  assumes "\<not> gets_through env (trips w)"
  shows "\<exists>e. \<forall>stmt. \<exists>resp. take_rows resp = Inl e \<and>
    query env stmt w = (resp, w\<lparr>store := others (env (trips w)) (store w), trips := Suc (trips w)\<rparr>)"
  using assms
  by (cases "verdict (env (trips w))") (auto simp: gets_through_def query_def Let_def split: prod.splits)

section \<open>Invariants across round trips\<close>

text \<open>
  The contract between an operation and the tables: the other clients keep the invariant
  (\<open>env_keeps\<close>), and so does the operation's statement (the locale's law); then every
  round trip and every retry loop over the statement keeps it, whatever the verdicts.
\<close>

definition env_keeps :: "(db \<Rightarrow> bool) \<Rightarrow> env \<Rightarrow> bool" where
  "env_keeps I env \<longleftrightarrow> (\<forall>i d. I d \<longrightarrow> I (others (env i) d))"

lemma arrives_keeps:
  assumes "env_keeps I env" and "I (store w)"
  shows "I (arrives env w k)"
proof -
  have "I (fold (\<lambda>i. others (env i)) xs d)" if "I d" for xs d
    using that assms(1) by (induction xs arbitrary: d) (simp_all add: env_keeps_def)
  with assms(2) show ?thesis by (simp add: arrives_def del: upt_Suc)
qed

locale stmt_keeps =
  fixes I :: "db \<Rightarrow> bool" and stmt :: "'r stmt"
  assumes keeps: "I d \<Longrightarrow> stmt t d = Inr (r, d') \<Longrightarrow> I d'"
begin

lemma query_keeps:
  assumes "env_keeps I env" and "I (store w)" and "query env stmt w = (resp, w')"
  shows "I (store w')"
proof -
  have "I (others (env (trips w)) (store w))" using assms(1,2) by (simp add: env_keeps_def)
  with assms(3) show ?thesis
    by (auto simp: query_def Let_def intro: keeps
          split: verdict.splits sum.splits prod.splits if_splits)
qed

lemma tx_loop_keeps:
  assumes "env_keeps I env" and "I (store w)" and "tx_loop env stmt n c w = (resp, w')"
  shows "I (store w')"
  using assms(2,3)
proof (induction n arbitrary: c w)
  case (Suc n)
  obtain reply w1 where q: "query env stmt w = (reply, w1)" by (cases "query env stmt w")
  have "I (store w1)" using assms(1) Suc.prems(1) q by (rule query_keeps)
  with Suc show ?case
    using q by (fastforce split: reply.splits option.splits tx_outcome.splits)
qed simp

end

end
