(* ===== verification/Statements.thy ===== *)
theory Statements
  imports Engine
begin

text \<open>
  The SurrealQL statements under \<open>queries/\<close>, one definition per statement, as functions
  of the engine's time and the tables. A table is the list of its rows; \<open>UPDATE ... SET\<close>
  rewrites the matching rows in place, \<open>CREATE\<close> appends a row, \<open>DELETE\<close> filters, and
  \<open>SELECT ... ORDER BY ... LIMIT\<close> filters, sorts and takes. The locale \<open>row_update\<close> is
  the contract of the statements that rewrite rows of \<open>job\<close>: what each promises of one row gives
  what it keeps of the whole database.
\<close>

section \<open>Building blocks\<close>

text \<open>\<open>UPDATE $id SET ... WHERE ... RETURN AFTER\<close> and \<open>UPDATE $ids SET ... RETURN AFTER\<close>.\<close>

definition update_record ::
  "record_key \<Rightarrow> (job \<Rightarrow> bool) \<Rightarrow> (job \<Rightarrow> job) \<Rightarrow> db \<Rightarrow> job list \<times> db" where
  "update_record k P f d =
     (map f (filter (\<lambda>j. job_id j = k \<and> P j) (jobs d)),
      d\<lparr>jobs := update_where (\<lambda>j. job_id j = k \<and> P j) f (jobs d)\<rparr>)"

definition update_records :: "record_key list \<Rightarrow> (job \<Rightarrow> job) \<Rightarrow> db \<Rightarrow> job list \<times> db" where
  "update_records ks f d =
     (map f (List.map_filter (lookup_job d) ks),
      d\<lparr>jobs := update_where (\<lambda>j. job_id j \<in> set ks) f (jobs d)\<rparr>)"

text \<open>With unique ids an update of one record touches one row or none.\<close>

lemma filter_one_id:
  assumes "distinct (map job_id js)"
  shows "filter (\<lambda>j. job_id j = k \<and> P j) js =
    (case find (\<lambda>j. job_id j = k) js of None \<Rightarrow> [] | Some j \<Rightarrow> if P j then [j] else [])"
  using assms
proof (induction js)
  case (Cons x js)
  show ?case
  proof (cases "job_id x = k")
    case True
    with Cons.prems have "filter (\<lambda>j. job_id j = k \<and> P j) js = []"
      by (auto simp: filter_empty_conv dest: key_notin_image)
    with True show ?thesis by simp
  next
    case False
    with Cons show ?thesis by simp
  qed
qed simp

lemma fst_update_record:
  assumes "db_inv d"
  shows "fst (update_record k P f d) =
    (case lookup_job d k of None \<Rightarrow> [] | Some j \<Rightarrow> if P j then [f j] else [])"
proof -
  have "distinct (map job_id (jobs d))" using assms by (simp add: db_inv_def)
  from filter_one_id [OF this] show ?thesis
    by (simp add: update_record_def lookup_job_def split: option.splits)
qed

lemma update_record_miss:
  assumes "db_inv d" and "fst (update_record k P f d) = []"
  shows "snd (update_record k P f d) = d"
proof -
  have "\<not> (job_id j = k \<and> P j)" if "j \<in> set (jobs d)" for j
    using assms(2) that by (auto simp: update_record_def filter_empty_conv)
  then show ?thesis by (simp add: update_record_def update_where_none)
qed

section \<open>Claiming: \<open>fetch_next.surql\<close> and \<open>fetch_next_shared.surql\<close>\<close>

text \<open>\<open>ORDER BY priority DESC, run_at ASC, id ASC\<close>.\<close>

definition claim_order :: "job \<Rightarrow> int \<times> time \<times> record_key" where
  "claim_order j = (- priority j, run_at j, job_id j)"

definition due_batch :: "(string \<Rightarrow> bool) \<Rightarrow> int \<Rightarrow> time \<Rightarrow> db \<Rightarrow> job list" where
  "due_batch in_scope limit now d =
     take (nat limit)
       (sort_key claim_order (filter (\<lambda>j. in_scope (queue j) \<and> due now j) (jobs d)))"

definition due_ids :: "(string \<Rightarrow> bool) \<Rightarrow> int \<Rightarrow> time \<Rightarrow> db \<Rightarrow> record_key list" where
  "due_ids in_scope limit now d = map job_id (due_batch in_scope limit now d)"

definition set_claimed :: "string \<Rightarrow> time \<Rightarrow> job \<Rightarrow> job" where
  "set_claimed w now j = j\<lparr>status := Queued, lock_by := Some w, lock_at := Some now\<rparr>"

definition set_claimed_shared :: "time \<Rightarrow> job \<Rightarrow> job" where
  "set_claimed_shared now j = j\<lparr>status := Queued, lock_at := Some now\<rparr>"

definition fetch_next_stmt :: "string \<Rightarrow> string \<Rightarrow> int \<Rightarrow> job list stmt" where
  "fetch_next_stmt q w limit now d =
     Inr (update_records (due_ids (\<lambda>x. x = q) limit now d) (set_claimed w now) d)"

definition fetch_next_shared_stmt :: "string list \<Rightarrow> int \<Rightarrow> job list stmt" where
  "fetch_next_shared_stmt qs limit now d =
     Inr (update_records (due_ids (\<lambda>x. x \<in> set qs) limit now d) (set_claimed_shared now) d)"

section \<open>One task: \<open>lock_task.surql\<close>, \<open>ack_task.surql\<close>, \<open>kill_task.surql\<close>\<close>

definition lock_guard :: "string \<Rightarrow> job \<Rightarrow> bool" where
  "lock_guard w j \<longleftrightarrow>
     (lock_by j = Some w \<or> lock_by j = None) \<and> status j \<in> {Queued, Pending, Failed}"

definition set_running :: "string \<Rightarrow> time \<Rightarrow> job \<Rightarrow> job" where
  "set_running w now j = j\<lparr>status := Running, lock_at := Some now, lock_by := Some w\<rparr>"

definition lock_task_stmt :: "record_key \<Rightarrow> string \<Rightarrow> job list stmt" where
  "lock_task_stmt k w now d = Inr (update_record k (lock_guard w) (set_running w now) d)"

definition ack_guard :: "string \<Rightarrow> job \<Rightarrow> bool" where
  "ack_guard w j \<longleftrightarrow> lock_by j = Some w"

definition set_acked :: "status \<Rightarrow> int \<Rightarrow> json \<Rightarrow> time \<Rightarrow> job \<Rightarrow> job" where
  "set_acked s n r now j =
     j\<lparr>status := s, attempts := n, last_result := Some r, done_at := Some now\<rparr>"

definition ack_task_stmt :: "record_key \<Rightarrow> string \<Rightarrow> status \<Rightarrow> int \<Rightarrow> json \<Rightarrow> job list stmt" where
  "ack_task_stmt k w s n r now d = Inr (update_record k (ack_guard w) (set_acked s n r now) d)"

definition set_killed :: "string \<Rightarrow> time \<Rightarrow> job \<Rightarrow> job" where
  "set_killed reason now j =
     j\<lparr>status := Killed, last_result := Some (err_object reason), done_at := Some now,
       lock_by := None, lock_at := None\<rparr>"

definition kill_task_stmt :: "record_key \<Rightarrow> string \<Rightarrow> unit stmt" where
  "kill_task_stmt k reason now d =
     Inr ((), snd (update_record k (\<lambda>_. True) (set_killed reason now) d))"

section \<open>Orphans: \<open>reenqueue_orphaned.surql\<close>\<close>

definition live_instances :: "string \<Rightarrow> int \<Rightarrow> time \<Rightarrow> db \<Rightarrow> string list" where
  "live_instances q dur now d =
     map worker_instance
       (filter (\<lambda>x. worker_queue x = q \<and> last_seen x \<ge> now - millis dur) (workers d))"

definition orphaned :: "string \<Rightarrow> string list \<Rightarrow> int \<Rightarrow> time \<Rightarrow> job \<Rightarrow> bool" where
  "orphaned q live dur now j \<longleftrightarrow>
     queue j = q \<and>
     (case lock_at j of None \<Rightarrow> False | Some t \<Rightarrow> t \<le> now - millis dur) \<and>
     ((status j \<in> {Queued, Running} \<and>
       (case lock_by j of None \<Rightarrow> False | Some w \<Rightarrow> w \<notin> set live)) \<or>
      (status j = Queued \<and> lock_by j = None))"

definition set_reenqueued :: "job \<Rightarrow> job" where
  "set_reenqueued j =
     j\<lparr>status := Pending, attempts := attempts j + 1, lock_by := None, lock_at := None,
       done_at := None,
       last_result :=
         Some (err_object ''Re-enqueued: locking worker instance is no longer live.'')\<rparr>"

definition reenqueue_read_stmt :: "string \<Rightarrow> int \<Rightarrow> string list stmt" where
  "reenqueue_read_stmt q dur now d = Inr (live_instances q dur now d, d)"

definition reenqueue_update_stmt :: "string \<Rightarrow> string list \<Rightarrow> int \<Rightarrow> job list stmt" where
  "reenqueue_update_stmt q live dur now d =
     Inr (map set_reenqueued (filter (orphaned q live dur now) (jobs d)),
          d\<lparr>jobs := update_where (orphaned q live dur now) set_reenqueued (jobs d)\<rparr>)"

definition reap_workers_stmt :: "string \<Rightarrow> int \<Rightarrow> unit stmt" where
  "reap_workers_stmt q dur now d =
     Inr ((), d\<lparr>workers :=
       filter (\<lambda>x. \<not> (worker_queue x = q \<and> last_seen x < now - millis (dur * 4))) (workers d)\<rparr>)"

section \<open>Workers: \<open>register_worker.surql\<close>, \<open>keep_alive.surql\<close>\<close>

text \<open>\<open>UPSERT $worker CONTENT\<close> replaces the row of the key or creates it.\<close>

definition register_worker_stmt ::
  "record_key \<Rightarrow> string \<Rightarrow> string \<Rightarrow> string \<Rightarrow> string \<Rightarrow> string \<Rightarrow> unit stmt" where
  "register_worker_stmt k name q storage lay inst now d =
     (let row = \<lparr>worker_id = k, worker_name = name, worker_queue = q, storage_name = storage,
                 layers = Some lay, worker_instance = inst, started_at = now, last_seen = now\<rparr>
      in Inr ((),
           d\<lparr>workers :=
              (if lookup_worker d k = None then workers d @ [row]
               else update_where (\<lambda>x. worker_id x = k) (\<lambda>_. row) (workers d))\<rparr>))"

definition keep_alive_stmt :: "record_key \<Rightarrow> worker list stmt" where
  "keep_alive_stmt k now d =
     Inr (map (last_seen_update (\<lambda>_. now)) (filter (\<lambda>x. worker_id x = k) (workers d)),
          d\<lparr>workers :=
             update_where (\<lambda>x. worker_id x = k) (last_seen_update (\<lambda>_. now)) (workers d)\<rparr>)"

section \<open>Pushing: \<open>push_tasks.surql\<close>\<close>

record push_row =
  pr_id :: record_key
  pr_args :: bytes
  pr_queue :: string
  pr_max_attempts :: int
  pr_run_at :: time
  pr_priority :: int
  pr_metadata :: json
  pr_idempotency_key :: "string option"

definition key_taken :: "push_row \<Rightarrow> db \<Rightarrow> bool" where
  "key_taken r d \<longleftrightarrow>
     length (filter (\<lambda>j. queue j = pr_queue r \<and> idempotency_key j = pr_idempotency_key r) (jobs d)) \<noteq> 0"

definition new_job :: "push_row \<Rightarrow> job" where
  "new_job r =
     \<lparr>job_id = pr_id r, args = pr_args r, queue = pr_queue r, status = Pending, attempts = 0,
      max_attempts = pr_max_attempts r, run_at = pr_run_at r, last_result = None,
      lock_at = None, lock_by = None, done_at = None, priority = pr_priority r,
      metadata = Some (pr_metadata r), idempotency_key = pr_idempotency_key r\<rparr>"

text \<open>\<open>CREATE\<close> of a record that exists is an error of its statement; the text is the engine's.\<close>

definition record_exists :: db_error where
  "record_exists = \<lparr>query_details = None, message = ''Database record already exists''\<rparr>"

fun push_loop :: "push_row list \<Rightarrow> db \<Rightarrow> db_error + db" where
  "push_loop [] d = Inr d"
| "push_loop (r # rs) d =
     (if pr_idempotency_key r = None \<or> \<not> key_taken r d
      then (case lookup_job d (pr_id r) of
              Some _ \<Rightarrow> Inl record_exists
            | None \<Rightarrow> push_loop rs (d\<lparr>jobs := jobs d @ [new_job r]\<rparr>))
      else push_loop rs d)"

definition push_tasks_stmt :: "push_row list \<Rightarrow> unit stmt" where
  "push_tasks_stmt rows now d =
     (case push_loop rows d of Inl e \<Rightarrow> Inl ((1, e), []) | Inr d' \<Rightarrow> Inr ((), d'))"

section \<open>Purging: \<open>vacuum.surql\<close>\<close>

definition vacuum_stmt :: "job list stmt" where
  "vacuum_stmt now d =
     Inr (filter terminal (jobs d), d\<lparr>jobs := filter (\<lambda>j. \<not> terminal j) (jobs d)\<rparr>)"

lemmas [stmt_defs] =
  fetch_next_stmt_def fetch_next_shared_stmt_def lock_task_stmt_def ack_task_stmt_def
  kill_task_stmt_def reenqueue_read_stmt_def reenqueue_update_stmt_def reap_workers_stmt_def
  register_worker_stmt_def keep_alive_stmt_def push_tasks_stmt_def vacuum_stmt_def

lemmas [row_simps] =
  set_claimed_def set_claimed_shared_def set_running_def set_acked_def set_killed_def
  set_reenqueued_def

section \<open>The contract of the row updates\<close>

locale row_update =
  fixes guard :: "job \<Rightarrow> bool" and eff :: "job \<Rightarrow> job"
  assumes eff_id: "job_id (eff j) = job_id j"
    and eff_queue: "queue (eff j) = queue j"
    and eff_key: "idempotency_key (eff j) = idempotency_key j"
    and eff_args: "args (eff j) = args j"
    and eff_ok: "row_ok j \<Longrightarrow> guard j \<Longrightarrow> row_ok (eff j)"
begin

lemma map_id_update: "map job_id (update_where P eff js) = map job_id js"
  by (rule map_update_where) (rule eff_id)

lemma map_idem_update: "map idem_key (update_where P eff js) = map idem_key js"
  by (rule map_update_where) (simp add: idem_key_def eff_queue eff_key)

lemma map_args_update: "map args (update_where P eff js) = map args js"
  by (rule map_update_where) (rule eff_args)

lemma update_rows_ok:
  assumes "\<forall>j \<in> set js. row_ok j" and "\<And>j. j \<in> set js \<Longrightarrow> P j \<Longrightarrow> guard j"
  shows "\<forall>j \<in> set (update_where P eff js). row_ok j"
  using assms eff_ok by (auto simp: set_update_where)

lemma update_db_inv:
  assumes "db_inv d" and "\<And>j. j \<in> set (jobs d) \<Longrightarrow> P j \<Longrightarrow> guard j"
  shows "db_inv (d\<lparr>jobs := update_where P eff (jobs d)\<rparr>)"
  using assms update_rows_ok [of "jobs d" P]
  by (simp add: db_inv_def idem_unique_def map_id_update map_idem_update)

lemma lookup_update:
  "lookup_job (d\<lparr>jobs := update_where P eff (jobs d)\<rparr>) k =
     map_option (\<lambda>j. if P j then eff j else j) (lookup_job d k)"
proof -
  have "find (\<lambda>j. job_id j = k) (update_where P eff js) =
      map_option (\<lambda>j. if P j then eff j else j) (find (\<lambda>j. job_id j = k) js)" for js
    by (induction js) (auto simp: eff_id)
  then show ?thesis by (simp add: lookup_job_def)
qed

lemma update_record_db_inv:
  assumes "db_inv d" and "\<And>j. P j \<Longrightarrow> guard j"
  shows "db_inv (snd (update_record k P eff d))"
  using assms by (auto simp: update_record_def intro: update_db_inv)

lemma lookup_update_record:
  "lookup_job (snd (update_record k P eff d)) k' =
     (if k' = k then map_option (\<lambda>j. if P j then eff j else j) (lookup_job d k)
      else lookup_job d k')"
  by (cases "lookup_job d k'")
     (auto simp: update_record_def lookup_update dest: lookup_job_Some)

end

interpretation claimed: row_update "due now" "set_claimed w now" for w now
  by unfold_locales (auto simp: row_ok_def due_def row_simps)

interpretation claimed_shared: row_update "due now" "set_claimed_shared now" for now
  by unfold_locales (auto simp: row_ok_def due_def row_simps)

interpretation locked: row_update "lock_guard w" "set_running w now" for w now
  by unfold_locales (auto simp: row_ok_def row_simps)

interpretation killed: row_update "\<lambda>_. True" "set_killed reason now" for reason now
  by unfold_locales (auto simp: row_ok_def row_simps)

interpretation reenqueued: row_update "orphaned q live dur now" set_reenqueued for q live dur now
  by unfold_locales (auto simp: row_ok_def row_simps)

interpretation acked:
  row_update "\<lambda>j. ack_guard w j \<and> s \<in> {Done, Failed, Killed}" "set_acked s n r now" for w s n r now
  by unfold_locales (auto simp: row_ok_def ack_guard_def row_simps)

section \<open>The claimed batch\<close>

lemma due_batch_mem:
  "j \<in> set (due_batch S limit now d) \<Longrightarrow> j \<in> set (jobs d) \<and> S (queue j) \<and> due now j"
  by (auto simp: due_batch_def dest: set_take_sort_key)

lemma distinct_due_batch:
  "distinct (map job_id (jobs d)) \<Longrightarrow> distinct (map job_id (due_batch S limit now d))"
  unfolding due_batch_def by (intro distinct_map_take_sort_key distinct_map_filterI)

lemma map_filter_lookup:
  assumes "distinct (map job_id (jobs d))" and "set js \<subseteq> set (jobs d)"
  shows "List.map_filter (lookup_job d) (map job_id js) = js"
  using assms(2)
  by (induction js) (simp_all add: List.map_filter_simps lookup_job_mem [OF assms(1)])

text \<open>
  With unique record ids, the two steps of a claim (select the ids, update the records)
  come to one update of the selected rows, returned in the claim order.
\<close>

lemma claim_update:
  assumes "distinct (map job_id (jobs d))"
  shows "update_records (due_ids S limit now d) f d =
    (map f (due_batch S limit now d),
     d\<lparr>jobs := update_where (\<lambda>j. j \<in> set (due_batch S limit now d)) f (jobs d)\<rparr>)"
proof -
  let ?b = "due_batch S limit now d"
  have sub: "set ?b \<subseteq> set (jobs d)" using due_batch_mem by blast
  have "j \<in> set ?b" if "j \<in> set (jobs d)" "job_id j \<in> set (map job_id ?b)" for j
    using that sub distinct_key_eq [OF assms that(1)] by (metis (no_types, lifting) imageE set_map subsetD)
  then have "update_where (\<lambda>j. job_id j \<in> set (map job_id ?b)) f (jobs d) =
      update_where (\<lambda>j. j \<in> set ?b) f (jobs d)"
    by (auto simp: update_where_def)
  with map_filter_lookup [OF assms sub] show ?thesis
    by (simp add: update_records_def due_ids_def)
qed

section \<open>Every statement keeps the invariant\<close>

lemma fetch_next_db_inv:
  assumes "db_inv d" and "fetch_next_stmt q w limit now d = Inr (rows, d')"
  shows "db_inv d'"
proof -
  have "distinct (map job_id (jobs d))" using assms(1) by (simp add: db_inv_def)
  from claim_update [OF this] assms(2) show ?thesis
    using claimed.update_db_inv [OF assms(1)] due_batch_mem
    by (auto simp: fetch_next_stmt_def)
qed

lemma fetch_next_shared_db_inv:
  assumes "db_inv d" and "fetch_next_shared_stmt qs limit now d = Inr (rows, d')"
  shows "db_inv d'"
proof -
  have "distinct (map job_id (jobs d))" using assms(1) by (simp add: db_inv_def)
  from claim_update [OF this] assms(2) show ?thesis
    using claimed_shared.update_db_inv [OF assms(1)] due_batch_mem
    by (auto simp: fetch_next_shared_stmt_def)
qed

lemma lock_task_db_inv:
  "db_inv d \<Longrightarrow> lock_task_stmt k w now d = Inr (rows, d') \<Longrightarrow> db_inv d'"
  using locked.update_record_db_inv [of d "lock_guard w" w k now]
  by (auto simp: lock_task_stmt_def)

lemma ack_task_db_inv:
  assumes "db_inv d" and "s \<in> {Done, Failed, Killed}" and "ack_task_stmt k w s n r now d = Inr (rows, d')"
  shows "db_inv d'"
  using acked.update_record_db_inv [OF assms(1), of "ack_guard w" w s k n r now] assms(2,3)
  by (auto simp: ack_task_stmt_def dest: sym)

lemma kill_task_db_inv:
  "db_inv d \<Longrightarrow> kill_task_stmt k reason now d = Inr (u, d') \<Longrightarrow> db_inv d'"
  using killed.update_record_db_inv [of d "\<lambda>_. True"] by (auto simp: kill_task_stmt_def)

lemma reenqueue_db_inv:
  "db_inv d \<Longrightarrow> reenqueue_update_stmt q live dur now d = Inr (rows, d') \<Longrightarrow> db_inv d'"
  using reenqueued.update_db_inv [of d "orphaned q live dur now" q live dur now]
  by (auto simp: reenqueue_update_stmt_def)

lemma reap_db_inv: "db_inv d \<Longrightarrow> reap_workers_stmt q dur now d = Inr (u, d') \<Longrightarrow> db_inv d'"
  by (auto simp: reap_workers_stmt_def db_inv_def intro: distinct_map_filterI)

lemma register_db_inv:
  assumes "db_inv d"
    and "register_worker_stmt (StringKey inst) name q storage lay inst now d = Inr (u, d')"
  shows "db_inv d'"
proof -
  let ?row = "\<lparr>worker_id = StringKey inst, worker_name = name, worker_queue = q,
    storage_name = storage, layers = Some lay, worker_instance = inst, started_at = now,
    last_seen = now\<rparr>"
  have "map worker_id (update_where (\<lambda>x. worker_id x = StringKey inst) (\<lambda>_. ?row) (workers d)) =
      map worker_id (workers d)"
    by (rule map_update_where) simp
  with assms show ?thesis
    by (auto simp: register_worker_stmt_def Let_def db_inv_def set_update_where
          lookup_worker_def find_key_None split: if_splits)
qed

lemma keep_alive_db_inv:
  assumes "db_inv d" and "keep_alive_stmt k now d = Inr (rows, d')"
  shows "db_inv d'"
proof -
  have "map worker_id (update_where (\<lambda>x. worker_id x = k) (last_seen_update (\<lambda>_. now)) (workers d)) =
      map worker_id (workers d)"
    by (rule map_update_where) simp
  with assms show ?thesis by (auto simp: keep_alive_stmt_def db_inv_def set_update_where)
qed

lemma vacuum_db_inv:
  assumes "db_inv d" and "vacuum_stmt now d = Inr (rows, d')"
  shows "db_inv d'"
proof -
  have "idem_unique js \<Longrightarrow> idem_unique (filter P js)" for P js
    by (simp add: idem_unique_def distinct_filter_map_filter)
  with assms show ?thesis
    by (auto simp: vacuum_stmt_def db_inv_def intro: distinct_map_filterI)
qed

lemma key_not_taken:
  assumes "pr_idempotency_key r = None \<or> \<not> key_taken r d" and "idem_unique (jobs d)"
  shows "idem_unique (jobs d @ [new_job r])"
proof (cases "pr_idempotency_key r")
  case None
  with assms(2) show ?thesis by (simp add: idem_unique_def idem_key_def new_job_def)
next
  case (Some k)
  have "idem_key j \<noteq> Some (pr_queue r, k)" if "j \<in> set (jobs d)" for j
    using assms(1) that Some by (auto simp: idem_key_def key_taken_def filter_empty_conv)
  then have "Some (pr_queue r, k) \<notin> idem_key ` set (jobs d)" by (metis imageE)
  moreover have "idem_key (new_job r) = Some (pr_queue r, k)"
    using Some by (simp add: idem_key_def new_job_def)
  ultimately show ?thesis using assms(2) by (simp add: idem_unique_def)
qed

lemma push_loop_db_inv: "db_inv d \<Longrightarrow> push_loop rs d = Inr d' \<Longrightarrow> db_inv d'"
proof (induction rs d rule: push_loop.induct)
  case (2 r rs d)
  show ?case
  proof (cases "pr_idempotency_key r = None \<or> \<not> key_taken r d")
    case True
    with 2 have none: "lookup_job d (pr_id r) = None" by (auto split: option.splits)
    have "row_ok (new_job r)" by (simp add: new_job_def row_ok_def)
    moreover have "idem_unique (jobs d @ [new_job r])"
      using key_not_taken [OF True] 2(3) by (simp add: db_inv_def)
    moreover have "job_id (new_job r) = pr_id r" by (simp add: new_job_def)
    ultimately have "db_inv (d\<lparr>jobs := jobs d @ [new_job r]\<rparr>)"
      using 2(3) none by (auto simp: db_inv_def lookup_job_None)
    with 2 True none show ?thesis by simp
  next
    case False
    with 2 show ?thesis by simp
  qed
qed simp

lemma push_tasks_stmt_Inr:
  "push_tasks_stmt rows now d = Inr (u, d') \<longleftrightarrow> push_loop rows d = Inr d'"
  by (auto simp: push_tasks_stmt_def split: sum.splits)

lemma push_tasks_db_inv: "db_inv d \<Longrightarrow> push_tasks_stmt rows now d = Inr (u, d') \<Longrightarrow> db_inv d'"
  by (auto simp: push_tasks_stmt_Inr intro: push_loop_db_inv)

text \<open>The statements meet the contract of the round trips.\<close>

interpretation fetch_next_keeps: stmt_keeps db_inv "fetch_next_stmt q w limit" for q w limit
  by unfold_locales (rule fetch_next_db_inv)

interpretation fetch_next_shared_keeps:
  stmt_keeps db_inv "fetch_next_shared_stmt qs limit" for qs limit
  by unfold_locales (rule fetch_next_shared_db_inv)

interpretation lock_task_keeps: stmt_keeps db_inv "lock_task_stmt k w" for k w
  by unfold_locales (rule lock_task_db_inv)

interpretation kill_task_keeps: stmt_keeps db_inv "kill_task_stmt k reason" for k reason
  by unfold_locales (rule kill_task_db_inv)

interpretation reenqueue_read_keeps: stmt_keeps db_inv "reenqueue_read_stmt q dur" for q dur
  by unfold_locales (simp add: reenqueue_read_stmt_def)

interpretation reenqueue_keeps: stmt_keeps db_inv "reenqueue_update_stmt q live dur" for q live dur
  by unfold_locales (rule reenqueue_db_inv)

interpretation reap_keeps: stmt_keeps db_inv "reap_workers_stmt q dur" for q dur
  by unfold_locales (rule reap_db_inv)

interpretation register_keeps:
  stmt_keeps db_inv "register_worker_stmt (StringKey inst) name q storage lay inst"
  for inst name q storage lay
  by unfold_locales (rule register_db_inv)

interpretation keep_alive_keeps: stmt_keeps db_inv "keep_alive_stmt k" for k
  by unfold_locales (rule keep_alive_db_inv)

interpretation push_tasks_keeps: stmt_keeps db_inv "push_tasks_stmt rows" for rows
  by unfold_locales (rule push_tasks_db_inv)

interpretation vacuum_keeps: stmt_keeps db_inv vacuum_stmt
  by unfold_locales (rule vacuum_db_inv)

end
