(* ===== verification/Push.thy ===== *)
theory Push
  imports Statements
begin

text \<open>
  \<open>src/queries/push_tasks.rs\<close>: building the rows of a batch and inserting them in one
  transaction, duplicates of an idempotency key skipped.
\<close>

section \<open>The operation\<close>

text \<open>
  What the function takes from outside: \<open>Datetime::from_timestamp\<close> (which rejects what
  does not fit), \<open>Datetime::now()\<close> and \<open>Ulid::new()\<close>, the last two per position in the batch.
\<close>

record client =
  from_timestamp :: "int \<Rightarrow> time option"
  local_now :: "nat \<Rightarrow> time"
  new_ulid :: "nat \<Rightarrow> string"

definition to_push_row :: "client \<Rightarrow> string \<Rightarrow> nat \<Rightarrow> compact_task \<Rightarrow> push_row" where
  "to_push_row cl q i task =
     (let p = snd task;
          ident = (case part_task_id p of Some t \<Rightarrow> t | None \<Rightarrow> new_ulid cl i);
          at = (case from_timestamp cl (as_i64 (int (part_run_at p))) of
                  Some t \<Rightarrow> t | None \<Rightarrow> local_now cl i)
      in \<lparr>pr_id = StringKey ident, pr_args = fst task, pr_queue = q,
          pr_max_attempts = ctx_max_attempts (part_ctx p), pr_run_at = at,
          pr_priority = ctx_priority (part_ctx p),
          pr_metadata = JObject (ctx_meta (part_ctx p)),
          pr_idempotency_key = part_idempotency_key p\<rparr>)"

definition to_push_rows :: "client \<Rightarrow> string \<Rightarrow> compact_task list \<Rightarrow> push_row list" where
  "to_push_rows cl q tasks = map (\<lambda>(i, t). to_push_row cl q i t) (enumerate 0 tasks)"

definition push_tasks ::
  "env \<Rightarrow> client \<Rightarrow> config \<Rightarrow> compact_task list \<Rightarrow> world \<Rightarrow> (surreal_error + unit) \<times> world" where
  "push_tasks env cl cfg tasks w =
     (case tx_loop env (push_tasks_stmt (to_push_rows cl (cfg_queue cfg) tasks))
             MAX_TX_RETRIES None w of
        (Inl e, w') \<Rightarrow> (Inl e, w')
      | (Inr _, w') \<Rightarrow> (Inr (), w'))"

lemma length_to_push_rows [simp]: "length (to_push_rows cl q tasks) = length tasks"
  by (simp add: to_push_rows_def)

lemma to_push_rows_queue: "r \<in> set (to_push_rows cl q tasks) \<Longrightarrow> pr_queue r = q"
  by (auto simp: to_push_rows_def to_push_row_def Let_def)

section \<open>Which rows of a batch are created\<close>

text \<open>
  The reference: walking the batch with the keys already used, a row without a key is
  created and a row with a key is created when its key is new, which uses the key up.
\<close>

definition row_key :: "push_row \<Rightarrow> (string \<times> string) option" where
  "row_key r = map_option (\<lambda>k. (pr_queue r, k)) (pr_idempotency_key r)"

fun accepted :: "(string \<times> string) option set \<Rightarrow> push_row list \<Rightarrow> push_row list" where
  "accepted K [] = []"
| "accepted K (r # rs) =
     (if row_key r \<noteq> None \<and> row_key r \<in> K then accepted K rs
      else r # accepted (insert (row_key r) K) rs)"

lemma idem_key_new_job [simp]: "idem_key (new_job r) = row_key r"
  by (simp add: idem_key_def new_job_def row_key_def)

lemma job_id_new_job [simp]: "job_id (new_job r) = pr_id r"
  by (simp add: new_job_def)

lemma key_taken_iff:
  "pr_idempotency_key r \<noteq> None \<Longrightarrow> key_taken r d \<longleftrightarrow> row_key r \<in> idem_key ` set (jobs d)"
proof -
  assume "pr_idempotency_key r \<noteq> None"
  then have "row_key r = idem_key j \<longleftrightarrow> queue j = pr_queue r \<and> idempotency_key j = pr_idempotency_key r"
    for j by (auto simp: row_key_def idem_key_def)
  then show ?thesis by (auto simp: key_taken_def filter_empty_conv image_iff)
qed

lemma row_key_None [simp]: "row_key r = None \<longleftrightarrow> pr_idempotency_key r = None"
  by (simp add: row_key_def)

lemma push_skips_iff:
  "pr_idempotency_key r = None \<or> \<not> key_taken r d \<longleftrightarrow>
    \<not> (row_key r \<noteq> None \<and> row_key r \<in> idem_key ` set (jobs d))"
  using key_taken_iff [of r d] by auto

lemma push_loop_accepted:
  assumes "push_loop rs d = Inr d'"
  shows "d' = d\<lparr>jobs := jobs d @ map new_job (accepted (idem_key ` set (jobs d)) rs)\<rparr>"
  using assms
proof (induction rs d rule: push_loop.induct)
  case (2 r rs d)
  show ?case
  proof (cases "row_key r \<noteq> None \<and> row_key r \<in> idem_key ` set (jobs d)")
    case True
    then have "\<not> (pr_idempotency_key r = None \<or> \<not> key_taken r d)"
      using push_skips_iff by blast
    with 2 True show ?thesis by auto
  next
    case False
    then have skip: "pr_idempotency_key r = None \<or> \<not> key_taken r d"
      using push_skips_iff by blast
    let ?d = "d\<lparr>jobs := jobs d @ [new_job r]\<rparr>"
    from 2(3) skip have none: "lookup_job d (pr_id r) = None" and "push_loop rs ?d = Inr d'"
      by (auto split: option.splits)
    with 2(1) [OF skip none]
    have "d' = ?d\<lparr>jobs := jobs ?d @ map new_job (accepted (idem_key ` set (jobs ?d)) rs)\<rparr>"
      by simp
    with False show ?thesis by (auto simp del: row_key_None)
  qed
qed simp

lemma accepted_subset: "set (accepted K rs) \<subseteq> set rs"
  by (induction K rs rule: accepted.induct) auto

lemma accepted_covers:
  "r \<in> set rs \<Longrightarrow> row_key r \<in> K \<union> row_key ` set (accepted K rs)"
  by (induction K rs rule: accepted.induct) (auto split: if_splits)

lemma accepted_empty:
  "(\<And>r. r \<in> set rs \<Longrightarrow> row_key r \<noteq> None \<and> row_key r \<in> K) \<Longrightarrow> accepted K rs = []"
  by (induction rs) auto

lemma push_loop_skip_all:
  "(\<And>r. r \<in> set rs \<Longrightarrow> row_key r \<noteq> None \<and> row_key r \<in> idem_key ` set (jobs d)) \<Longrightarrow>
    push_loop rs d = Inr d"
proof (induction rs)
  case (Cons r rs)
  then have "\<not> (pr_idempotency_key r = None \<or> \<not> key_taken r d)"
    using push_skips_iff [of r d] by (simp del: row_key_None)
  moreover have "push_loop rs d = Inr d" using Cons by simp
  ultimately show ?case by auto
qed simp

section \<open>Properties\<close>

lemma push_tasks_committed:
  assumes "push_tasks env cl cfg tasks w = (Inr (), w')"
  shows "\<exists>k < MAX_TX_RETRIES. trips w' = Suc (trips w + k) \<and>
    store w' = (arrives env w k)\<lparr>jobs := jobs (arrives env w k) @
      map new_job (accepted (idem_key ` set (jobs (arrives env w k)))
        (to_push_rows cl (cfg_queue cfg) tasks))\<rparr>"
proof -
  from assms obtain resp where
    "tx_loop env (push_tasks_stmt (to_push_rows cl (cfg_queue cfg) tasks)) MAX_TX_RETRIES None w =
      (Inr resp, w')"
    by (auto simp: push_tasks_def split: prod.splits sum.splits)
  from tx_loop_commit [OF this] obtain k where k: "k < MAX_TX_RETRIES" "trips w' = Suc (trips w + k)"
    "push_loop (to_push_rows cl (cfg_queue cfg) tasks) (arrives env w k) = Inr (store w')"
    by (auto simp: push_tasks_stmt_Inr)
  with push_loop_accepted [OF k(3)] show ?thesis by blast
qed

text \<open>C9. A committed push appends exactly the rows the reference accepts, in batch order, as pending jobs of the storage's queue, to what the tables held when its transaction ran; at most MAX_TX_RETRIES round trips are made.\<close>

theorem push_tasks_appends:
  assumes "push_tasks env cl cfg tasks w = (Inr (), w')"
  shows "\<exists>k < MAX_TX_RETRIES. trips w' = Suc (trips w + k) \<and>
    store w' = (arrives env w k)\<lparr>jobs := jobs (arrives env w k) @
      map new_job (accepted (idem_key ` set (jobs (arrives env w k)))
        (to_push_rows cl (cfg_queue cfg) tasks))\<rparr>"
  using assms by (rule push_tasks_committed)

text \<open>C19. A push that reports an error has inserted nothing: with replies that are not lost after the engine applied the request, the tables hold what the other clients made of them, and no more than MAX_TX_RETRIES attempts were made.\<close>

theorem push_tasks_all_or_nothing:
  assumes "push_tasks env cl cfg tasks w = (Inl e, w')" and "lossless env"
  shows "\<exists>k < MAX_TX_RETRIES. trips w' = Suc (trips w + k) \<and> store w' = arrives env w k"
proof -
  have "MAX_TX_RETRIES = Suc 4" by (simp add: MAX_TX_RETRIES_def)
  with assms(1) have
    "tx_loop env (push_tasks_stmt (to_push_rows cl (cfg_queue cfg) tasks)) (Suc 4) None w =
      (Inl e, w')"
    by (auto simp: push_tasks_def split: prod.splits sum.splits)
  from tx_loop_no_effect [OF this assms(2)] show ?thesis
    by (force simp: MAX_TX_RETRIES_def)
qed

text \<open>C10. Once a batch is pushed, each idempotency key in it names exactly one job of the queue, whether it was there before, came with this batch or came twice with it.\<close>

theorem pushed_keys_unique:
  assumes "db_inv d" and "push_loop rs d = Inr d'"
    and "r \<in> set rs" and "pr_idempotency_key r = Some k"
  shows "\<exists>!j. j \<in> set (jobs d') \<and> queue j = pr_queue r \<and> idempotency_key j = Some k"
proof -
  have rk: "row_key r = Some (pr_queue r, k)" using assms(4) by (simp add: row_key_def)
  have "idem_key ` set (jobs d') =
      idem_key ` set (jobs d) \<union> row_key ` set (accepted (idem_key ` set (jobs d)) rs)"
    by (simp add: push_loop_accepted [OF assms(2)] image_Un image_image)
  then have ex: "row_key r \<in> idem_key ` set (jobs d')"
    using accepted_covers [OF assms(3), of "idem_key ` set (jobs d)"] by simp
  have inv: "db_inv d'" using push_loop_db_inv [OF assms(1,2)] .
  have key: "idem_key j = Some (pr_queue r, k) \<longleftrightarrow> queue j = pr_queue r \<and> idempotency_key j = Some k"
    for j by (auto simp: idem_key_def)
  show ?thesis
    using ex idem_unique_eq [of "jobs d'"] inv by (auto simp: rk db_inv_def key [symmetric])
qed

text \<open>A push is idempotent on keyed batches: pushing a batch whose tasks all carry keys a second time changes nothing.\<close>

lemma push_again_no_change:
  assumes "push_loop rs d = Inr d'" and "\<forall>r \<in> set rs. pr_idempotency_key r \<noteq> None"
  shows "push_loop rs d' = Inr d'"
proof (rule push_loop_skip_all)
  fix r assume r: "r \<in> set rs"
  have "idem_key ` set (jobs d') =
      idem_key ` set (jobs d) \<union> row_key ` set (accepted (idem_key ` set (jobs d)) rs)"
    by (simp add: push_loop_accepted [OF assms(1)] image_Un image_image)
  with accepted_covers [OF r] assms(2) r
  show "row_key r \<noteq> None \<and> row_key r \<in> idem_key ` set (jobs d')" by auto
qed

text \<open>A push keeps the database invariant (unique ids, unique idempotency keys per queue, consistent rows) whatever the engine answers, as long as the other clients keep it.\<close>

lemma push_tasks_invariant:
  assumes "env_keeps db_inv env" and "db_inv (store w)"
  shows "db_inv (store (snd (push_tasks env cl cfg tasks w)))"
  using push_tasks_keeps.tx_loop_keeps [OF assms]
  by (auto simp: push_tasks_def split: prod.splits sum.splits)

section \<open>Witnesses\<close>

definition sample_client :: client where
  "sample_client =
     \<lparr>from_timestamp = (\<lambda>s. Some (s * nanos_per_sec)), local_now = (\<lambda>_. 0),
      new_ulid = (\<lambda>i. if i = 0 then ''01A'' else ''01B'')\<rparr>"

definition sample_config :: config where
  "sample_config =
     \<lparr>cfg_queue = ''emails'', cfg_buffer_size = 10, cfg_keep_alive = 30000000000,
      cfg_reenqueue_after = 300000000000\<rparr>"

definition sample_task :: "string option \<Rightarrow> compact_task" where
  "sample_task key =
     ([42], \<lparr>part_task_id = None, part_run_at = 5, part_idempotency_key = key, part_attempt = 0,
        part_status = Pending,
        part_ctx = \<lparr>ctx_max_attempts = 25, ctx_priority = 0, ctx_meta = [], ctx_queue = None,
                    ctx_lock_by = None\<rparr>\<rparr>)"

definition start_world :: world where
  "start_world = \<lparr>store = empty_db, trips = 0\<rparr>"

definition sample_row :: push_row where
  "sample_row =
     \<lparr>pr_id = StringKey ''01A'', pr_args = [42], pr_queue = ''emails'', pr_max_attempts = 25,
      pr_run_at = 5000000000, pr_priority = 0, pr_metadata = JObject [],
      pr_idempotency_key = Some ''k''\<rparr>"

definition sample_db :: db where
  "sample_db = \<lparr>jobs = [new_job sample_row], workers = [], meta_version = None\<rparr>"

lemmas sample_defs =
  sample_client_def sample_config_def sample_task_def start_world_def sample_row_def
  sample_db_def empty_db_def nanos_per_sec_def

lemma sample_push_rows:
  "to_push_rows sample_client ''emails'' [sample_task (Some ''k''), sample_task (Some ''k'')] =
     [sample_row, sample_row\<lparr>pr_id := StringKey ''01B''\<rparr>]"
  by (simp add: to_push_rows_def to_push_row_def sample_defs as_i64_id)

lemma sample_push_loop:
  "push_loop [sample_row, sample_row\<lparr>pr_id := StringKey ''01B''\<rparr>] empty_db = Inr sample_db"
  by code_simp

lemma store_start_world: "store start_world = empty_db"
  by (simp add: start_world_def)

lemma push_tasks_calm:
  assumes "push_loop (to_push_rows cl (cfg_queue cfg) tasks) (store w) = Inr d'"
  shows "push_tasks (calm now) cl cfg tasks w = (Inr (), w\<lparr>store := d', trips := Suc (trips w)\<rparr>)"
  using tx_loop_calm [of "push_tasks_stmt (to_push_rows cl (cfg_queue cfg) tasks)" now w "()" d' 4 None]
    assms
  by (simp add: push_tasks_def push_tasks_stmt_Inr MAX_TX_RETRIES_def eval_nat_numeral
      del: tx_loop.simps)

lemma sample_push:
  "push_tasks (calm 0) sample_client sample_config [sample_task (Some ''k''), sample_task (Some ''k'')]
     start_world = (Inr (), \<lparr>store = sample_db, trips = 1\<rparr>)"
proof -
  have "push_loop (to_push_rows sample_client (cfg_queue sample_config)
      [sample_task (Some ''k''), sample_task (Some ''k'')]) (store start_world) = Inr sample_db"
    using sample_push_loop by (simp only: sample_config_def config.simps sample_push_rows store_start_world)
  from push_tasks_calm [OF this] show ?thesis by (simp add: start_world_def)
qed

theorem push_tasks_appends_witness:
  "\<exists>k < MAX_TX_RETRIES. (1::nat) = Suc k \<and>
    sample_db = (arrives (calm 0) start_world k)\<lparr>jobs := jobs (arrives (calm 0) start_world k) @
      map new_job (accepted (idem_key ` set (jobs (arrives (calm 0) start_world k)))
        [sample_row, sample_row\<lparr>pr_id := StringKey ''01B''\<rparr>])\<rparr>"
  using push_tasks_appends [OF sample_push] sample_push_rows
  by (simp add: start_world_def sample_config_def)

text \<open>Five conflicts in a row: the push fails and the tables are as they were.\<close>

definition conflict_error :: db_error where
  "conflict_error =
     \<lparr>query_details = Some TransactionConflict, message = ''Transaction conflict''\<rparr>"

definition stormy :: env where
  "stormy = (\<lambda>_. \<lparr>others = (\<lambda>d. d), clock = 0, verdict = Rejects (1, conflict_error) []\<rparr>)"

lemma stormy_conflict: "conflict_at stormy i = Some conflict_error"
  by (simp add: conflict_at_def stormy_def classify_tx_errors_correct classify_spec_def
      is_conflict_def is_real_def conflict_error_def)

lemma lossless_stormy: "lossless stormy"
  by (simp add: lossless_def stormy_def)

lemma arrives_stormy: "arrives stormy w k = store w"
proof -
  have "fold (\<lambda>i. others (stormy i)) xs d = d" for xs d
    by (induction xs) (simp_all add: stormy_def)
  then show ?thesis by (simp add: arrives_def del: upt_Suc)
qed

lemma stormy_push:
  "push_tasks stormy sample_client sample_config [sample_task None] start_world =
     (Inl (Database conflict_error), \<lparr>store = empty_db, trips = 5\<rparr>)"
  using tx_loop_conflicts [of 5 stormy start_world "\<lambda>_. conflict_error"
      "push_tasks_stmt (to_push_rows sample_client ''emails'' [sample_task None])" 0 None]
  by (simp add: push_tasks_def stormy_conflict MAX_TX_RETRIES_def arrives_stormy
      sample_config_def start_world_def del: tx_loop.simps(2))

theorem push_tasks_all_or_nothing_witness:
  "\<exists>k < MAX_TX_RETRIES. (5::nat) = Suc k \<and> empty_db = arrives stormy start_world k"
  using push_tasks_all_or_nothing [OF stormy_push lossless_stormy]
  by (simp add: start_world_def)

theorem pushed_keys_unique_witness:
  "\<exists>!j. j \<in> set (jobs sample_db) \<and> queue j = ''emails'' \<and> idempotency_key j = Some ''k''"
  using pushed_keys_unique [OF db_inv_empty sample_push_loop, of sample_row "''k''"]
  by (simp add: sample_row_def)

lemma env_keeps_calm: "env_keeps I (calm now)"
  by (simp add: env_keeps_def calm_def)

end
