(* ===== verification/Claim.thy ===== *)
theory Claim
  imports Push
begin

text \<open>
  Claiming due tasks: \<open>src/queries/fetch_next.rs\<close>, \<open>src/queries/fetch_next_shared.rs\<close>,
  \<open>src/queries/kill_task.rs\<close> and the row conversion of \<open>src/from_row.rs\<close>.
\<close>

section \<open>Rows to tasks\<close>

text \<open>\<open>TryFrom<SurrealTaskRow> for TaskRow\<close>: only string keys name a task.\<close>

fun try_from_row :: "job \<Rightarrow> surreal_error + task_row" where
  "try_from_row row =
     (case job_id row of
        OtherKey _ \<Rightarrow> Inl MissingTaskId
      | StringKey ident \<Rightarrow>
          Inr \<lparr>tr_job = args row, tr_id = ident, tr_job_type = queue row,
               tr_status = status_text (status row),
               tr_attempts = as_usize (attempts row),
               tr_max_attempts = Some (as_usize (max_attempts row)),
               tr_run_at = Some (run_at row), tr_last_result = last_result row,
               tr_lock_at = lock_at row, tr_lock_by = lock_by row, tr_done_at = done_at row,
               tr_priority = Some (as_usize (priority row)), tr_metadata = metadata row,
               tr_idempotency_key = idempotency_key row\<rparr>)"

declare try_from_row.simps [simp del]

text \<open>\<open>TaskRow::try_into_task_compact\<close> belongs to \<open>apalis_sql\<close>: a parameter, with the text of its error.\<close>

type_synonym row_conv = "task_row \<Rightarrow> string + compact_task"

definition decode_row :: "row_conv \<Rightarrow> job \<Rightarrow> surreal_error + compact_task" where
  "decode_row conv row =
     (case try_from_row row of
        Inl e \<Rightarrow> Inl e
      | Inr tr \<Rightarrow> (case conv tr of Inl e \<Rightarrow> Inl (Row e) | Inr task \<Rightarrow> Inr task))"

section \<open>Parking a task: \<open>kill_task\<close>\<close>

definition kill_task ::
  "env \<Rightarrow> record_key \<Rightarrow> string \<Rightarrow> world \<Rightarrow> (surreal_error + unit) \<times> world" where
  "kill_task env k reason w =
     (case tx_loop env (kill_task_stmt k reason) MAX_TX_RETRIES None w of
        (Inl e, w') \<Rightarrow> (Inl e, w')
      | (Inr _, w') \<Rightarrow> (Inr (), w'))"

section \<open>Claiming a batch\<close>

text \<open>The loop over the claimed rows: a row that does not decode is killed and left out, and a failing kill is only logged.\<close>

fun decode_rows :: "env \<Rightarrow> row_conv \<Rightarrow> job list \<Rightarrow> world \<Rightarrow> compact_task list \<times> world" where
  "decode_rows env conv [] w = ([], w)"
| "decode_rows env conv (row # rows) w =
     (case decode_row conv row of
        Inr task \<Rightarrow>
          (case decode_rows env conv rows w of (tasks, w') \<Rightarrow> (task # tasks, w'))
      | Inl e \<Rightarrow>
          decode_rows env conv rows (snd (kill_task env (job_id row) (surreal_error_text e) w)))"

definition fetch_next ::
  "env \<Rightarrow> row_conv \<Rightarrow> config \<Rightarrow> string \<Rightarrow> world
    \<Rightarrow> (surreal_error + compact_task list) \<times> world" where
  "fetch_next env conv cfg inst w =
     (case tx_loop env (fetch_next_stmt (cfg_queue cfg) inst (as_i64 (int (cfg_buffer_size cfg))))
             MAX_TX_RETRIES None w of
        (Inl e, w') \<Rightarrow> (Inl e, w')
      | (Inr resp, w') \<Rightarrow>
          (case take_rows resp of
             Inl e \<Rightarrow> (Inl e, w')
           | Inr rows \<Rightarrow>
               (case decode_rows env conv rows w' of (tasks, w'') \<Rightarrow> (Inr tasks, w''))))"

definition fetch_next_shared ::
  "env \<Rightarrow> row_conv \<Rightarrow> string list \<Rightarrow> int \<Rightarrow> world
    \<Rightarrow> (surreal_error + compact_task list) \<times> world" where
  "fetch_next_shared env conv queues limit w =
     (case tx_loop env (fetch_next_shared_stmt queues limit) MAX_TX_RETRIES None w of
        (Inl e, w') \<Rightarrow> (Inl e, w')
      | (Inr resp, w') \<Rightarrow>
          (case take_rows resp of
             Inl e \<Rightarrow> (Inl e, w')
           | Inr rows \<Rightarrow>
               (case decode_rows env conv rows w' of (tasks, w'') \<Rightarrow> (Inr tasks, w''))))"

section \<open>The batch the claim statement selects\<close>

definition claimable :: "(string \<Rightarrow> bool) \<Rightarrow> time \<Rightarrow> db \<Rightarrow> job set" where
  "claimable S now d = {j \<in> set (jobs d). S (queue j) \<and> due now j}"

lemma claim_order_inj:
  "distinct (map job_id (jobs d)) \<Longrightarrow> x \<in> set (jobs d) \<Longrightarrow> y \<in> set (jobs d) \<Longrightarrow>
    claim_order x = claim_order y \<Longrightarrow> x = y"
  by (auto simp: claim_order_def intro: distinct_key_eq)

lemma set_due_batch: "set (due_batch S limit now d) \<subseteq> claimable S now d"
  by (auto simp: claimable_def dest!: due_batch_mem)

lemma card_claimable:
  assumes "distinct (map job_id (jobs d))"
  shows "card (claimable S now d) = length (filter (\<lambda>j. S (queue j) \<and> due now j) (jobs d))"
proof -
  have "distinct (filter (\<lambda>j. S (queue j) \<and> due now j) (jobs d))"
    using assms by (simp add: distinct_map)
  from distinct_card [OF this] show ?thesis by (simp add: claimable_def)
qed

lemma due_batch_sorted:
  assumes "distinct (map job_id (jobs d))"
  shows "sorted_wrt (<) (map claim_order (due_batch S limit now d))"
proof -
  let ?b = "due_batch S limit now d"
  have "distinct (map claim_order ?b)"
    using distinct_due_batch [OF assms, of S limit now] claim_order_inj [OF assms] due_batch_mem
    by (auto simp: distinct_map intro!: inj_onI)
  moreover have "sorted (map claim_order ?b)"
    by (simp add: due_batch_def take_map [symmetric] sorted_wrt_take)
  ultimately show ?thesis by (simp add: strict_sorted_iff)
qed

text \<open>The order of claims in words: higher priority first, then earlier, then by id.\<close>

definition claimed_before :: "job \<Rightarrow> job \<Rightarrow> bool" where
  "claimed_before x y \<longleftrightarrow>
     priority x > priority y \<or>
     (priority x = priority y \<and>
       (run_at x < run_at y \<or> (run_at x = run_at y \<and> job_id x < job_id y)))"

lemma claim_order_less: "claim_order x < claim_order y \<longleftrightarrow> claimed_before x y"
  by (auto simp: claim_order_def claimed_before_def less_prod_def)

text \<open>C8. A claim takes, in the order priority descending, then run time, then id, the first jobs of the queue that are due: as many as the limit allows, none of them undue or of another queue, and no due job left behind comes before one that was taken.\<close>

theorem claimed_batch_order:
  assumes "db_inv d" and "fetch_next_stmt q w limit now d = Inr (rows, d')"
  shows "\<exists>b. rows = map (set_claimed w now) b \<and>
    sorted_wrt claimed_before b \<and>
    set b \<subseteq> claimable (\<lambda>x. x = q) now d \<and>
    length b = min (nat limit) (card (claimable (\<lambda>x. x = q) now d)) \<and>
    (\<forall>x \<in> set b. \<forall>j \<in> claimable (\<lambda>x. x = q) now d - set b. claimed_before x j)"
proof -
  let ?S = "\<lambda>x. x = q"
  let ?b = "due_batch ?S limit now d"
  have ids: "distinct (map job_id (jobs d))" using assms(1) by (simp add: db_inv_def)
  have "rows = map (set_claimed w now) ?b"
    using claim_update [OF ids] assms(2) by (auto simp: fetch_next_stmt_def)
  moreover have "length ?b = min (nat limit) (card (claimable ?S now d))"
    by (simp add: due_batch_def card_claimable [OF ids])
  moreover have "claim_order x < claim_order j"
    if "x \<in> set ?b" "j \<in> claimable ?S now d - set ?b" for x j
  proof -
    have "claim_order x \<le> claim_order j"
      using that take_sort_key_precedes [of x "nat limit" claim_order
          "filter (\<lambda>j. ?S (queue j) \<and> due now j) (jobs d)" j]
      by (simp add: due_batch_def claimable_def)
    moreover have "claim_order x \<noteq> claim_order j"
      using that claim_order_inj [OF ids, of x j] due_batch_mem by (auto simp: claimable_def)
    ultimately show ?thesis by simp
  qed
  moreover have "sorted_wrt claimed_before ?b"
    using due_batch_sorted [OF ids, of ?S limit now] by (simp add: sorted_wrt_map claim_order_less)
  ultimately show ?thesis using set_due_batch claim_order_less by blast
qed

lemma fetch_next_lookup:
  assumes "db_inv d" and "fetch_next_stmt q w limit now d = Inr (rows, d')"
  shows "lookup_job d' k =
    map_option (\<lambda>j. if j \<in> set (due_batch (\<lambda>x. x = q) limit now d) then set_claimed w now j else j)
      (lookup_job d k)"
proof -
  have ids: "distinct (map job_id (jobs d))" using assms(1) by (simp add: db_inv_def)
  from claim_update [OF this] assms(2) show ?thesis
    by (auto simp: fetch_next_stmt_def claimed.lookup_update)
qed

lemma fetch_next_shared_lookup:
  assumes "db_inv d" and "fetch_next_shared_stmt qs limit now d = Inr (rows, d')"
  shows "lookup_job d' k =
    map_option (\<lambda>j. if j \<in> set (due_batch (\<lambda>x. x \<in> set qs) limit now d)
      then set_claimed_shared now j else j) (lookup_job d k)"
proof -
  have ids: "distinct (map job_id (jobs d))" using assms(1) by (simp add: db_inv_def)
  from claim_update [OF this] assms(2) show ?thesis
    by (auto simp: fetch_next_shared_stmt_def claimed_shared.lookup_update)
qed

text \<open>A claim writes only the rows it takes: each becomes queued, locked by the claiming instance since now, with everything else as it was, and every other job is untouched.\<close>

lemma claim_effect:
  assumes "db_inv d" and "fetch_next_stmt q w limit now d = Inr (rows, d')" and "j \<in> set (jobs d)"
  shows "lookup_job d' (job_id j) =
    Some (if job_id j \<in> job_id ` set rows
          then j\<lparr>status := Queued, lock_by := Some w, lock_at := Some now\<rparr> else j)"
proof -
  let ?b = "due_batch (\<lambda>x. x = q) limit now d"
  have ids: "distinct (map job_id (jobs d))" using assms(1) by (simp add: db_inv_def)
  have rows: "rows = map (set_claimed w now) ?b"
    using claim_update [OF ids] assms(2) by (auto simp: fetch_next_stmt_def)
  have "job_id j \<in> job_id ` set rows \<longleftrightarrow> j \<in> set ?b"
    using distinct_key_eq [OF ids assms(3)] due_batch_mem
    by (force simp: rows claimed.eff_id image_image)
  then show ?thesis
    using fetch_next_lookup [OF assms(1,2)] lookup_job_mem [OF ids assms(3)]
    by (simp add: set_claimed_def)
qed

lemma fetch_next_ids:
  assumes "db_inv d" and "fetch_next_stmt q w limit now d = Inr (rows, d')" and "x \<in> set rows"
  shows "\<exists>j \<in> set (jobs d). job_id j = job_id x \<and> due now j \<and> queue j = q \<and>
    lookup_job d' (job_id x) = Some x \<and> status x = Queued \<and> lock_by x = Some w"
proof -
  let ?b = "due_batch (\<lambda>x. x = q) limit now d"
  have ids: "distinct (map job_id (jobs d))" using assms(1) by (simp add: db_inv_def)
  have "rows = map (set_claimed w now) ?b"
    using claim_update [OF ids] assms(2) by (auto simp: fetch_next_stmt_def)
  with assms(3) obtain j where j: "j \<in> set ?b" "x = set_claimed w now j" by auto
  with due_batch_mem [OF j(1)] fetch_next_lookup [OF assms(1,2)] lookup_job_mem [OF ids, of j]
  show ?thesis by (auto simp: claimed.eff_id set_claimed_def)
qed

text \<open>Two claims in succession, by any workers at any times, never return the same job.\<close>

lemma claims_disjoint:
  assumes "db_inv d" and "fetch_next_stmt q1 w1 l1 t1 d = Inr (rows1, d1)"
    and "fetch_next_stmt q2 w2 l2 t2 d1 = Inr (rows2, d2)"
  shows "job_id ` set rows1 \<inter> job_id ` set rows2 = {}"
proof -
  have inv1: "db_inv d1" using fetch_next_db_inv [OF assms(1,2)] .
  have False if x: "x \<in> set rows1" and y: "y \<in> set rows2" and eq: "job_id x = job_id y" for x y
  proof -
    from fetch_next_ids [OF assms(1,2) x]
    have x1: "lookup_job d1 (job_id x) = Some x" "status x = Queued" by auto
    from fetch_next_ids [OF inv1 assms(3) y] obtain j
      where j: "j \<in> set (jobs d1)" "job_id j = job_id y" "due t2 j" by auto
    from inv1 j(1) have "lookup_job d1 (job_id j) = Some j"
      by (simp add: lookup_job_mem db_inv_def)
    with x1 j eq show False by (simp add: due_def retryable_def)
  qed
  then show ?thesis by auto
qed

section \<open>What the crate returns\<close>

definition decoded :: "row_conv \<Rightarrow> job list \<Rightarrow> compact_task list" where
  "decoded conv rows =
     List.map_filter (\<lambda>row. case decode_row conv row of Inl _ \<Rightarrow> None | Inr t \<Rightarrow> Some t) rows"

lemma fst_decode_rows: "fst (decode_rows env conv rows w) = decoded conv rows"
  by (induction env conv rows w rule: decode_rows.induct)
     (auto simp: decoded_def List.map_filter_simps split: sum.splits prod.splits)

lemma fetch_next_length_rows:
  "fetch_next_stmt q inst n now d = Inr (rows, d') \<Longrightarrow> length rows \<le> nat n"
  by (auto simp: fetch_next_stmt_def update_records_def due_ids_def due_batch_def
      intro!: order_trans [OF length_map_filter_le])

lemma length_decoded: "length (decoded conv rows) \<le> length rows"
  by (induction rows) (auto simp: decoded_def List.map_filter_simps split: sum.splits)

text \<open>The whole of a successful fetch: conflicts, one claim that executes, then the rows are decoded.\<close>

lemma fetch_next_runs:
  assumes "fetch_next env conv cfg inst w = (Inr tasks, w')"
  shows "\<exists>k < MAX_TX_RETRIES. \<exists>rows d'.
    (\<forall>i < k. conflict_at env (trips w + i) \<noteq> None) \<and> verdict (env (trips w + k)) = Executes \<and>
    fetch_next_stmt (cfg_queue cfg) inst (as_i64 (int (cfg_buffer_size cfg)))
      (clock (env (trips w + k))) (arrives env w k) = Inr (rows, d') \<and>
    decode_rows env conv rows (w\<lparr>store := d', trips := Suc (trips w + k)\<rparr>) = (tasks, w')"
proof -
  let ?s = "fetch_next_stmt (cfg_queue cfg) inst (as_i64 (int (cfg_buffer_size cfg)))"
  from assms obtain resp w1 where tx: "tx_loop env ?s MAX_TX_RETRIES None w = (Inr resp, w1)"
    by (auto simp: fetch_next_def split: prod.splits sum.splits)
  from tx_loop_commits [OF this] obtain k rows where k: "k < MAX_TX_RETRIES" "resp = Rows rows"
    "trips w1 = Suc (trips w + k)" "?s (clock (env (trips w + k))) (arrives env w k) = Inr (rows, store w1)"
    "verdict (env (trips w + k)) = Executes" "\<forall>i < k. conflicted env ?s w i" by blast
  have "\<forall>i < k. conflict_at env (trips w + i) \<noteq> None"
    using k(6) conflicted_rejected [where stmt = ?s, OF fetch_next_stmt_def] by blast
  moreover have "w1 = w\<lparr>store := store w1, trips := Suc (trips w + k)\<rparr>" using k(3) by simp
  then have "decode_rows env conv rows (w\<lparr>store := store w1, trips := Suc (trips w + k)\<rparr>) = (tasks, w')"
    using assms tx k(2) by (auto simp: fetch_next_def split: prod.splits)
  ultimately show ?thesis using k by blast
qed

lemma fetch_next_claims:
  assumes "fetch_next env conv cfg inst w = (Inr tasks, w')"
  shows "\<exists>k < MAX_TX_RETRIES. \<exists>rows d'.
    fetch_next_stmt (cfg_queue cfg) inst (as_i64 (int (cfg_buffer_size cfg)))
      (clock (env (trips w + k))) (arrives env w k) = Inr (rows, d') \<and>
    tasks = decoded conv rows"
  using fetch_next_runs [OF assms] fst_decode_rows by (metis fst_conv)

lemma fetch_next_shared_claims:
  assumes "fetch_next_shared env conv qs limit w = (Inr tasks, w')"
  shows "\<exists>k < MAX_TX_RETRIES. \<exists>rows d'.
    fetch_next_shared_stmt qs limit (clock (env (trips w + k))) (arrives env w k) = Inr (rows, d') \<and>
    tasks = decoded conv rows"
proof -
  from assms obtain resp w1 where
    tx: "tx_loop env (fetch_next_shared_stmt qs limit) MAX_TX_RETRIES None w = (Inr resp, w1)"
    by (auto simp: fetch_next_shared_def split: prod.splits sum.splits)
  from tx_loop_commit [OF this] obtain k rows where k: "k < MAX_TX_RETRIES" "resp = Rows rows"
    "fetch_next_shared_stmt qs limit (clock (env (trips w + k))) (arrives env w k) =
      Inr (rows, store w1)" by blast
  moreover have "tasks = decoded conv rows"
    using assms tx k(2) fst_decode_rows [of env conv rows w1]
    by (auto simp: fetch_next_shared_def split: prod.splits)
  ultimately show ?thesis by blast
qed

lemma fetch_next_shared_rows:
  assumes "db_inv d" and "fetch_next_shared_stmt qs limit now d = Inr (rows, d')"
  shows "rows = map (set_claimed_shared now) (due_batch (\<lambda>x. x \<in> set qs) limit now d)"
proof -
  have "distinct (map job_id (jobs d))" using assms(1) by (simp add: db_inv_def)
  from claim_update [OF this] assms(2) show ?thesis by (auto simp: fetch_next_shared_stmt_def)
qed

lemma decoded_mem: "t \<in> set (decoded conv rows) \<longleftrightarrow> (\<exists>row \<in> set rows. decode_row conv row = Inr t)"
  by (induction rows) (auto simp: decoded_def List.map_filter_simps split: sum.splits)

lemma decode_row_Inr:
  "decode_row conv row = Inr t \<Longrightarrow> \<exists>tr. try_from_row row = Inr tr \<and> conv tr = Inr t \<and> tr_job_type tr = queue row"
  by (auto simp: decode_row_def try_from_row.simps split: sum.splits record_key.splits)

lemma fetch_next_length:
  assumes "fetch_next env conv cfg inst w = (Inr tasks, w')"
  shows "length tasks \<le> cfg_buffer_size cfg"
proof -
  from fetch_next_claims [OF assms] obtain rows where
    "length rows \<le> nat (as_i64 (int (cfg_buffer_size cfg)))" "tasks = decoded conv rows"
    using fetch_next_length_rows by blast
  then show ?thesis
    using length_decoded [of conv rows] nat_as_i64_le [of "cfg_buffer_size cfg"] by simp
qed

text \<open>C20. A fetch that succeeds made some requests that the engine rejected with conflicts, fewer than MAX_TX_RETRIES, then one claim that executed on what the other clients had left by then, and after it nothing but the kills of the rows that do not decode; it returns, in the order of the claimed rows, exactly the tasks of those that decode, at most as many as the buffer size.\<close>

theorem fetch_next_returns_claimed:
  assumes "fetch_next env conv cfg inst w = (Inr tasks, w')"
  shows "\<exists>k < MAX_TX_RETRIES. \<exists>rows d'.
    (\<forall>i < k. conflict_at env (trips w + i) \<noteq> None) \<and> verdict (env (trips w + k)) = Executes \<and>
    fetch_next_stmt (cfg_queue cfg) inst (as_i64 (int (cfg_buffer_size cfg)))
      (clock (env (trips w + k))) (arrives env w k) = Inr (rows, d') \<and>
    decode_rows env conv rows (w\<lparr>store := d', trips := Suc (trips w + k)\<rparr>) = (tasks, w') \<and>
    tasks = decoded conv rows \<and> length tasks \<le> cfg_buffer_size cfg"
proof -
  have "tasks = decoded conv rows" if "decode_rows env conv rows w1 = (tasks, w')" for rows w1
    using fst_decode_rows [of env conv rows w1] that by simp
  with fetch_next_runs [OF assms] fetch_next_length [OF assms] show ?thesis by blast
qed

text \<open>A fetch that reports an error has claimed nothing and killed nothing: with replies that are not lost, the tables hold what the other clients made of them.\<close>

lemma fetch_next_error_no_effect:
  assumes "fetch_next env conv cfg inst w = (Inl e, w')" and "lossless env"
  shows "\<exists>k < MAX_TX_RETRIES. trips w' = Suc (trips w + k) \<and> store w' = arrives env w k"
proof -
  let ?s = "fetch_next_stmt (cfg_queue cfg) inst (as_i64 (int (cfg_buffer_size cfg)))"
  have "tx_loop env ?s MAX_TX_RETRIES None w = (Inl e, w')"
    using assms(1) tx_loop_commit [of env ?s MAX_TX_RETRIES None w]
    by (auto simp: fetch_next_def split: prod.splits sum.splits)
  then have "tx_loop env ?s (Suc 4) None w = (Inl e, w')"
    by (simp add: MAX_TX_RETRIES_def eval_nat_numeral)
  from tx_loop_no_effect [OF this assms(2)] show ?thesis by (force simp: MAX_TX_RETRIES_def)
qed

lemma fetch_next_conflicts:
  assumes "\<forall>i < MAX_TX_RETRIES. conflict_at env (trips w + i) = Some (e i)"
  shows "fetch_next env conv cfg inst w =
    (Inl (Database (e (MAX_TX_RETRIES - 1))),
     w\<lparr>store := arrives env w (MAX_TX_RETRIES - 1), trips := trips w + MAX_TX_RETRIES\<rparr>)"
  using tx_loop_conflicts [OF assms, of "fetch_next_stmt (cfg_queue cfg) inst
      (as_i64 (int (cfg_buffer_size cfg)))" 0 None]
  by (simp add: fetch_next_def MAX_TX_RETRIES_def)

text \<open>When every attempt meets a conflict, fetch_next gives up after exactly MAX_TX_RETRIES round trips and reports the last conflict instead of an empty batch.\<close>

lemma fetch_next_conflicts_surface:
  assumes "\<forall>i < MAX_TX_RETRIES. conflict_at env (trips w + i) = Some (e i)"
  shows "fetch_next env conv cfg inst w =
    (Inl (Database (e (MAX_TX_RETRIES - 1))),
     w\<lparr>store := arrives env w (MAX_TX_RETRIES - 1), trips := trips w + MAX_TX_RETRIES\<rparr>)"
  using assms by (rule fetch_next_conflicts)

lemma kill_task_db_inv_world:
  assumes "env_keeps db_inv env" and "db_inv (store w)"
  shows "db_inv (store (snd (kill_task env k reason w)))"
  using kill_task_keeps.tx_loop_keeps [OF assms]
  by (auto simp: kill_task_def split: prod.splits sum.splits)

lemma decode_rows_db_inv:
  assumes "env_keeps db_inv env" and "db_inv (store w)"
  shows "db_inv (store (snd (decode_rows env conv rows w)))"
  using assms(2)
proof (induction rows arbitrary: w)
  case (Cons row rows)
  show ?case
  proof (cases "decode_row conv row")
    case (Inl e)
    have "db_inv (store (snd (kill_task env (job_id row) (surreal_error_text e) w)))"
      using assms(1) Cons.prems by (rule kill_task_db_inv_world)
    with Cons.IH Inl show ?thesis by simp
  next
    case (Inr task)
    with Cons.IH [OF Cons.prems] show ?thesis by (auto split: prod.splits)
  qed
qed simp

text \<open>Fetching keeps the database invariant, kills of undecodable rows included, whatever the engine answers.\<close>

lemma fetch_next_invariant:
  assumes "env_keeps db_inv env" and "db_inv (store w)"
  shows "db_inv (store (snd (fetch_next env conv cfg inst w)))"
proof -
  obtain r w1 where tx: "tx_loop env (fetch_next_stmt (cfg_queue cfg) inst
      (as_i64 (int (cfg_buffer_size cfg)))) MAX_TX_RETRIES None w = (r, w1)" by fastforce
  have inv1: "db_inv (store w1)" using fetch_next_keeps.tx_loop_keeps [OF assms tx] .
  with decode_rows_db_inv [OF assms(1) inv1] show ?thesis
    by (simp add: fetch_next_def tx split: sum.splits prod.splits) (metis snd_conv)
qed

section \<open>Poison rows\<close>

lemma kill_task_calm:
  "kill_task (calm now) k reason w =
    (Inr (), w\<lparr>store := snd (update_record k (\<lambda>_. True) (set_killed reason now) (store w)),
      trips := Suc (trips w)\<rparr>)"
  using tx_loop_calm [of "kill_task_stmt k reason" now w "()"
      "snd (update_record k (\<lambda>_. True) (set_killed reason now) (store w))" 4 None]
  by (simp add: kill_task_def kill_task_stmt_def MAX_TX_RETRIES_def eval_nat_numeral
      del: tx_loop.simps)

definition after_decode :: "row_conv \<Rightarrow> time \<Rightarrow> job \<Rightarrow> job" where
  "after_decode conv now row =
     (case decode_row conv row of
        Inl e \<Rightarrow> set_killed (surreal_error_text e) now row
      | Inr _ \<Rightarrow> row)"

lemma decode_rows_lookup:
  assumes "distinct (map job_id rows)"
    and "\<And>r. r \<in> set rows \<Longrightarrow> lookup_job (store w) (job_id r) = Some r"
  shows "lookup_job (store (snd (decode_rows (calm now) conv rows w))) k =
    (case find (\<lambda>r. job_id r = k) rows of
       None \<Rightarrow> lookup_job (store w) k
     | Some r \<Rightarrow> Some (after_decode conv now r))"
  using assms
proof (induction rows arbitrary: w)
  case (Cons row rows)
  have none: "find (\<lambda>r. job_id r = job_id row) rows = None"
    using Cons.prems(1) by (auto simp: find_None_iff) (metis image_eqI)
  show ?case
  proof (cases "decode_row conv row")
    case (Inr task)
    obtain ts w1 where dr: "decode_rows (calm now) conv rows w = (ts, w1)" by fastforce
    have "lookup_job (store w1) k = (case find (\<lambda>r. job_id r = k) rows of
        None \<Rightarrow> lookup_job (store w) k | Some r \<Rightarrow> Some (after_decode conv now r))"
      using Cons.IH [of w] Cons.prems dr by simp
    with Inr dr none Cons.prems(2) [of row] show ?thesis by (auto simp: after_decode_def)
  next
    case (Inl e)
    let ?w = "snd (kill_task (calm now) (job_id row) (surreal_error_text e) w)"
    have look: "lookup_job (store ?w) k =
        (if k = job_id row
         then Some (set_killed (surreal_error_text e) now row) else lookup_job (store w) k)" for k
      using Cons.prems(2) [of row] by (simp add: kill_task_calm killed.lookup_update_record)
    have "lookup_job (store ?w) (job_id r) = Some r" if "r \<in> set rows" for r
    proof -
      have "job_id r \<in> job_id ` set rows" using that by (rule imageI)
      then have "job_id r \<noteq> job_id row" using Cons.prems(1) by auto
      with look [of "job_id r"] Cons.prems(2) [of r] that show ?thesis by simp
    qed
    with Cons.IH [of ?w] Cons.prems(1)
    have "lookup_job (store (snd (decode_rows (calm now) conv rows ?w))) k =
        (case find (\<lambda>r. job_id r = k) rows of
           None \<Rightarrow> lookup_job (store ?w) k | Some r \<Rightarrow> Some (after_decode conv now r))" by simp
    then show ?thesis
      using Inl look [of k] none by (cases "k = job_id row") (simp_all add: after_decode_def split: option.splits)
  qed
qed simp

lemma fetch_next_calm_lookup:
  assumes "db_inv (store w)" and "fetch_next (calm now) conv cfg inst w = (Inr tasks, w')"
  shows "lookup_job (store w') k =
    map_option (\<lambda>j. if j \<in> set (due_batch (\<lambda>x. x = cfg_queue cfg)
        (as_i64 (int (cfg_buffer_size cfg))) now (store w))
      then after_decode conv now (set_claimed inst now j) else j) (lookup_job (store w) k)"
proof -
  let ?n = "as_i64 (int (cfg_buffer_size cfg))" and ?q = "cfg_queue cfg"
  let ?b = "due_batch (\<lambda>x. x = ?q) ?n now (store w)"
  let ?rows = "map (set_claimed inst now) ?b"
  have ids: "distinct (map job_id (jobs (store w)))" using assms(1) by (simp add: db_inv_def)
  obtain d1 where st: "fetch_next_stmt ?q inst ?n now (store w) = Inr (?rows, d1)"
    using claim_update [OF ids] by (auto simp: fetch_next_stmt_def)
  let ?w1 = "w\<lparr>store := d1, trips := Suc (trips w)\<rparr>"
  have w': "w' = snd (decode_rows (calm now) conv ?rows ?w1)"
    using assms(2) tx_loop_calm [of "fetch_next_stmt ?q inst ?n", OF st, of 4 None]
    by (auto simp: fetch_next_def MAX_TX_RETRIES_def eval_nat_numeral
        simp del: tx_loop.simps split: prod.splits)
  have look: "lookup_job d1 k = map_option (\<lambda>j. if j \<in> set ?b then set_claimed inst now j else j)
      (lookup_job (store w) k)" for k
    using fetch_next_lookup [OF assms(1) st] .
  have "distinct (map job_id ?rows)"
    using distinct_due_batch [OF ids] by (simp add: o_def claimed.eff_id)
  moreover have "lookup_job (store ?w1) (job_id r) = Some r" if "r \<in> set ?rows" for r
  proof -
    from that obtain j where "j \<in> set ?b" "r = set_claimed inst now j" by auto
    with look [of "job_id j"] lookup_job_mem [OF ids, of j] due_batch_mem [of j]
    show ?thesis by (simp add: claimed.eff_id)
  qed
  ultimately have res: "lookup_job (store w') k =
      (case find (\<lambda>r. job_id r = k) ?rows of
         None \<Rightarrow> lookup_job d1 k | Some r \<Rightarrow> Some (after_decode conv now r))"
    using decode_rows_lookup [of ?rows ?w1 now conv k] w' by (simp split: option.splits)
  show ?thesis
  proof (cases "find (\<lambda>r. job_id r = k) ?rows")
    case None
    then have "j \<notin> set ?b" if "lookup_job (store w) k = Some j" for j
      using lookup_job_Some [OF that] by (auto simp: find_None_iff claimed.eff_id)
    with res None look show ?thesis by (cases "lookup_job (store w) k") simp_all
  next
    case (Some r)
    then have "r \<in> set ?rows" "job_id r = k" unfolding find_Some_iff by auto
    then obtain j where j: "j \<in> set ?b" "r = set_claimed inst now j" "job_id r = k" by auto
    then have "lookup_job (store w) k = Some j"
      using due_batch_mem [OF j(1)] lookup_job_mem [OF ids, of j] by (simp add: claimed.eff_id)
    with res Some j show ?thesis by simp
  qed
qed

text \<open>C21. What becomes of the claimed batch on an undisturbed engine (no other client, no failed request): the fetch hands out, in claim order, exactly the tasks of the jobs of the batch that decode, and these stay queued for the claiming instance; a job of the batch that does not decode is not handed out and ends killed, with the decoding error as its result and no lock; the jobs outside the batch are untouched.\<close>

theorem fetch_next_poison_killed:
  assumes "db_inv (store w)" and "fetch_next (calm now) conv cfg inst w = (Inr tasks, w')"
    and "b = due_batch (\<lambda>x. x = cfg_queue cfg) (as_i64 (int (cfg_buffer_size cfg))) now (store w)"
  shows "tasks = decoded conv (map (set_claimed inst now) b) \<and>
    (\<forall>k. lookup_job (store w') k = map_option (\<lambda>j.
       if j \<in> set b
       then (case decode_row conv (set_claimed inst now j) of
               Inr _ \<Rightarrow> set_claimed inst now j
             | Inl e \<Rightarrow> set_killed (surreal_error_text e) now (set_claimed inst now j))
       else j) (lookup_job (store w) k))"
proof -
  have ids: "distinct (map job_id (jobs (store w)))" using assms(1) by (simp add: db_inv_def)
  obtain d1 where st: "fetch_next_stmt (cfg_queue cfg) inst (as_i64 (int (cfg_buffer_size cfg))) now (store w) =
      Inr (map (set_claimed inst now) b, d1)"
    using claim_update [OF ids] by (auto simp: fetch_next_stmt_def assms(3))
  have "clock (calm now i) = now" for i by (simp add: calm_def)
  with fetch_next_claims [OF assms(2)] st have "tasks = decoded conv (map (set_claimed inst now) b)"
    by (auto simp: arrives_calm)
  moreover have "after_decode conv now r =
      (case decode_row conv r of Inr _ \<Rightarrow> r | Inl e \<Rightarrow> set_killed (surreal_error_text e) now r)" for r
    by (simp add: after_decode_def split: sum.split)
  ultimately show ?thesis
    by (simp only: fetch_next_calm_lookup [OF assms(1,2), folded assms(3)]) blast
qed

section \<open>Round trip of a task through its row\<close>

text \<open>C25. A task that is pushed and read back keeps its payload, id, queue, retry budget, priority, metadata and key: the casts between the context's integers, the 64-bit columns and \<open>usize\<close> lose nothing when the budget and the priority are not negative.\<close>

theorem push_read_roundtrip:
  assumes "0 \<le> ctx_max_attempts (part_ctx (snd task))" and "ctx_max_attempts (part_ctx (snd task)) < 2 ^ 63"
    and "0 \<le> ctx_priority (part_ctx (snd task))" and "ctx_priority (part_ctx (snd task)) < 2 ^ 63"
    and "part_task_id (snd task) = Some ident"
  shows "\<exists>tr. try_from_row (new_job (to_push_row cl q i task)) = Inr tr \<and>
    tr_job tr = fst task \<and> tr_id tr = ident \<and> tr_job_type tr = q \<and>
    tr_status tr = ''Pending'' \<and> tr_attempts tr = 0 \<and>
    tr_max_attempts tr = Some (nat (ctx_max_attempts (part_ctx (snd task)))) \<and>
    tr_priority tr = Some (nat (ctx_priority (part_ctx (snd task)))) \<and>
    tr_metadata tr = Some (JObject (ctx_meta (part_ctx (snd task)))) \<and>
    tr_idempotency_key tr = part_idempotency_key (snd task) \<and>
    tr_lock_by tr = None \<and> tr_lock_at tr = None \<and> tr_done_at tr = None"
  using assms
  by (simp add: try_from_row.simps to_push_row_def new_job_def Let_def as_usize_id)

section \<open>Witnesses\<close>

definition sample_conv :: row_conv where
  "sample_conv tr =
     (if tr_job tr = [] then Inl ''empty payload''
      else Inr (tr_job tr,
        \<lparr>part_task_id = Some (tr_id tr), part_run_at = 0,
         part_idempotency_key = tr_idempotency_key tr, part_attempt = tr_attempts tr,
         part_status = Queued,
         part_ctx = \<lparr>ctx_max_attempts = 25, ctx_priority = 0, ctx_meta = [],
                     ctx_queue = Some (tr_job_type tr), ctx_lock_by = tr_lock_by tr\<rparr>\<rparr>))"

definition poison_row :: push_row where
  "poison_row = sample_row\<lparr>pr_id := StringKey ''01C'', pr_args := [], pr_idempotency_key := None\<rparr>"

definition two_jobs :: db where
  "two_jobs = \<lparr>jobs = [new_job sample_row, new_job poison_row], workers = [], meta_version = None\<rparr>"

definition late :: time where
  "late = 10000000000"

lemma db_inv_two_jobs: "db_inv two_jobs"
  by (simp add: db_inv_def two_jobs_def row_ok_def idem_unique_def idem_key_def new_job_def
      sample_row_def poison_row_def)

definition claimed_rows :: "string \<Rightarrow> job list" where
  "claimed_rows w = map (set_claimed w late) [new_job sample_row, new_job poison_row]"

lemma sample_claim:
  "fetch_next_stmt ''emails'' ''w1'' 10 late two_jobs =
     Inr (claimed_rows ''w1'', two_jobs\<lparr>jobs := claimed_rows ''w1''\<rparr>)"
  by code_simp

text \<open>Two workers take one job each.\<close>

lemma sample_claim_one:
  "fetch_next_stmt ''emails'' ''w1'' 1 late two_jobs =
     Inr ([set_claimed ''w1'' late (new_job sample_row)],
       two_jobs\<lparr>jobs := [set_claimed ''w1'' late (new_job sample_row), new_job poison_row]\<rparr>)"
  by code_simp

lemma sample_claim_two:
  "fetch_next_stmt ''emails'' ''w2'' 1 late
     (two_jobs\<lparr>jobs := [set_claimed ''w1'' late (new_job sample_row), new_job poison_row]\<rparr>) =
   Inr ([set_claimed ''w2'' late (new_job poison_row)],
     two_jobs\<lparr>jobs := [set_claimed ''w1'' late (new_job sample_row),
       set_claimed ''w2'' late (new_job poison_row)]\<rparr>)"
  by code_simp

theorem push_read_roundtrip_witness:
  "\<exists>tr. try_from_row (new_job (to_push_row sample_client ''emails'' 0
      ([42], (snd (sample_task (Some ''k'')))\<lparr>part_task_id := Some ''01A''\<rparr>))) = Inr tr \<and>
    tr_job tr = [42] \<and> tr_id tr = ''01A'' \<and> tr_max_attempts tr = Some 25 \<and> tr_idempotency_key tr = Some ''k''"
  using push_read_roundtrip [where task = "([42], (snd (sample_task (Some ''k'')))\<lparr>part_task_id := Some ''01A''\<rparr>)"
      and ident = "''01A''" and cl = sample_client and q = "''emails''" and i = 0]
  by (auto simp: sample_task_def)

theorem claimed_batch_order_witness:
  "\<exists>b. claimed_rows ''w1'' = map (set_claimed ''w1'' late) b \<and>
    sorted_wrt claimed_before b \<and> length b = 2"
proof -
  have "card (claimable (\<lambda>x. x = ''emails'') late two_jobs) = 2"
    by (subst card_claimable) (use db_inv_two_jobs in \<open>simp add: db_inv_def\<close>, code_simp)
  with claimed_batch_order [OF db_inv_two_jobs sample_claim] show ?thesis by auto
qed

definition two_jobs_world :: world where
  "two_jobs_world = \<lparr>store = two_jobs, trips = 0\<rparr>"

lemma fetch_next_calm:
  assumes "fetch_next_stmt (cfg_queue cfg) inst (as_i64 (int (cfg_buffer_size cfg))) now (store w) =
    Inr (rows, d')"
  shows "fetch_next (calm now) conv cfg inst w =
    (case decode_rows (calm now) conv rows (w\<lparr>store := d', trips := Suc (trips w)\<rparr>) of
       (tasks, w'') \<Rightarrow> (Inr tasks, w''))"
  using tx_loop_calm [of "fetch_next_stmt (cfg_queue cfg) inst (as_i64 (int (cfg_buffer_size cfg)))",
      OF assms, of 4 None]
  by (simp add: fetch_next_def MAX_TX_RETRIES_def eval_nat_numeral del: tx_loop.simps)

lemma sample_fetch:
  "\<exists>tasks w'. fetch_next (calm late) sample_conv sample_config ''w1'' two_jobs_world = (Inr tasks, w')"
proof -
  have n: "as_i64 (int (cfg_buffer_size sample_config)) = 10"
    by (simp add: sample_config_def as_i64_id)
  have "fetch_next_stmt (cfg_queue sample_config) ''w1''
      (as_i64 (int (cfg_buffer_size sample_config))) late (store two_jobs_world) =
    Inr (claimed_rows ''w1'', two_jobs\<lparr>jobs := claimed_rows ''w1''\<rparr>)"
    unfolding n using sample_claim by (simp add: sample_config_def two_jobs_world_def)
  from fetch_next_calm [OF this] show ?thesis by (auto split: prod.splits)
qed

theorem fetch_next_returns_claimed_witness:
  "\<exists>tasks k rows d'. fst (fetch_next (calm late) sample_conv sample_config ''w1'' two_jobs_world) = Inr tasks \<and>
    k < MAX_TX_RETRIES \<and>
    fetch_next_stmt ''emails'' ''w1'' 10 late (arrives (calm late) two_jobs_world k) = Inr (rows, d') \<and>
    tasks = decoded sample_conv rows \<and> length tasks \<le> 10"
proof -
  obtain tasks w' where f:
    "fetch_next (calm late) sample_conv sample_config ''w1'' two_jobs_world = (Inr tasks, w')"
    using sample_fetch by blast
  have "as_i64 10 = 10" by (simp add: as_i64_id)
  moreover have "clock (calm late i) = late" for i by (simp add: calm_def)
  ultimately show ?thesis
    using fetch_next_returns_claimed [OF f] f by (auto simp: sample_config_def)
qed

theorem fetch_next_poison_killed_witness:
  "\<exists>tasks (w' :: world) j. fetch_next (calm late) sample_conv sample_config ''w1'' two_jobs_world = (Inr tasks, w') \<and>
     tasks = decoded sample_conv (claimed_rows ''w1'') \<and>
     lookup_job (store w') (StringKey ''01C'') = Some j \<and> status j = Killed \<and>
     lock_by j = None \<and> last_result j = Some (err_object ''empty payload'')"
proof -
  let ?p = "new_job poison_row" and ?b = "[new_job sample_row, new_job poison_row]"
  obtain tasks w' where f:
    "fetch_next (calm late) sample_conv sample_config ''w1'' two_jobs_world = (Inr tasks, w')"
    using sample_fetch by blast
  have inv: "db_inv (store two_jobs_world)" using db_inv_two_jobs by (simp add: two_jobs_world_def)
  have "due_batch (\<lambda>x. x = ''emails'') 10 late two_jobs = ?b" by code_simp
  then have b: "?b = due_batch (\<lambda>x. x = cfg_queue sample_config)
      (as_i64 (int (cfg_buffer_size sample_config))) late (store two_jobs_world)"
    by (simp add: sample_config_def two_jobs_world_def as_i64_id)
  have bad: "decode_row sample_conv (set_claimed ''w1'' late ?p) = Inl (Row ''empty payload'')"
    by (simp add: decode_row_def try_from_row.simps sample_conv_def set_claimed_def new_job_def
        poison_row_def sample_row_def)
  have p: "lookup_job (store two_jobs_world) (StringKey ''01C'') = Some ?p"
    by (simp add: two_jobs_world_def two_jobs_def lookup_job_def poison_row_def sample_row_def)
  have "lookup_job (store w') (StringKey ''01C'') =
      Some (set_killed (surreal_error_text (Row ''empty payload'')) late (set_claimed ''w1'' late ?p))"
    and "tasks = decoded sample_conv (claimed_rows ''w1'')"
    using fetch_next_poison_killed [OF inv f b] by (simp_all add: p bad claimed_rows_def)
  with f show ?thesis
    by (intro exI [of _ tasks] exI [of _ w']
        exI [of _ "set_killed (surreal_error_text (Row ''empty payload'')) late (set_claimed ''w1'' late ?p)"])
      (simp add: set_killed_def)
qed

end
