(* ===== verification/Ack.thy ===== *)
theory Ack
  imports Claim
begin

text \<open>
  Locking a claimed task before it runs and recording its outcome:
  \<open>src/queries/lock_task.rs\<close>, \<open>src/queries/ack_task.rs\<close> and \<open>src/ack.rs\<close>.
\<close>

section \<open>Locking\<close>

definition lock_task :: "env \<Rightarrow> string \<Rightarrow> string \<Rightarrow> world \<Rightarrow> (surreal_error + unit) \<times> world" where
  "lock_task env ident inst w =
     (case query env (lock_task_stmt (StringKey ident) inst) w of
        (resp, w') \<Rightarrow>
          (case take_rows resp of
             Inl e \<Rightarrow> (Inl e, w')
           | Inr rows \<Rightarrow> (if rows = [] then (Inl (TaskNotFound ident), w') else (Inr (), w'))))"

section \<open>Acknowledging\<close>

text \<open>
  A boxed error of the task's own code: what the crate asks of it is whether it is an
  \<open>AbortError\<close> and its text.
\<close>

record boxed_error =
  is_abort :: bool
  error_text :: string

definition calculate_status :: "parts \<Rightarrow> boxed_error + 'r \<Rightarrow> status" where
  "calculate_status p res =
     (case res of
        Inr _ \<Rightarrow> Done
      | Inl e \<Rightarrow>
          if as_usize (ctx_max_attempts (part_ctx p)) \<le> part_attempt p then Killed
          else if is_abort e then Killed
          else Failed)"

definition ack_task ::
  "env \<Rightarrow> string \<Rightarrow> string \<Rightarrow> json \<Rightarrow> status \<Rightarrow> int \<Rightarrow> world \<Rightarrow> (surreal_error + unit) \<times> world"
where
  "ack_task env ident inst result s attempt w =
     (case query env (ack_task_stmt (StringKey ident) inst s attempt result) w of
        (resp, w') \<Rightarrow>
          (case take_rows resp of
             Inl e \<Rightarrow> (Inl e, w')
           | Inr rows \<Rightarrow> (if rows = [] then (Inl (TaskNotFound ident), w') else (Inr (), w'))))"

text \<open>
  \<open>serde_json::to_value\<close> of the \<open>Result\<close>: an object with the one key \<open>Ok\<close> or \<open>Err\<close>;
  \<open>ser\<close> is the serialisation of the task's own result type, which may fail.
\<close>

definition result_value :: "('r \<Rightarrow> string + json) \<Rightarrow> boxed_error + 'r \<Rightarrow> string + json" where
  "result_value ser res =
     (case res of
        Inl e \<Rightarrow> Inr (err_object (error_text e))
      | Inr v \<Rightarrow> (case ser v of Inl e \<Rightarrow> Inl e | Inr j \<Rightarrow> Inr (ok_object j)))"

text \<open>
  \<open>SurrealAck::ack\<close>: the status is computed and stored into the task's parts when the
  acknowledgement is called; the missing fields are reported when its future runs, in this order.
\<close>

definition ack ::
  "env \<Rightarrow> ('r \<Rightarrow> string + json) \<Rightarrow> boxed_error + 'r \<Rightarrow> parts \<Rightarrow> world
    \<Rightarrow> (surreal_error + unit) \<times> parts \<times> world" where
  "ack env ser res p w =
     (let s = calculate_status p res;
          p' = p\<lparr>part_status := s\<rparr>
      in case part_task_id p of
           None \<Rightarrow> (Inl MissingTaskId, p', w)
         | Some ident \<Rightarrow>
             (case ctx_lock_by (part_ctx p) of
                None \<Rightarrow> (Inl MissingWorkerContext, p', w)
              | Some inst \<Rightarrow>
                  (case result_value ser res of
                     Inl e \<Rightarrow> (Inl (Decode e), p', w)
                   | Inr v \<Rightarrow>
                       (case ack_task env ident inst v s (as_i64 (int (part_attempt p))) w of
                          (r, w') \<Rightarrow> (r, p', w')))))"

section \<open>The lock layer\<close>

text \<open>
  \<open>LockTaskService::call\<close>: the wrapped service is an argument; its future runs only after the
  lock is taken, on the task with \<open>lock_by\<close> set to this instance.
\<close>

datatype service_error = Storage surreal_error | Inner boxed_error

definition lock_service_call ::
  "env \<Rightarrow> string \<Rightarrow> ('a surreal_task \<Rightarrow> world \<Rightarrow> (boxed_error + 'r) \<times> world)
    \<Rightarrow> 'a surreal_task \<Rightarrow> world \<Rightarrow> (service_error + 'r) \<times> world" where
  "lock_service_call env inst inner req w =
     (case part_task_id (snd req) of
        None \<Rightarrow> (Inl (Storage MissingTaskId), w)
      | Some ident \<Rightarrow>
          (let p = snd req;
               req' = (fst req, p\<lparr>part_ctx := (part_ctx p)\<lparr>ctx_lock_by := Some inst\<rparr>\<rparr>)
           in case lock_task env ident inst w of
                (Inl e, w1) \<Rightarrow> (Inl (Storage e), w1)
              | (Inr _, w1) \<Rightarrow>
                  (case inner req' w1 of
                     (Inl e, w2) \<Rightarrow> (Inl (Inner e), w2)
                   | (Inr v, w2) \<Rightarrow> (Inr v, w2))))"

section \<open>What the guards decide\<close>

lemma take_rows_Inr [simp]: "take_rows resp = Inr r \<longleftrightarrow> resp = Rows r"
  by (cases resp) auto

lemma lock_task_stmt_cases:
  assumes "db_inv d"
  shows "lock_task_stmt k inst now d =
    (case lookup_job d k of
       Some j \<Rightarrow> (if lock_guard inst j
                  then Inr ([set_running inst now j], snd (update_record k (lock_guard inst) (set_running inst now) d))
                  else Inr ([], d))
     | None \<Rightarrow> Inr ([], d))"
  using fst_update_record [OF assms, of k "lock_guard inst" "set_running inst now"]
    update_record_miss [OF assms, of k "lock_guard inst" "set_running inst now"]
  by (cases "update_record k (lock_guard inst) (set_running inst now) d")
     (auto simp: lock_task_stmt_def split: option.splits)

lemma ack_task_stmt_cases:
  assumes "db_inv d"
  shows "ack_task_stmt k inst s n r now d =
    (case lookup_job d k of
       Some j \<Rightarrow> (if ack_guard inst j
                  then Inr ([set_acked s n r now j], snd (update_record k (ack_guard inst) (set_acked s n r now) d))
                  else Inr ([], d))
     | None \<Rightarrow> Inr ([], d))"
  using fst_update_record [OF assms, of k "ack_guard inst" "set_acked s n r now"]
    update_record_miss [OF assms, of k "ack_guard inst" "set_acked s n r now"]
  by (cases "update_record k (ack_guard inst) (set_acked s n r now) d")
     (auto simp: ack_task_stmt_def split: option.splits)

lemma lock_task_calm:
  assumes "db_inv (store w)" and "lookup_job (store w) (StringKey ident) = Some j" and "lock_guard inst j"
  shows "lock_task (calm now) ident inst w =
    (Inr (), w\<lparr>store := snd (update_record (StringKey ident) (lock_guard inst) (set_running inst now) (store w)),
       trips := Suc (trips w)\<rparr>)"
  using lock_task_stmt_cases [OF assms(1), of "StringKey ident" inst now] assms(2,3)
    query_calm [of "lock_task_stmt (StringKey ident) inst" now w]
  by (simp add: lock_task_def)

lemma ack_task_calm:
  assumes "db_inv (store w)" and "lookup_job (store w) (StringKey ident) = Some j" and "lock_by j = Some inst"
  shows "ack_task (calm now) ident inst v s n w =
    (Inr (), w\<lparr>store := snd (update_record (StringKey ident) (ack_guard inst) (set_acked s n v now) (store w)),
       trips := Suc (trips w)\<rparr>)"
  using ack_task_stmt_cases [OF assms(1), of "StringKey ident" inst s n v now] assms(2,3)
    query_calm [of "ack_task_stmt (StringKey ident) inst s n v" now w]
  by (simp add: ack_task_def ack_guard_def)

text \<open>An acknowledgement is fenced by the lock: on an undisturbed engine it succeeds exactly when the task exists and is locked by the acknowledging instance, and then writes the status, attempt count, result and completion time of that row only; otherwise it reports TaskNotFound and changes nothing.\<close>

lemma ack_task_fenced:
  assumes "db_inv (store w)"
  shows "ack_task (calm now) ident inst v s n w =
    (case lookup_job (store w) (StringKey ident) of
       Some j \<Rightarrow>
         if lock_by j = Some inst
         then (Inr (), w\<lparr>store := (store w)\<lparr>jobs :=
                 update_where (\<lambda>x. x = j)
                   (\<lambda>x. x\<lparr>status := s, attempts := n, last_result := Some v, done_at := Some now\<rparr>)
                   (jobs (store w))\<rparr>,
               trips := Suc (trips w)\<rparr>)
         else (Inl (TaskNotFound ident), w\<lparr>trips := Suc (trips w)\<rparr>)
     | None \<Rightarrow> (Inl (TaskNotFound ident), w\<lparr>trips := Suc (trips w)\<rparr>))"
proof -
  let ?d = "store w" and ?k = "StringKey ident"
  have ids: "distinct (map job_id (jobs ?d))" using assms by (simp add: db_inv_def)
  have upd: "snd (update_record ?k (ack_guard inst) (set_acked s n v now) ?d) =
      ?d\<lparr>jobs := update_where (\<lambda>x. x = j)
        (\<lambda>x. x\<lparr>status := s, attempts := n, last_result := Some v, done_at := Some now\<rparr>) (jobs ?d)\<rparr>"
    if "lookup_job ?d ?k = Some j" "lock_by j = Some inst" for j
  proof -
    have "job_id x = ?k \<and> ack_guard inst x \<longleftrightarrow> x = j" if "x \<in> set (jobs ?d)" for x
      using that \<open>lookup_job ?d ?k = Some j\<close> \<open>lock_by j = Some inst\<close>
      by (auto simp: ack_guard_def lookup_job_iff [OF ids] intro: distinct_key_eq [OF ids])
    then show ?thesis by (simp add: update_record_def update_where_def set_acked_def)
  qed
  show ?thesis
    using ack_task_stmt_cases [OF assms, of ?k inst s n v now] upd
      query_calm [of "ack_task_stmt ?k inst s n v" now w]
    by (auto simp: ack_task_def ack_guard_def split: option.splits if_splits)
qed

text \<open>Locking succeeds exactly for a queued, pending or failed task whose lock is free or already held by the locking instance; it then marks the row running and stamped by that instance, and otherwise reports TaskNotFound and changes nothing.\<close>

lemma lock_task_guarded:
  assumes "db_inv (store w)"
  shows "(fst (lock_task (calm now) ident inst w) =
      (case lookup_job (store w) (StringKey ident) of
         Some j \<Rightarrow> if (lock_by j = None \<or> lock_by j = Some inst) \<and> status j \<in> {Queued, Pending, Failed}
                  then Inr () else Inl (TaskNotFound ident)
       | None \<Rightarrow> Inl (TaskNotFound ident))) \<and>
    lookup_job (store (snd (lock_task (calm now) ident inst w))) k =
      (if k = StringKey ident
       then map_option (\<lambda>j. if lock_guard inst j
              then j\<lparr>status := Running, lock_at := Some now, lock_by := Some inst\<rparr> else j)
            (lookup_job (store w) k)
       else lookup_job (store w) k)" (is "?result \<and> ?effect")
proof -
  let ?d = "store w" and ?k = "StringKey ident"
  have q: "query (calm now) (lock_task_stmt ?k inst) w =
      (Rows (fst (update_record ?k (lock_guard inst) (set_running inst now) ?d)),
       w\<lparr>store := snd (update_record ?k (lock_guard inst) (set_running inst now) ?d),
         trips := Suc (trips w)\<rparr>)"
    by (rule query_calm) (simp add: lock_task_stmt_def)
  have ?result
    using fst_update_record [OF assms, of ?k "lock_guard inst" "set_running inst now"]
    by (auto simp: lock_task_def q lock_guard_def split: option.splits)
  moreover have ?effect
    by (cases "lookup_job ?d ?k")
       (simp_all add: lock_task_def q locked.lookup_update_record set_running_def)
  ultimately show ?thesis ..
qed

text \<open>The retry decision and the row agree: after an acknowledgement with the computed status the row is retryable exactly when that status is Failed and terminal exactly when it is not, so no acknowledged task is lost between retry and purge and none is both.\<close>

lemma acknowledged_phase:
  assumes "ctx_max_attempts (part_ctx p) = max_attempts j" and "0 \<le> max_attempts j"
    and "max_attempts j < 2 ^ 63" and "part_attempt p < 2 ^ 63"
    and "s = calculate_status p res"
    and "j' = set_acked s (as_i64 (int (part_attempt p))) v now j"
  shows "(retryable j' \<longleftrightarrow> s = Failed) \<and> (terminal j' \<longleftrightarrow> s \<noteq> Failed)"
proof -
  have n: "as_i64 (int (part_attempt p)) = int (part_attempt p)"
    using assms(4) by (intro as_i64_id) simp_all
  have m: "as_usize (ctx_max_attempts (part_ctx p)) = nat (max_attempts j)"
    using assms(1-3) by (simp add: as_usize_id)
  show ?thesis
    using assms(2,5,6)
    by (auto simp: n m set_acked_def retryable_def terminal_def calculate_status_def
          split: sum.splits if_splits)
qed

text \<open>The task's own code runs only under the lock: when the lock layer returns the inner service's value, the row was running and locked by this instance in the tables the inner service started from, and the service was handed the task stamped with this instance.\<close>

lemma lock_service_runs_locked:
  assumes "lock_service_call env inst inner req w = (Inr v, w')"
    and "env_keeps db_inv env" and "db_inv (store w)"
  shows "\<exists>ident j w1. part_task_id (snd req) = Some ident \<and>
    lookup_job (store w1) (StringKey ident) = Some j \<and> status j = Running \<and> lock_by j = Some inst \<and>
    inner (fst req, (snd req)\<lparr>part_ctx := (part_ctx (snd req))\<lparr>ctx_lock_by := Some inst\<rparr>\<rparr>) w1 = (Inr v, w')"
proof -
  from assms(1) obtain ident w1 where ident: "part_task_id (snd req) = Some ident"
    and lock: "lock_task env ident inst w = (Inr (), w1)"
    and inner: "inner (fst req, (snd req)\<lparr>part_ctx := (part_ctx (snd req))\<lparr>ctx_lock_by := Some inst\<rparr>\<rparr>) w1 =
      (Inr v, w')"
    by (auto simp: lock_service_call_def Let_def split: option.splits prod.splits sum.splits)
  let ?d = "others (env (trips w)) (store w)" and ?k = "StringKey ident"
  have inv: "db_inv ?d" using assms(2,3) by (simp add: env_keeps_def)
  from lock obtain rows where q: "query env (lock_task_stmt ?k inst) w = (Rows rows, w1)"
    and ne: "rows \<noteq> []"
    by (auto simp: lock_task_def split: prod.splits sum.splits if_splits)
  let ?now = "clock (env (trips w))"
  from query_Rows [OF q] have st:
    "update_record ?k (lock_guard inst) (set_running inst ?now) ?d = (rows, store w1)"
    by (simp add: lock_task_stmt_def)
  from fst_update_record [OF inv, of ?k "lock_guard inst" "set_running inst ?now"] ne st
  obtain j where j: "lookup_job ?d ?k = Some j" "lock_guard inst j"
    by (auto split: option.splits if_splits)
  then have "lookup_job (store w1) ?k = Some (set_running inst ?now j)"
    using locked.lookup_update_record [of ?k "lock_guard inst" inst ?now ?d ?k] st by simp
  with ident inner show ?thesis by (intro exI conjI) (auto simp: set_running_def)
qed

text \<open>A lock layer that cannot take the lock does not run the task's code: it returns a storage error, and the wrapped service (any service) has no influence on the outcome.\<close>

lemma lock_service_refuses:
  assumes "fst (lock_task env ident inst w) = Inl e" and "part_task_id (snd req) = Some ident"
  shows "lock_service_call env inst inner req w = (Inl (Storage e), snd (lock_task env ident inst w))"
  using assms by (cases "lock_task env ident inst w") (simp add: lock_service_call_def)

text \<open>Acknowledging checks its inputs in the code's order and reports each gap with its own error, without touching the database; the computed status is stored in the task's parts in every case.\<close>

lemma ack_input_errors:
  "fst (snd (ack env ser res p w)) = p\<lparr>part_status := calculate_status p res\<rparr> \<and>
   (part_task_id p = None \<longrightarrow>
      fst (ack env ser res p w) = Inl MissingTaskId \<and> snd (snd (ack env ser res p w)) = w) \<and>
   (part_task_id p = Some ident \<and> ctx_lock_by (part_ctx p) = None \<longrightarrow>
      fst (ack env ser res p w) = Inl MissingWorkerContext \<and> snd (snd (ack env ser res p w)) = w) \<and>
   (part_task_id p = Some ident \<and> ctx_lock_by (part_ctx p) = Some inst \<and>
    result_value ser res = Inl msg \<longrightarrow>
      fst (ack env ser res p w) = Inl (Decode msg) \<and> snd (snd (ack env ser res p w)) = w)"
  by (auto simp: ack_def Let_def split: option.splits sum.splits prod.splits)

section \<open>A retried task claimed through the shared driver\<close>

text \<open>C40. A failed task claimed by fetch_next_shared keeps the lock of the instance that last ran it: any other instance that is handed the task is refused the lock (TaskNotFound, nothing changed), no claim selects the row again, and as long as the previous owner is alive the orphan pass does not recover it.\<close>

theorem shared_claim_keeps_stale_lock:
  assumes inv: "db_inv d" and claim: "fetch_next_shared_stmt qs limit now d = Inr (rows, d')"
    and row: "row \<in> set rows" and before: "lookup_job d (job_id row) = Some j"
    and j: "status j = Failed" "lock_by j = Some owner"
  shows "lookup_job d' (job_id row) = Some (j\<lparr>status := Queued, lock_at := Some now\<rparr>) \<and>
    (\<forall>other t. other \<noteq> owner \<longrightarrow> lock_task_stmt (job_id row) other t d' = Inr ([], d')) \<and>
    (\<forall>t. \<not> due t (j\<lparr>status := Queued, lock_at := Some now\<rparr>)) \<and>
    (\<forall>q live dur t. owner \<in> set live \<longrightarrow>
       \<not> orphaned q live dur t (j\<lparr>status := Queued, lock_at := Some now\<rparr>))"
proof -
  let ?b = "due_batch (\<lambda>x. x \<in> set qs) limit now d"
  have ids: "distinct (map job_id (jobs d))" using inv by (simp add: db_inv_def)
  have "rows = map (set_claimed_shared now) ?b"
    using claim_update [OF ids] claim by (auto simp: fetch_next_shared_stmt_def)
  with row obtain x where x: "x \<in> set ?b" "row = set_claimed_shared now x" by auto
  then have "lookup_job d (job_id row) = Some x"
    using due_batch_mem [OF x(1)] by (simp add: lookup_job_mem [OF ids] claimed_shared.eff_id)
  with before have "x = j" by simp
  with x fetch_next_shared_lookup [OF inv claim] before
  have look: "lookup_job d' (job_id row) = Some (j\<lparr>status := Queued, lock_at := Some now\<rparr>)"
    by (simp add: set_claimed_shared_def)
  have inv': "db_inv d'" using fetch_next_shared_db_inv [OF inv claim] .
  have "lock_task_stmt (job_id row) other t d' = Inr ([], d')" if "other \<noteq> owner" for other t
    using lock_task_stmt_cases [OF inv'] look that j by (simp add: lock_guard_def)
  with look j show ?thesis by (auto simp: due_def retryable_def orphaned_def)
qed

section \<open>Witnesses\<close>

text \<open>A failed job with attempts left, last run by instance \<open>w1\<close>.\<close>

definition failed_job :: job where
  "failed_job =
     (new_job sample_row)\<lparr>status := Failed, attempts := 1, lock_by := Some ''w1'',
       lock_at := Some 6000000000, done_at := Some 7000000000\<rparr>"

definition failed_db :: db where
  "failed_db = \<lparr>jobs = [failed_job], workers = [], meta_version = None\<rparr>"

lemma db_inv_failed: "db_inv failed_db"
  by (simp add: db_inv_def failed_db_def failed_job_def row_ok_def idem_unique_def idem_key_def
      new_job_def sample_row_def)

lemma sample_shared_claim:
  "fetch_next_shared_stmt [''emails''] 10 late failed_db =
     Inr ([set_claimed_shared late failed_job],
       failed_db\<lparr>jobs := [set_claimed_shared late failed_job]\<rparr>)"
  by code_simp

theorem shared_claim_keeps_stale_lock_witness:
  "lock_task_stmt (StringKey ''01A'') ''w2'' late
     (failed_db\<lparr>jobs := [set_claimed_shared late failed_job]\<rparr>) =
   Inr ([], failed_db\<lparr>jobs := [set_claimed_shared late failed_job]\<rparr>)"
proof -
  let ?row = "set_claimed_shared late failed_job"
  have "lookup_job failed_db (job_id ?row) = Some failed_job"
    by (simp add: lookup_job_def failed_db_def set_claimed_shared_def)
  moreover have "job_id ?row = StringKey ''01A''"
    by (simp add: set_claimed_shared_def failed_job_def sample_row_def)
  ultimately show ?thesis
    using shared_claim_keeps_stale_lock [OF db_inv_failed sample_shared_claim, of ?row failed_job "''w1''"]
    by (simp add: failed_job_def)
qed

definition failed_parts :: parts where
  "failed_parts = (snd (sample_task None))\<lparr>part_attempt := 3, part_task_id := Some ''01A''\<rparr>"

end
