(* ===== verification/Workers.thy ===== *)
theory Workers
  imports Ack
begin

text \<open>
  Worker registration, heartbeats and the recovery of tasks stranded by dead workers:
  \<open>src/queries/register_worker.rs\<close>, \<open>src/queries/keep_alive.rs\<close> and
  \<open>src/queries/reenqueue_orphaned.rs\<close>.
\<close>

section \<open>Operations\<close>

text \<open>What the crate reads of a \<open>WorkerContext\<close>: \<open>name()\<close> and \<open>get_service()\<close>.\<close>

record worker_context =
  ctx_name :: string
  ctx_service :: string

definition register_worker ::
  "env \<Rightarrow> config \<Rightarrow> worker_context \<Rightarrow> string \<Rightarrow> string \<Rightarrow> world \<Rightarrow> (surreal_error + unit) \<times> world"
where
  "register_worker env cfg wc storage inst w =
     (case query env (register_worker_stmt (StringKey inst) (ctx_name wc) (cfg_queue cfg) storage
             (ctx_service wc) inst) w of
        (Transport e, w') \<Rightarrow> (Inl (Database e), w')
      | (resp, w') \<Rightarrow>
          (case take_errors resp of
             (_, e) # _ \<Rightarrow> (Inl (Database e), w')
           | [] \<Rightarrow> (Inr (), w')))"

definition keep_alive ::
  "env \<Rightarrow> worker_context \<Rightarrow> string \<Rightarrow> world \<Rightarrow> (surreal_error + unit) \<times> world" where
  "keep_alive env wc inst w =
     (case query env (keep_alive_stmt (StringKey inst)) w of
        (resp, w') \<Rightarrow>
          (case take_rows resp of
             Inl e \<Rightarrow> (Inl e, w')
           | Inr rows \<Rightarrow>
               if rows = []
               then (Inl (WorkerNotFound (ctx_name wc @ '' (instance '' @ inst @ '')'')), w')
               else (Inr (), w')))"

text \<open>
  \<open>Duration\<close>: seconds in 64 bits and nanoseconds, so multiplication saturates at
  \<open>Duration::MAX\<close>; \<open>as_millis() as i64\<close> keeps the low 64 bits.
\<close>

definition duration_max :: nat where
  "duration_max = (2 ^ 64 - 1) * 1000000000 + 999999999"

definition saturating_mul :: "nat \<Rightarrow> nat \<Rightarrow> nat" where
  "saturating_mul dur n = min (dur * n) duration_max"

definition as_millis_i64 :: "nat \<Rightarrow> int" where
  "as_millis_i64 dur = as_i64 (int (dur div 1000000))"

definition effective_reenqueue_millis :: "config \<Rightarrow> int" where
  "effective_reenqueue_millis cfg =
     (let after = cfg_reenqueue_after cfg; floor = saturating_mul (cfg_keep_alive cfg) 2 in
      if after < floor then as_millis_i64 floor else as_millis_i64 after)"

text \<open>
  The request holds three statements and no transaction: each commits on its own and other
  clients may commit in between, so each is a round trip of the model. The code looks at the
  result of the second only; a failed first statement leaves \<open>$live\<close> unset, in which nothing
  is contained.
\<close>

definition reenqueue_orphaned :: "env \<Rightarrow> config \<Rightarrow> world \<Rightarrow> (surreal_error + nat) \<times> world" where
  "reenqueue_orphaned env cfg w =
     (let q = cfg_queue cfg; dur = effective_reenqueue_millis cfg in
      case query env (reenqueue_read_stmt q dur) w of
        (Transport e, w0) \<Rightarrow> (Inl (Database e), w0)
      | (resp0, w0) \<Rightarrow>
          (let live = (case resp0 of Rows l \<Rightarrow> l | _ \<Rightarrow> []) in
           case query env (reenqueue_update_stmt q live dur) w0 of
             (Transport e, w1) \<Rightarrow> (Inl (Database e), w1)
           | (resp1, w1) \<Rightarrow>
               (case query env (reap_workers_stmt q dur) w1 of
                  (Transport e, w2) \<Rightarrow> (Inl (Database e), w2)
                | (_, w2) \<Rightarrow>
                    (case take_rows resp1 of
                       Inl e \<Rightarrow> (Inl e, w2)
                     | Inr rows \<Rightarrow> (Inr (length rows), w2)))))"

definition initial_heartbeat ::
  "env \<Rightarrow> config \<Rightarrow> worker_context \<Rightarrow> string \<Rightarrow> string \<Rightarrow> world \<Rightarrow> (surreal_error + unit) \<times> world"
where
  "initial_heartbeat env cfg wc storage inst w =
     (case reenqueue_orphaned env cfg w of
        (Inl e, w') \<Rightarrow> (Inl e, w')
      | (Inr _, w') \<Rightarrow> register_worker env cfg wc storage inst w')"

text \<open>
  The streams wait for their interval and run one operation per item, for ever: the first \<open>n\<close>
  items of each.
\<close>

fun keep_alive_stream ::
  "env \<Rightarrow> worker_context \<Rightarrow> string \<Rightarrow> nat \<Rightarrow> world \<Rightarrow> (surreal_error + unit) list \<times> world" where
  "keep_alive_stream env wc inst 0 w = ([], w)"
| "keep_alive_stream env wc inst (Suc n) w =
     (case keep_alive env wc inst w of
        (res, w') \<Rightarrow>
          (case keep_alive_stream env wc inst n w' of (items, w'') \<Rightarrow> (res # items, w'')))"

fun reenqueue_orphaned_stream ::
  "env \<Rightarrow> config \<Rightarrow> nat \<Rightarrow> world \<Rightarrow> (surreal_error + nat) list \<times> world" where
  "reenqueue_orphaned_stream env cfg 0 w = ([], w)"
| "reenqueue_orphaned_stream env cfg (Suc n) w =
     (case reenqueue_orphaned env cfg w of
        (res, w') \<Rightarrow>
          (case reenqueue_orphaned_stream env cfg n w' of (items, w'') \<Rightarrow> (res # items, w'')))"

section \<open>The liveness window\<close>

lemma as_millis_i64_id: "dur div 1000000 < 2 ^ 63 \<Longrightarrow> as_millis_i64 dur = int (dur div 1000000)"
  by (simp add: as_millis_i64_def as_i64_id)

text \<open>For durations whose milliseconds fit 63 bits the liveness window is the configured one, raised to twice the keep-alive interval when it is shorter; it is never negative and never below two heartbeats.\<close>

lemma liveness_window:
  assumes "cfg_reenqueue_after cfg div 1000000 < 2 ^ 63" and "cfg_keep_alive cfg * 2 div 1000000 < 2 ^ 63"
  shows "effective_reenqueue_millis cfg =
      int (max (cfg_reenqueue_after cfg) (cfg_keep_alive cfg * 2) div 1000000) \<and>
    0 \<le> effective_reenqueue_millis cfg \<and>
    int (cfg_keep_alive cfg * 2 div 1000000) \<le> effective_reenqueue_millis cfg"
proof -
  let ?m = "max (cfg_reenqueue_after cfg) (cfg_keep_alive cfg * 2)"
  have "cfg_keep_alive cfg * 2 < 2 ^ 63 * 1000000"
    using assms(2) by (simp add: div_less_iff_less_mult)
  then have "saturating_mul (cfg_keep_alive cfg) 2 = cfg_keep_alive cfg * 2"
    by (simp add: saturating_mul_def duration_max_def)
  then have "effective_reenqueue_millis cfg = as_millis_i64 ?m"
    by (auto simp: effective_reenqueue_millis_def Let_def max_def)
  also have "\<dots> = int (?m div 1000000)"
    using assms by (intro as_millis_i64_id) (simp add: max_def)
  finally have e: "effective_reenqueue_millis cfg = int (?m div 1000000)" .
  have "cfg_keep_alive cfg * 2 div 1000000 \<le> ?m div 1000000" by (rule div_le_mono) simp
  then show ?thesis by (simp only: e) simp
qed

text \<open>The cast to 64 bits wraps: with the largest duration as the window (\<open>Duration::MAX\<close>, "never re-enqueue") the number of milliseconds bound to the query is minus one; read as plain arithmetic on times, no worker counts as live then, and every job in flight that was locked by now is taken for orphaned.\<close>

lemma liveness_window_wraps:
  assumes "cfg_reenqueue_after cfg = duration_max"
  shows "effective_reenqueue_millis cfg = - 1 \<and>
    (\<forall>q now d. (\<forall>x \<in> set (workers d). last_seen x \<le> now) \<longrightarrow>
       live_instances q (effective_reenqueue_millis cfg) now d = []) \<and>
    (\<forall>q now j t. queue j = q \<and> in_flight j \<and> row_ok j \<and> lock_at j = Some t \<and> t \<le> now \<longrightarrow>
       orphaned q [] (effective_reenqueue_millis cfg) now j)"
proof -
  have "saturating_mul (cfg_keep_alive cfg) 2 \<le> duration_max" by (simp add: saturating_mul_def)
  then have e: "effective_reenqueue_millis cfg = - 1"
    using assms
    by (simp add: effective_reenqueue_millis_def as_millis_i64_def as_i64_eq duration_max_def)
  then show ?thesis
    by (auto simp: live_instances_def orphaned_def millis_def nanos_per_milli_def filter_empty_conv
        in_flight_def row_ok_def split: option.splits)
qed

section \<open>Who is spared and who is recovered\<close>

lemma live_instances_mem:
  "x \<in> set (workers d) \<Longrightarrow> worker_queue x = q \<Longrightarrow> last_seen x \<ge> now - millis dur \<Longrightarrow>
    worker_instance x \<in> set (live_instances q dur now d)"
  by (auto simp: live_instances_def)

text \<open>C33. Heartbeats protect a worker: one that was seen within two keep-alive intervals when a pass reads the live instances is live for that pass, so that its update re-enqueues no job the worker holds, at whatever later time and on whatever tables it runs; and a reap, which is a statement of its own and runs later, deletes no registration whose last heartbeat at its own time, among the rows it finds then, is at most eight keep-alive intervals old. The durations are assumed to fit 63 bits in milliseconds.\<close>

theorem heartbeat_protects:
  assumes fit: "cfg_reenqueue_after cfg div 1000000 < 2 ^ 63" "cfg_keep_alive cfg * 2 div 1000000 < 2 ^ 63"
    and x: "x \<in> set (workers d)" "worker_queue x = cfg_queue cfg"
    and seen: "last_seen x \<ge> now - millis (int (cfg_keep_alive cfg * 2 div 1000000))"
    and read: "reenqueue_read_stmt (cfg_queue cfg) (effective_reenqueue_millis cfg) now d = Inr (live, d0)"
    and update: "reenqueue_update_stmt (cfg_queue cfg) live (effective_reenqueue_millis cfg) t1 d1 = Inr (rows, d1')"
    and j: "j \<in> set (jobs d1)" "lock_by j = Some (worker_instance x)"
    and reap: "reap_workers_stmt (cfg_queue cfg) (effective_reenqueue_millis cfg) t2 d2 = Inr ((), d2')"
    and y: "y \<in> set (workers d2)" "last_seen y \<ge> t2 - millis (int (cfg_keep_alive cfg * 2 div 1000000) * 4)"
  shows "j \<in> set (jobs d1') \<and> y \<in> set (workers d2')"
proof -
  let ?dur = "effective_reenqueue_millis cfg"
  have w: "0 \<le> ?dur" "int (cfg_keep_alive cfg * 2 div 1000000) \<le> ?dur"
    using liveness_window [OF fit] by auto
  then have le: "millis (int (cfg_keep_alive cfg * 2 div 1000000)) \<le> millis ?dur"
    "millis (int (cfg_keep_alive cfg * 2 div 1000000) * 4) \<le> millis (?dur * 4)"
    by (simp_all add: millis_def nanos_per_milli_def)
  have "live = live_instances (cfg_queue cfg) ?dur now d" using read by (auto simp: reenqueue_read_stmt_def)
  with live_instances_mem [OF x, of now ?dur] seen le(1) have "worker_instance x \<in> set live" by simp
  with j(2) have "\<not> orphaned (cfg_queue cfg) live ?dur t1 j" by (auto simp: orphaned_def)
  with update j(1) have "j \<in> set (jobs d1')" by (auto simp: reenqueue_update_stmt_def set_update_where)
  moreover have "y \<in> set (workers d2')" using reap y le(2) by (auto simp: reap_workers_stmt_def)
  ultimately show ?thesis by blast
qed

text \<open>The orphan pass recovers every stranded job: a job of the queue in flight with a lock older than the window and no live owner becomes pending, unlocked and retryable with one more attempt, all other jobs keep their rows, and the reported count is the number of recovered jobs.\<close>

lemma orphans_recovered:
  assumes "db_inv d" and "reenqueue_update_stmt q live dur now d = Inr (rows, d')"
    and "j \<in> set (jobs d)"
  shows "lookup_job d' (job_id j) = Some (if orphaned q live dur now j then set_reenqueued j else j) \<and>
    (orphaned q live dur now j \<longrightarrow>
       retryable (set_reenqueued j) \<and> attempts (set_reenqueued j) = attempts j + 1 \<and>
       lock_by (set_reenqueued j) = None) \<and>
    length rows = card {x \<in> set (jobs d). orphaned q live dur now x}"
proof -
  have ids: "distinct (map job_id (jobs d))" using assms(1) by (simp add: db_inv_def)
  have "distinct (filter (orphaned q live dur now) (jobs d))" using ids by (simp add: distinct_map)
  from distinct_card [OF this] have c:
    "length (filter (orphaned q live dur now) (jobs d)) = card {x \<in> set (jobs d). orphaned q live dur now x}"
    by simp
  have rows: "rows = map set_reenqueued (filter (orphaned q live dur now) (jobs d))"
    and d': "d' = d\<lparr>jobs := update_where (orphaned q live dur now) set_reenqueued (jobs d)\<rparr>"
    using assms(2) by (auto simp: reenqueue_update_stmt_def)
  have "lookup_job d' (job_id j) =
      Some (if orphaned q live dur now j then set_reenqueued j else j)"
    by (simp add: d' reenqueued.lookup_update lookup_job_mem [OF ids assms(3)])
  then show ?thesis using c by (simp add: rows set_reenqueued_def retryable_def)
qed

section \<open>Heartbeats and registration\<close>

text \<open>A heartbeat succeeds exactly while the worker's row exists, whose last-seen time it then advances; once the orphan pass has deleted the row of a worker unseen for four windows, its heartbeats report WorkerNotFound with the worker's name and instance.\<close>

lemma keep_alive_needs_row:
  assumes "db_inv (store w)"
  shows "(fst (keep_alive (calm now) wc inst w) = Inr () \<longleftrightarrow>
      (\<exists>x \<in> set (workers (store w)). worker_instance x = inst)) \<and>
    (\<forall>x. x \<in> set (workers (store (snd (keep_alive (calm now) wc inst w)))) \<and>
       worker_instance x = inst \<longrightarrow> last_seen x = now) \<and>
    (\<forall>q dur t d. reap_workers_stmt q dur t (store w) = Inr ((), d) \<and>
       (\<forall>x \<in> set (workers (store w)). worker_instance x = inst \<longrightarrow>
          worker_queue x = q \<and> last_seen x < t - millis (dur * 4)) \<longrightarrow>
       fst (keep_alive (calm now) wc inst (w\<lparr>store := d\<rparr>)) =
         Inl (WorkerNotFound (ctx_name wc @ '' (instance '' @ inst @ '')'')))"
proof -
  have ids: "worker_id x = StringKey inst \<longleftrightarrow> worker_instance x = inst"
    if "x \<in> set (workers (store w))" for x
    using assms that by (auto simp: db_inv_def)
  have q: "query (calm now) (keep_alive_stmt (StringKey inst)) v =
      (Rows (map (last_seen_update (\<lambda>_. now)) (filter (\<lambda>x. worker_id x = StringKey inst) (workers (store v)))),
       v\<lparr>store := (store v)\<lparr>workers := update_where (\<lambda>x. worker_id x = StringKey inst)
           (last_seen_update (\<lambda>_. now)) (workers (store v))\<rparr>, trips := Suc (trips v)\<rparr>)" for v
    by (rule query_calm) (simp add: keep_alive_stmt_def)
  have "fst (keep_alive (calm now) wc inst w) = Inr () \<longleftrightarrow>
      (\<exists>x \<in> set (workers (store w)). worker_instance x = inst)"
    using ids by (auto simp: keep_alive_def q filter_empty_conv)
  moreover have "last_seen x = now"
    if "x \<in> set (workers (store (snd (keep_alive (calm now) wc inst w))))" "worker_instance x = inst" for x
  proof -
    have "store (snd (keep_alive (calm now) wc inst w)) =
        (store w)\<lparr>workers := update_where (\<lambda>x. worker_id x = StringKey inst)
           (last_seen_update (\<lambda>_. now)) (workers (store w))\<rparr>"
      by (simp add: keep_alive_def q)
    with that ids show ?thesis by (auto simp: set_update_where)
  qed
  moreover have "fst (keep_alive (calm now) wc inst (w\<lparr>store := d\<rparr>)) =
      Inl (WorkerNotFound (ctx_name wc @ '' (instance '' @ inst @ '')''))"
    if "reap_workers_stmt q dur t (store w) = Inr ((), d)"
      "\<forall>x \<in> set (workers (store w)). worker_instance x = inst \<longrightarrow>
          worker_queue x = q \<and> last_seen x < t - millis (dur * 4)" for q dur t d
  proof -
    have "filter (\<lambda>x. worker_id x = StringKey inst) (workers d) = []"
      using that ids by (auto simp: reap_workers_stmt_def filter_empty_conv)
    then show ?thesis by (simp add: keep_alive_def q)
  qed
  ultimately show ?thesis by blast
qed

lemma register_lookup:
  assumes "register_worker_stmt k name q storage lay inst now d = Inr (u, d')"
  shows "lookup_worker d' k =
    Some \<lparr>worker_id = k, worker_name = name, worker_queue = q, storage_name = storage,
          layers = Some lay, worker_instance = inst, started_at = now, last_seen = now\<rparr>"
proof -
  have app: "find P (xs @ [y]) = Some y" if "find P xs = None" "P y" for P :: "worker \<Rightarrow> bool" and xs y
    using that by (induction xs) (auto split: if_splits)
  have upd: "find (\<lambda>x. worker_id x = k) (update_where (\<lambda>x. worker_id x = k) (\<lambda>_. r) xs) = Some r"
    if "find (\<lambda>x. worker_id x = k) xs \<noteq> None" "worker_id r = k" for r xs
    using that by (induction xs) auto
  let ?row = "\<lparr>worker_id = k, worker_name = name, worker_queue = q, storage_name = storage,
    layers = Some lay, worker_instance = inst, started_at = now, last_seen = now\<rparr>"
  show ?thesis
  proof (cases "lookup_worker d k")
    case None
    with assms app [of "\<lambda>x. worker_id x = k" "workers d" ?row] show ?thesis
      by (simp add: register_worker_stmt_def lookup_worker_def Let_def) auto
  next
    case (Some y)
    with assms upd [of "workers d" ?row] show ?thesis
      by (simp add: register_worker_stmt_def lookup_worker_def Let_def) auto
  qed
qed

text \<open>When the initial heartbeat succeeds, whatever the engine answered on the way, the worker is registered under its instance in the storage's queue, seen at the engine's time of the registration.\<close>

lemma initial_heartbeat_registers:
  assumes "initial_heartbeat env cfg wc storage inst w = (Inr (), w')"
  shows "\<exists>x now. lookup_worker (store w') (StringKey inst) = Some x \<and>
    worker_name x = ctx_name wc \<and> worker_queue x = cfg_queue cfg \<and> storage_name x = storage \<and>
    layers x = Some (ctx_service wc) \<and> worker_instance x = inst \<and>
    now = clock (env (trips w' - 1)) \<and> started_at x = now \<and> last_seen x = now"
proof -
  from assms obtain w1 where reg: "register_worker env cfg wc storage inst w1 = (Inr (), w')"
    by (auto simp: initial_heartbeat_def split: prod.splits sum.splits)
  then obtain u where q: "query env (register_worker_stmt (StringKey inst) (ctx_name wc) (cfg_queue cfg)
      storage (ctx_service wc) inst) w1 = (Rows u, w')"
    by (auto simp: register_worker_def split: prod.splits reply.splits list.splits)
  from register_lookup [OF query_Rows [OF q]] query_trips [OF q] show ?thesis by simp
qed

lemma reenqueue_orphaned_invariant:
  assumes "env_keeps db_inv env" and "db_inv (store w)"
  shows "db_inv (store (snd (reenqueue_orphaned env cfg w)))"
proof -
  let ?q = "cfg_queue cfg" and ?dur = "effective_reenqueue_millis cfg"
  obtain r0 w0 where q0: "query env (reenqueue_read_stmt ?q ?dur) w = (r0, w0)" by fastforce
  let ?live = "case r0 of Rows l \<Rightarrow> l | _ \<Rightarrow> []"
  obtain r1 w1 where q1: "query env (reenqueue_update_stmt ?q ?live ?dur) w0 = (r1, w1)" by fastforce
  obtain r2 w2 where q2: "query env (reap_workers_stmt ?q ?dur) w1 = (r2, w2)" by fastforce
  have i0: "db_inv (store w0)" using reenqueue_read_keeps.query_keeps [OF assms q0] .
  have i1: "db_inv (store w1)" using reenqueue_keeps.query_keeps [OF assms(1) i0 q1] .
  have i2: "db_inv (store w2)" using reap_keeps.query_keeps [OF assms(1) i1 q2] .
  show ?thesis
    using i0 i1 i2 q1
    by (auto simp: reenqueue_orphaned_def Let_def q0 q2 split: reply.splits sum.splits)
qed

lemma reenqueue_orphaned_calm:
  "reenqueue_orphaned (calm now) cfg w =
    (let q = cfg_queue cfg; dur = effective_reenqueue_millis cfg;
         live = live_instances q dur now (store w)
     in (Inr (length (filter (orphaned q live dur now) (jobs (store w)))),
         w\<lparr>store := (store w)\<lparr>
             jobs := update_where (orphaned q live dur now) set_reenqueued (jobs (store w)),
             workers := filter (\<lambda>x. \<not> (worker_queue x = q \<and> last_seen x < now - millis (dur * 4)))
               (workers (store w))\<rparr>,
           trips := trips w + 3\<rparr>))"
  by (simp add: reenqueue_orphaned_def Let_def query_def calm_def reenqueue_read_stmt_def
      reenqueue_update_stmt_def reap_workers_stmt_def)

section \<open>Witnesses\<close>

definition sample_worker :: worker where
  "sample_worker =
     \<lparr>worker_id = StringKey ''w1'', worker_name = ''mailer'', worker_queue = ''emails'',
      storage_name = ''SurrealStorage'', layers = Some ''stack'', worker_instance = ''w1'',
      started_at = 0, last_seen = 0\<rparr>"

definition running_job :: job where
  "running_job =
     (new_job sample_row)\<lparr>status := Running, lock_by := Some ''w1'', lock_at := Some 6000000000\<rparr>"

definition busy_db :: db where
  "busy_db = \<lparr>jobs = [running_job], workers = [sample_worker], meta_version = None\<rparr>"

lemma db_inv_busy: "db_inv busy_db"
  by (simp add: db_inv_def busy_db_def running_job_def sample_worker_def row_ok_def idem_unique_def
      idem_key_def new_job_def sample_row_def)

theorem heartbeat_protects_witness:
  "\<exists>d1' d2'. reenqueue_update_stmt ''emails'' [''w1''] 300000 900000000000 busy_db = Inr ([], d1') \<and>
    running_job \<in> set (jobs d1') \<and>
    reap_workers_stmt ''emails'' 300000 1100000000 busy_db = Inr ((), d2') \<and> sample_worker \<in> set (workers d2')"
proof -
  have fit: "cfg_reenqueue_after sample_config div 1000000 < 2 ^ 63"
    "cfg_keep_alive sample_config * 2 div 1000000 < 2 ^ 63"
    by (simp_all add: sample_config_def)
  have x: "sample_worker \<in> set (workers busy_db)" "worker_queue sample_worker = cfg_queue sample_config"
    by (simp_all add: busy_db_def sample_worker_def sample_config_def)
  have seen: "last_seen sample_worker \<ge> 1000000000 - millis (int (cfg_keep_alive sample_config * 2 div 1000000))"
    "last_seen sample_worker \<ge> 1100000000 - millis (int (cfg_keep_alive sample_config * 2 div 1000000) * 4)"
    by (simp_all add: sample_worker_def sample_config_def millis_def nanos_per_milli_def)
  have e: "effective_reenqueue_millis sample_config = 300000"
    by (simp add: effective_reenqueue_millis_def saturating_mul_def duration_max_def sample_config_def
        as_millis_i64_def as_i64_id)
  have q: "cfg_queue sample_config = ''emails''" by (simp add: sample_config_def)
  have read: "reenqueue_read_stmt (cfg_queue sample_config) (effective_reenqueue_millis sample_config)
      1000000000 busy_db = Inr ([''w1''], busy_db)"
    unfolding e q
    by (simp add: reenqueue_read_stmt_def live_instances_def busy_db_def sample_worker_def
        millis_def nanos_per_milli_def)
  have j: "running_job \<in> set (jobs busy_db)" "lock_by running_job = Some (worker_instance sample_worker)"
    by (simp_all add: running_job_def sample_worker_def busy_db_def)
  obtain d1' where u: "reenqueue_update_stmt ''emails'' [''w1''] 300000 900000000000 busy_db = Inr ([], d1')"
    by (simp add: reenqueue_update_stmt_def busy_db_def orphaned_def running_job_def new_job_def sample_row_def)
  obtain d2' where r: "reap_workers_stmt ''emails'' 300000 1100000000 busy_db = Inr ((), d2')"
    by (simp add: reap_workers_stmt_def)
  from heartbeat_protects [OF fit x seen(1) read u [folded e, folded q] j r [folded e, folded q] x(1) seen(2)] u r
  show ?thesis by blast
qed

lemma sample_reenqueue:
  "reenqueue_update_stmt ''emails'' [] 1000 late busy_db =
     Inr ([set_reenqueued running_job], busy_db\<lparr>jobs := [set_reenqueued running_job]\<rparr>)"
  by code_simp

lemma register_worker_calm: "fst (register_worker (calm now) cfg wc storage inst w) = Inr ()"
  by (simp add: register_worker_def query_def calm_def register_worker_stmt_def Let_def)

lemma initial_heartbeat_calm: "fst (initial_heartbeat (calm now) cfg wc storage inst w) = Inr ()"
  by (simp add: initial_heartbeat_def reenqueue_orphaned_calm Let_def register_worker_calm)

end
