(* ===== verification/System.thy ===== *)
theory System
  imports Workers
begin

text \<open>
  The backend as a whole: any number of producers and workers run the statements of the
  crate in any order and at any times against one database. A step is one statement that
  commits; a failed or conflicting transaction is no step. The theory relates the steps to
  an abstract life cycle of a single job and proves what the locking protocol promises over
  arbitrary interleavings.
\<close>

section \<open>Steps\<close>

datatype action =
    Push "push_row list"
  | Claim string string int
  | ClaimShared "string list" int
  | Lock record_key string
  | Acknowledge record_key string status int json
  | Park record_key string
  | Reenqueue string "string list" int
  | Reap string int
  | Register string string string string string
  | Heartbeat string
  | Vacuum

text \<open>
  The acknowledged status is one that \<open>calculate_status\<close> computes; the live list of a
  re-enqueue may have been read long before.
\<close>

inductive step :: "db \<Rightarrow> action \<Rightarrow> db \<Rightarrow> bool" where
  push: "push_tasks_stmt rows t d = Inr (u, d') \<Longrightarrow> step d (Push rows) d'"
| claim: "fetch_next_stmt q w n t d = Inr (js, d') \<Longrightarrow> step d (Claim q w n) d'"
| claim_shared: "fetch_next_shared_stmt qs n t d = Inr (js, d') \<Longrightarrow> step d (ClaimShared qs n) d'"
| lock: "lock_task_stmt k w t d = Inr (js, d') \<Longrightarrow> step d (Lock k w) d'"
| acknowledge: "ack_task_stmt k w s n r t d = Inr (js, d') \<Longrightarrow> s \<in> {Done, Failed, Killed} \<Longrightarrow>
     step d (Acknowledge k w s n r) d'"
| park: "kill_task_stmt k reason t d = Inr (u, d') \<Longrightarrow> step d (Park k reason) d'"
| reenqueue: "reenqueue_update_stmt q live dur t d = Inr (js, d') \<Longrightarrow> step d (Reenqueue q live dur) d'"
| reap: "reap_workers_stmt q dur t d = Inr (u, d') \<Longrightarrow> step d (Reap q dur) d'"
| register: "register_worker_stmt (StringKey inst) name q storage lay inst t d = Inr (u, d') \<Longrightarrow>
     step d (Register inst name q storage lay) d'"
| heartbeat: "keep_alive_stmt (StringKey inst) t d = Inr (ws, d') \<Longrightarrow> step d (Heartbeat inst) d'"
| vacuum: "vacuum_stmt t d = Inr (js, d') \<Longrightarrow> step d Vacuum d'"

inductive_cases lock_stepE: "step d (Lock k w) d'"
inductive_cases vacuum_stepE: "step d Vacuum d'"

definition reachable :: "db \<Rightarrow> bool" where
  "reachable d \<longleftrightarrow> (\<exists>as. run step empty_db as d)"

lemma calculated_status: "calculate_status p res \<in> {Done, Failed, Killed}"
  by (simp add: calculate_status_def split: sum.splits)

lemma step_db_inv: "step d a d' \<Longrightarrow> db_inv d \<Longrightarrow> db_inv d'"
  by (induction rule: step.induct)
     (erule (1) push_tasks_db_inv [rotated] fetch_next_db_inv [rotated]
       fetch_next_shared_db_inv [rotated] lock_task_db_inv [rotated] kill_task_db_inv [rotated]
       reenqueue_db_inv [rotated] reap_db_inv [rotated] register_db_inv [rotated]
       keep_alive_db_inv [rotated] vacuum_db_inv [rotated] | erule (2) ack_task_db_inv [rotated 2])+

interpretation inv: kept_by_steps step "\<lambda>_. True" db_inv
  by unfold_locales (rule step_db_inv)

lemma reachable_db_inv: "reachable d \<Longrightarrow> db_inv d"
  unfolding reachable_def using inv.run_keeps [OF _ _ db_inv_empty] by blast

section \<open>The life of one job\<close>

text \<open>What a step may do to a row, one rule per statement that rewrites rows of \<open>job\<close>.\<close>

inductive transition :: "job \<Rightarrow> action \<Rightarrow> job \<Rightarrow> bool" where
  "due t j \<Longrightarrow> queue j = q \<Longrightarrow> transition j (Claim q w n) (set_claimed w t j)"
| "due t j \<Longrightarrow> queue j \<in> set qs \<Longrightarrow> transition j (ClaimShared qs n) (set_claimed_shared t j)"
| "lock_guard w j \<Longrightarrow> transition j (Lock (job_id j) w) (set_running w t j)"
| "ack_guard w j \<Longrightarrow> s \<in> {Done, Failed, Killed} \<Longrightarrow>
     transition j (Acknowledge (job_id j) w s n r) (set_acked s n r t j)"
| "transition j (Park (job_id j) reason) (set_killed reason t j)"
| "orphaned q live dur t j \<Longrightarrow> transition j (Reenqueue q live dur) (set_reenqueued j)"

text \<open>What each kind of statement does to the row of one id.\<close>

lemma push_keeps_row:
  assumes "push_loop rows d = Inr d'" and "lookup_job d k = Some j"
  shows "lookup_job d' k = Some j"
proof -
  have "find P (xs @ ys) = Some x" if "find P xs = Some x" for P :: "job \<Rightarrow> bool" and xs ys x
    using that by (induction xs) (auto split: if_splits)
  from this [OF assms(2) [unfolded lookup_job_def]] show ?thesis
    unfolding push_loop_accepted [OF assms(1)] lookup_job_def by simp
qed

lemma vacuum_row:
  assumes "vacuum_stmt t d = Inr (js, d')" and "db_inv d" and "lookup_job d k = Some j"
  shows "lookup_job d' k = (if terminal j then None else Some j)"
proof -
  have ids: "distinct (map job_id (jobs d))" using assms(2) by (simp add: db_inv_def)
  have d': "jobs d' = filter (\<lambda>j. \<not> terminal j) (jobs d)" using assms(1) by (auto simp: vacuum_stmt_def)
  have ids': "distinct (map job_id (jobs d'))" using ids by (simp add: d' distinct_map_filterI)
  have k: "job_id j = k" "j \<in> set (jobs d)" using lookup_job_Some [OF assms(3)] by auto
  show ?thesis
  proof (cases "terminal j")
    case True
    then have "k \<notin> job_id ` set (jobs d')" using distinct_key_eq [OF ids _ k(2)] k(1) by (auto simp: d')
    with True show ?thesis by (simp add: lookup_job_None)
  next
    case False
    with k show ?thesis by (simp add: lookup_job_iff [OF ids'] d')
  qed
qed

lemma changed_row:
  "lookup_job d' k = Some (if c then j' else j) \<Longrightarrow> (c \<Longrightarrow> transition j a j') \<Longrightarrow>
    lookup_job d' k = Some j \<or> (\<exists>j'. lookup_job d' k = Some j' \<and> transition j a j')"
  by (cases c) simp_all

text \<open>A step leaves a row alone, moves it along one transition, or purges it when it is terminal.\<close>

lemma step_row:
  assumes "step d a d'" and "db_inv d" and "lookup_job d k = Some j"
  shows "lookup_job d' k = Some j \<or> (\<exists>j'. lookup_job d' k = Some j' \<and> transition j a j') \<or>
    (a = Vacuum \<and> terminal j \<and> lookup_job d' k = None)"
proof -
  have k: "job_id j = k" "j \<in> set (jobs d)" using lookup_job_Some [OF assms(3)] by auto
  show ?thesis
    using assms(1)
  proof cases
    case (push rows t u)
    with push_keeps_row [OF _ assms(3)] show ?thesis by (simp add: push_tasks_stmt_Inr)
  next
    case (claim q w n t js)
    have "transition j a (set_claimed w t j)" if "j \<in> set (due_batch (\<lambda>x. x = q) n t d)"
      using due_batch_mem [OF that] by (simp add: claim(1) transition.intros(1))
    with changed_row [OF fetch_next_lookup [OF assms(2) claim(2), of k, unfolded assms(3) option.map]]
    show ?thesis by blast
  next
    case (claim_shared qs n t js)
    have "transition j a (set_claimed_shared t j)" if "j \<in> set (due_batch (\<lambda>x. x \<in> set qs) n t d)"
      using due_batch_mem [OF that] by (simp add: claim_shared(1) transition.intros(2))
    with changed_row [OF fetch_next_shared_lookup [OF assms(2) claim_shared(2), of k, unfolded assms(3) option.map]]
    show ?thesis by blast
  next
    case (lock k' w t js)
    from lock(2) have "d' = snd (update_record k' (lock_guard w) (set_running w t) d)"
      by (simp add: lock_task_stmt_def)
    with lock(1) assms(3) k show ?thesis
      by (auto simp: locked.lookup_update_record intro: transition.intros)
  next
    case (acknowledge k' w s n r t js)
    from acknowledge(2) have "d' = snd (update_record k' (ack_guard w) (set_acked s n r t) d)"
      by (simp add: ack_task_stmt_def)
    with acknowledge(1,3) assms(3) k show ?thesis
      by (auto simp: acked.lookup_update_record intro: transition.intros)
  next
    case (park k' reason t u)
    from park(2) have "d' = snd (update_record k' (\<lambda>_. True) (set_killed reason t) d)"
      by (simp add: kill_task_stmt_def)
    with park(1) assms(3) k show ?thesis
      by (auto simp: killed.lookup_update_record intro: transition.intros)
  next
    case (reenqueue q live dur t js)
    then have "lookup_job d' k = Some (if orphaned q live dur t j then set_reenqueued j else j)"
      using assms(3) by (auto simp: reenqueue_update_stmt_def reenqueued.lookup_update)
    from changed_row [OF this] show ?thesis unfolding reenqueue(1) using transition.intros(6) by blast
  next
    case (vacuum t js)
    with vacuum_row [OF _ assms(2,3)] show ?thesis by simp
  qed (use assms(3) in \<open>auto simp: stmt_defs lookup_job_def Let_def\<close>)
qed

text \<open>What a client stored in a job, as opposed to what the life cycle writes.\<close>

definition payload where
  "payload j = (job_id j, args j, queue j, max_attempts j, run_at j, priority j, metadata j,
     idempotency_key j)"

lemma transition_payload: "transition j a j' \<Longrightarrow> payload j' = payload j"
  by (induction rule: transition.induct) (simp_all add: payload_def row_simps)

text \<open>
  The abstract life cycle: which statement moves a job from which status to which. An
  acknowledgement is not guarded by the status, so it can also rewrite the outcome of a job
  that is still locked by the acknowledging instance; a pending job is never acknowledged.
\<close>

fun edge :: "action \<Rightarrow> status \<Rightarrow> status \<Rightarrow> bool" where
  "edge (Claim _ _ _) s s' = (s \<in> {Pending, Failed} \<and> s' = Queued)"
| "edge (ClaimShared _ _) s s' = (s \<in> {Pending, Failed} \<and> s' = Queued)"
| "edge (Lock _ _) s s' = (s \<in> {Pending, Queued, Failed} \<and> s' = Running)"
| "edge (Acknowledge _ _ r _ _) s s' = (s \<noteq> Pending \<and> s' = r \<and> s' \<in> {Done, Failed, Killed})"
| "edge (Park _ _) s s' = (s' = Killed)"
| "edge (Reenqueue _ _ _) s s' = (s \<in> {Queued, Running} \<and> s' = Pending)"
| "edge _ s s' = False"

lemma transition_edge: "transition j a j' \<Longrightarrow> row_ok j \<Longrightarrow> edge a (status j) (status j')"
  by (induction rule: transition.induct)
     (auto simp: row_simps due_def retryable_def lock_guard_def ack_guard_def orphaned_def row_ok_def)

text \<open>C7. Every committed statement refines the abstract life cycle: on each job it either leaves the row as it is, or keeps the payload and moves the status along an edge that the life cycle has for this statement, or is the vacuum removing a terminal job.\<close>

theorem step_refines_life_cycle:
  assumes "step d a d'" and "db_inv d" and "lookup_job d k = Some j"
  shows "lookup_job d' k = Some j \<or>
    (\<exists>j'. lookup_job d' k = Some j' \<and> payload j' = payload j \<and> edge a (status j) (status j')) \<or>
    (a = Vacuum \<and> terminal j \<and> lookup_job d' k = None)"
proof -
  have "row_ok j" using assms(2) lookup_job_Some [OF assms(3)] by (auto simp: db_inv_def)
  with step_row [OF assms] transition_payload transition_edge show ?thesis by blast
qed

text \<open>C6. Whatever statements of whatever clients have run since the empty database, ids and idempotency keys are unique, every row is consistent, and every job is in exactly one phase: claimable now or later, in flight, or finished.\<close>

theorem reachable_phases:
  assumes "reachable d"
  shows "db_inv d \<and>
    (\<forall>j \<in> set (jobs d).
       (retryable j \<or> in_flight j \<or> terminal j) \<and> \<not> (retryable j \<and> in_flight j) \<and>
       \<not> (in_flight j \<and> terminal j) \<and> \<not> (retryable j \<and> terminal j))"
proof -
  have inv: "db_inv d" using assms by (rule reachable_db_inv)
  then have "\<forall>j \<in> set (jobs d). row_ok j" by (simp add: db_inv_def)
  with inv row_phases show ?thesis by blast
qed

text \<open>C4. No job is lost: over any interleaving a stored job keeps its payload, unless on the way a vacuum ran at a moment when the job was finished for good.\<close>

theorem no_job_lost:
  assumes "run step d as d'" and "db_inv d" and "lookup_job d k = Some j"
  shows "(\<exists>j'. lookup_job d' k = Some j' \<and> payload j' = payload j) \<or>
    (\<exists>as1 as2 d1 j1. as = as1 @ Vacuum # as2 \<and> run step d as1 d1 \<and>
       lookup_job d1 k = Some j1 \<and> terminal j1 \<and> payload j1 = payload j)"
  using assms
proof (induction arbitrary: j rule: run.induct)
  case (run_Cons d a d1 as d')
  have inv: "db_inv d1" using step_db_inv run_Cons.hyps(1) run_Cons.prems(1) .
  from step_row [OF run_Cons.hyps(1) run_Cons.prems]
  consider (kept) j1 where "lookup_job d1 k = Some j1" "payload j1 = payload j"
    | (purged) "a = Vacuum" "terminal j"
    using transition_payload by blast
  then show ?case
  proof cases
    case kept
    from run_Cons.IH [OF inv kept(1)] show ?thesis
    proof
      assume "\<exists>as1 as2 d2 j2. as = as1 @ Vacuum # as2 \<and> run step d1 as1 d2 \<and>
        lookup_job d2 k = Some j2 \<and> terminal j2 \<and> payload j2 = payload j1"
      then obtain as1 as2 d2 j2 where "as = as1 @ Vacuum # as2" "run step d1 as1 d2"
        "lookup_job d2 k = Some j2" "terminal j2" "payload j2 = payload j1" by blast
      moreover have "run step d (a # as1) d2"
        using run_Cons.hyps(1) calculation(2) by (rule run.intros(2))
      ultimately show ?thesis using kept(2) by (metis append_Cons)
    qed (simp add: kept(2))
  next
    case purged
    then have "a # as = [] @ Vacuum # as \<and> run step d [] d" by simp
    with purged run_Cons.prems(2) show ?thesis by blast
  qed
qed blast

section \<open>Ownership\<close>

text \<open>
  A job is owned while it is in flight under an instance's lock. Only that instance's
  acknowledgement, a parking of the job and an orphan pass that read the instance as dead
  can end it.
\<close>

definition owned :: "record_key \<Rightarrow> string \<Rightarrow> db \<Rightarrow> bool" where
  "owned k w d \<longleftrightarrow> (\<exists>j. lookup_job d k = Some j \<and> in_flight j \<and> lock_by j = Some w)"

fun releases :: "record_key \<Rightarrow> string \<Rightarrow> action \<Rightarrow> bool" where
  "releases k w (Acknowledge k' w' _ _ _) = (k' = k \<and> w' = w)"
| "releases k w (Park k' _) = (k' = k)"
| "releases k w (Reenqueue _ live _) = (w \<notin> set live)"
| "releases _ _ _ = False"

lemma owner_transition:
  assumes "transition j a j'" and "in_flight j" and "lock_by j = Some w"
    and "\<not> releases (job_id j) w a"
  shows "in_flight j' \<and> lock_by j' = Some w \<and> (status j = Running \<longrightarrow> j' = j)"
  using assms
  by (induction rule: transition.induct)
     (auto simp: row_simps in_flight_def due_def retryable_def lock_guard_def ack_guard_def
       orphaned_def)

interpretation ownership: kept_by_steps step "\<lambda>a. \<not> releases k w a" "\<lambda>d. db_inv d \<and> owned k w d"
  for k w
proof unfold_locales
  fix d a d' assume st: "step d a d'" and nr: "\<not> releases k w a" and "db_inv d \<and> owned k w d"
  then obtain j where inv: "db_inv d" and j: "lookup_job d k = Some j" "in_flight j" "lock_by j = Some w"
    by (auto simp: owned_def)
  have k: "job_id j = k" using lookup_job_Some [OF j(1)] by simp
  from step_row [OF st inv j(1)] row_phases(3) have "owned k w d'"
    using owner_transition [of j a _ w] j nr k inv lookup_job_Some [OF j(1)]
    unfolding owned_def db_inv_def by metis
  with step_db_inv [OF st inv] show "db_inv d' \<and> owned k w d'" ..
qed

interpretation running: kept_by_steps step "\<lambda>a. \<not> releases k w a"
  "\<lambda>d. db_inv d \<and> lookup_job d k = Some j \<and> status j = Running \<and> lock_by j = Some w"
  for k w j
proof unfold_locales
  fix d a d' assume st: "step d a d'" and nr: "\<not> releases k w a"
    and "db_inv d \<and> lookup_job d k = Some j \<and> status j = Running \<and> lock_by j = Some w"
  then have inv: "db_inv d" and j: "lookup_job d k = Some j" "status j = Running" "lock_by j = Some w"
    by auto
  have k: "job_id j = k" using lookup_job_Some [OF j(1)] by simp
  have "in_flight j" "\<not> terminal j" using j(2) by (simp_all add: in_flight_def terminal_def)
  with step_row [OF st inv j(1)] have "lookup_job d' k = Some j"
    using owner_transition [of j a _ w] j nr k by metis
  with step_db_inv [OF st inv] j
  show "db_inv d' \<and> lookup_job d' k = Some j \<and> status j = Running \<and> lock_by j = Some w" by simp
qed

text \<open>C2. A claimed or locked job stays with its instance over any interleaving without a release: no other instance is granted the lock, no acknowledgement by another instance has an effect, and no claim of any kind selects it.\<close>

theorem owner_excludes_others:
  assumes "run step d as d'" and "db_inv d" and "owned k w d"
    and "\<forall>a \<in> set as. \<not> releases k w a" and "other \<noteq> w"
  shows "owned k w d' \<and>
    lock_task_stmt k other t d' = Inr ([], d') \<and>
    ack_task_stmt k other s n r t d' = Inr ([], d') \<and>
    (\<forall>S limit. k \<notin> set (due_ids S limit t d'))"
proof -
  from ownership.run_keeps [OF assms(1,4)] assms(2,3) have inv: "db_inv d'" and o: "owned k w d'" by auto
  from o obtain j where j: "lookup_job d' k = Some j" "in_flight j" "lock_by j = Some w"
    by (auto simp: owned_def)
  have ids: "distinct (map job_id (jobs d'))" using inv by (simp add: db_inv_def)
  have "\<not> due t j" using j(2) by (auto simp: in_flight_def due_def retryable_def)
  then have "k \<notin> set (due_ids S limit t d')" for S limit
    using lookup_job_Some [OF j(1)] distinct_key_eq [OF ids, of j]
    by (auto simp: due_ids_def dest!: due_batch_mem)
  with o j assms(5) lock_task_stmt_cases [OF inv] ack_task_stmt_cases [OF inv] show ?thesis
    by (simp add: lock_guard_def ack_guard_def)
qed

text \<open>C1. A task runs once per lock: after an instance has been granted the lock, no lock on the job is granted again, not even to the same instance, and the row does not change, until that instance acknowledges, the job is parked, or an orphan pass takes the instance for dead.\<close>

theorem lock_granted_once:
  assumes "lock_task_stmt k w t d = Inr (rows, d1)" and "rows \<noteq> []" and "db_inv d"
    and "run step d1 as d2" and "\<forall>a \<in> set as. \<not> releases k w a"
  shows "lookup_job d2 k = lookup_job d1 k \<and>
    (\<forall>other t'. lock_task_stmt k other t' d2 = Inr ([], d2))"
proof -
  from assms(1-3) obtain j where j: "lookup_job d k = Some j" "lock_guard w j"
    and d1: "d1 = snd (update_record k (lock_guard w) (set_running w t) d)"
    using lock_task_stmt_cases [OF assms(3), of k w t] by (auto split: option.splits if_splits)
  let ?j = "set_running w t j"
  have "lookup_job d1 k = Some ?j" using j by (simp add: d1 locked.lookup_update_record)
  moreover have "db_inv d1" using lock_task_db_inv [OF assms(3,1)] .
  ultimately have "db_inv d2 \<and> lookup_job d2 k = Some ?j"
    using running.run_keeps [OF assms(4,5), of ?j] by (simp add: set_running_def)
  with \<open>lookup_job d1 k = Some ?j\<close> lock_task_stmt_cases [of d2 k] show ?thesis
    by (simp add: lock_guard_def set_running_def)
qed

text \<open>C5. Taking over a stranded job: once an orphan pass has returned a job to the queue and another instance has claimed it, that instance is granted the lock with one more attempt on record, while the previous owner, should it still be running the task, can neither lock it again nor record an outcome. The task's code may therefore run more than once, but only the new owner's outcome is stored.\<close>

theorem takeover_fences_old_owner:
  assumes inv: "db_inv d" and j: "lookup_job d k = Some j" "lock_by j = Some w1" and "w2 \<noteq> w1"
    and orphan: "orphaned q live dur t1 j"
    and returned: "reenqueue_update_stmt q live dur t1 d = Inr (rows1, d1)"
    and claim: "fetch_next_stmt q w2 n t2 d1 = Inr (rows2, d2)" and k: "k \<in> job_id ` set rows2"
  shows "(\<exists>j' d3. lock_task_stmt k w2 t3 d2 = Inr ([j'], d3) \<and> status j' = Running \<and>
      attempts j' = attempts j + 1 \<and> payload j' = payload j) \<and>
    lock_task_stmt k w1 t3 d2 = Inr ([], d2) \<and>
    ack_task_stmt k w1 s m r t3 d2 = Inr ([], d2)"
proof -
  have inv1: "db_inv d1" using reenqueue_db_inv [OF inv returned] .
  have inv2: "db_inv d2" using fetch_next_db_inv [OF inv1 claim] .
  have "d1 = d\<lparr>jobs := update_where (orphaned q live dur t1) set_reenqueued (jobs d)\<rparr>"
    using returned by (auto simp: reenqueue_update_stmt_def)
  then have j1: "lookup_job d1 k = Some (set_reenqueued j)"
    using j(1) orphan by (simp add: reenqueued.lookup_update)
  from k obtain x where x: "x \<in> set rows2" "k = job_id x" by blast
  from fetch_next_ids [OF inv1 claim x(1)] have j2: "lookup_job d2 k = Some x" "status x = Queued"
    "lock_by x = Some w2" by (auto simp: x(2))
  have "x = set_claimed w2 t2 (set_reenqueued j)"
    using fetch_next_lookup [OF inv1 claim, of k] j1 j2
    by (auto simp: set_reenqueued_def split: if_splits)
  then have "attempts x = attempts j + 1" "payload x = payload j"
    by (simp_all add: row_simps payload_def)
  with lock_task_stmt_cases [OF inv2] ack_task_stmt_cases [OF inv2] j2 \<open>w2 \<noteq> w1\<close> show ?thesis
    by (simp add: lock_guard_def ack_guard_def set_running_def payload_def)
qed

section \<open>Parked jobs\<close>

definition parked :: "record_key \<Rightarrow> db \<Rightarrow> bool" where
  "parked k d \<longleftrightarrow> (\<exists>j. lookup_job d k = Some j \<and> status j = Killed \<and> lock_by j = None)"

lemma parked_transition:
  assumes "transition j a j'" and "status j = Killed" and "lock_by j = None"
  shows "status j' = Killed \<and> lock_by j' = None"
  using assms
  by (induction rule: transition.induct)
     (auto simp: row_simps due_def retryable_def lock_guard_def ack_guard_def orphaned_def)

interpretation parking: kept_by_steps step "\<lambda>a. a \<noteq> Vacuum" "\<lambda>d. db_inv d \<and> parked k d" for k
proof unfold_locales
  fix d a d' assume st: "step d a d'" and nv: "a \<noteq> Vacuum" and "db_inv d \<and> parked k d"
  then obtain j where inv: "db_inv d" and j: "lookup_job d k = Some j" "status j = Killed" "lock_by j = None"
    by (auto simp: parked_def)
  from step_row [OF st inv j(1)] have "parked k d'"
    using parked_transition [of j a] j nv unfolding parked_def by blast
  with step_db_inv [OF st inv] show "db_inv d' \<and> parked k d'" ..
qed

text \<open>A parked (poison) job stays parked: killed and unlocked, it is never claimed, locked, acknowledged or re-enqueued again, whatever runs, until a vacuum removes it.\<close>

lemma poison_stays_parked:
  assumes "kill_task_stmt k reason t d = Inr (u, d1)" and "lookup_job d k \<noteq> None" and "db_inv d"
    and "run step d1 as d2" and "\<forall>a \<in> set as. a \<noteq> Vacuum"
  shows "\<exists>j. lookup_job d2 k = Some j \<and> status j = Killed \<and>
    (\<forall>S limit t'. k \<notin> set (due_ids S limit t' d2)) \<and>
    (\<forall>w t'. lock_task_stmt k w t' d2 = Inr ([], d2)) \<and>
    (\<forall>w s n r t'. ack_task_stmt k w s n r t' d2 = Inr ([], d2)) \<and>
    (\<forall>q live dur t'. \<not> orphaned q live dur t' j)"
proof -
  have "d1 = snd (update_record k (\<lambda>_. True) (set_killed reason t) d)"
    using assms(1) by (simp add: kill_task_stmt_def)
  then have "parked k d1"
    using assms(2) by (auto simp: parked_def killed.lookup_update_record set_killed_def)
  moreover have "db_inv d1" using kill_task_db_inv [OF assms(3,1)] .
  ultimately have inv: "db_inv d2" and "parked k d2"
    using parking.run_keeps [OF assms(4,5)] by auto
  then obtain j where j: "lookup_job d2 k = Some j" "status j = Killed" "lock_by j = None"
    by (auto simp: parked_def)
  have ids: "distinct (map job_id (jobs d2))" using inv by (simp add: db_inv_def)
  have "k \<notin> set (due_ids S limit t' d2)" for S limit t'
  proof -
    have "\<not> due t' j" using j by (simp add: due_def retryable_def)
    then show ?thesis
      using lookup_job_Some [OF j(1)] distinct_key_eq [OF ids, of j]
      by (auto simp: due_ids_def dest!: due_batch_mem)
  qed
  moreover have "\<not> orphaned q live dur t' j" for q live dur t' using j by (simp add: orphaned_def)
  ultimately show ?thesis
    using j lock_task_stmt_cases [OF inv] ack_task_stmt_cases [OF inv]
    by (simp add: lock_guard_def ack_guard_def)
qed

section \<open>Witnesses\<close>

text \<open>
  One run of the system on the two sample jobs: \<open>w1\<close> claims one, locks it, \<open>w2\<close> claims the
  other, an orphan pass sees both live, \<open>w1\<close> acknowledges, a vacuum purges.
\<close>

definition claimed_one :: db where
  "claimed_one =
     two_jobs\<lparr>jobs := [set_claimed ''w1'' late (new_job sample_row), new_job poison_row]\<rparr>"

definition claimed_both :: db where
  "claimed_both =
     two_jobs\<lparr>jobs := [set_claimed ''w1'' late (new_job sample_row),
       set_claimed ''w2'' late (new_job poison_row)]\<rparr>"

definition locked_one :: db where
  "locked_one =
     two_jobs\<lparr>jobs := [set_running ''w1'' late (set_claimed ''w1'' late (new_job sample_row)),
       new_job poison_row]\<rparr>"

definition locked_claimed :: db where
  "locked_claimed =
     two_jobs\<lparr>jobs := [set_running ''w1'' late (set_claimed ''w1'' late (new_job sample_row)),
       set_claimed ''w2'' late (new_job poison_row)]\<rparr>"

lemma step_claim_one: "step two_jobs (Claim ''emails'' ''w1'' 1) claimed_one"
  using sample_claim_one by (auto simp: claimed_one_def intro: step.claim)

lemma step_claim_two: "step claimed_one (Claim ''emails'' ''w2'' 1) claimed_both"
  using sample_claim_two by (auto simp: claimed_one_def claimed_both_def intro: step.claim)

lemma sample_lock:
  "lock_task_stmt (StringKey ''01A'') ''w1'' late claimed_one =
     Inr ([set_running ''w1'' late (set_claimed ''w1'' late (new_job sample_row))], locked_one)"
  by code_simp

lemma step_claim_locked: "step locked_one (Claim ''emails'' ''w2'' 1) locked_claimed"
proof (rule step.claim)
  show "fetch_next_stmt ''emails'' ''w2'' 1 late locked_one =
      Inr ([set_claimed ''w2'' late (new_job poison_row)], locked_claimed)"
    by code_simp
qed

lemma db_inv_claimed_one: "db_inv claimed_one"
  using step_db_inv [OF step_claim_one db_inv_two_jobs] .

theorem step_refines_life_cycle_witness:
  "lookup_job claimed_one (StringKey ''01A'') = Some (new_job sample_row) \<or>
   (\<exists>j'. lookup_job claimed_one (StringKey ''01A'') = Some j' \<and>
     payload j' = payload (new_job sample_row) \<and>
     edge (Claim ''emails'' ''w1'' 1) (status (new_job sample_row)) (status j')) \<or>
   (Claim ''emails'' ''w1'' 1 = Vacuum \<and> terminal (new_job sample_row) \<and>
     lookup_job claimed_one (StringKey ''01A'') = None)"
  by (rule step_refines_life_cycle [OF step_claim_one db_inv_two_jobs])
     (simp add: lookup_job_def two_jobs_def sample_row_def)

lemma step_push: "step empty_db (Push [sample_row]) sample_db"
proof (rule step.push)
  show "push_tasks_stmt [sample_row] 0 empty_db = Inr ((), sample_db)" by code_simp
qed

theorem reachable_phases_witness: "db_inv sample_db"
proof -
  have "reachable sample_db"
    unfolding reachable_def using run_single [of step, OF step_push] by blast
  from reachable_phases [OF this] show ?thesis by simp
qed

lemma lookup_two_jobs: "lookup_job two_jobs (StringKey ''01A'') = Some (new_job sample_row)"
  by (simp add: lookup_job_def two_jobs_def sample_row_def)

lemma run_claims: "run step two_jobs [Claim ''emails'' ''w1'' 1, Claim ''emails'' ''w2'' 1] claimed_both"
  using step_claim_one step_claim_two by (auto intro: run.intros)

theorem no_job_lost_witness:
  "\<exists>j'. lookup_job claimed_both (StringKey ''01A'') = Some j' \<and> payload j' = payload (new_job sample_row)"
  using no_job_lost [OF run_claims db_inv_two_jobs lookup_two_jobs] by (simp add: Cons_eq_append_conv)

lemma owned_claimed_one: "owned (StringKey ''01A'') ''w1'' claimed_one"
  by (simp add: owned_def lookup_job_def claimed_one_def sample_row_def in_flight_def set_claimed_def
      new_job_def)

lemma run_claim_two: "run step claimed_one [Claim ''emails'' ''w2'' 1] claimed_both"
  using step_claim_two by (auto intro: run.intros)

theorem owner_excludes_others_witness:
  "owned (StringKey ''01A'') ''w1'' claimed_both \<and>
   lock_task_stmt (StringKey ''01A'') ''w2'' late claimed_both = Inr ([], claimed_both)"
  using owner_excludes_others [OF run_claim_two db_inv_claimed_one owned_claimed_one, of "''w2''" late]
  by simp

lemma run_claim_locked: "run step locked_one [Claim ''emails'' ''w2'' 1] locked_claimed"
  using step_claim_locked by (auto intro: run.intros)

theorem lock_granted_once_witness:
  "lock_task_stmt (StringKey ''01A'') ''w1'' (late + 1) locked_claimed = Inr ([], locked_claimed)"
  using lock_granted_once [OF sample_lock _ db_inv_claimed_one run_claim_locked] by simp

definition reclaimed_db :: db where
  "reclaimed_db = busy_db\<lparr>jobs := [set_claimed ''w2'' late (set_reenqueued running_job)]\<rparr>"

lemma sample_reclaim:
  "fetch_next_stmt ''emails'' ''w2'' 10 late (busy_db\<lparr>jobs := [set_reenqueued running_job]\<rparr>) =
     Inr ([set_claimed ''w2'' late (set_reenqueued running_job)], reclaimed_db)"
  by code_simp

theorem takeover_fences_old_owner_witness:
  "ack_task_stmt (StringKey ''01A'') ''w1'' Done 1 (ok_object JNull) late reclaimed_db = Inr ([], reclaimed_db)"
proof -
  have j: "lookup_job busy_db (StringKey ''01A'') = Some running_job" "lock_by running_job = Some ''w1''"
    by (simp_all add: lookup_job_def busy_db_def running_job_def sample_row_def)
  have o: "orphaned ''emails'' [] 1000 late running_job" by code_simp
  have k: "StringKey ''01A'' \<in> job_id ` set [set_claimed ''w2'' late (set_reenqueued running_job)]"
    by (simp add: row_simps running_job_def sample_row_def)
  from takeover_fences_old_owner [OF db_inv_busy j _ o sample_reenqueue sample_reclaim k]
  show ?thesis by simp
qed

end
