(* ===== verification/Typing.thy ===== *)
theory Typing
  imports System
begin

text \<open>
  Well-typed rows. The readers of \<open>src/from_row.rs\<close> take a record id that is a string and
  signed columns that are cast to \<open>usize\<close>. The theory shows that what the crate writes over any
  interleaving of statements is a row these readers understand without loss.
\<close>

section \<open>Rows the crate writes\<close>

text \<open>\<open>n\<close> bounds the recorded attempts; every orphan pass may add one to them.\<close>

definition typed_row :: "nat \<Rightarrow> job \<Rightarrow> bool" where
  "typed_row n j \<longleftrightarrow> (\<exists>ident. job_id j = StringKey ident) \<and> attempts j \<in> {0..int n} \<and>
     max_attempts j \<in> {0..<2 ^ 63} \<and> priority j \<in> {0..<2 ^ 63}"

definition typed :: "nat \<Rightarrow> db \<Rightarrow> bool" where
  "typed n d \<longleftrightarrow> (\<forall>j \<in> set (jobs d). typed_row n j)"

text \<open>
  The statements as the crate issues them: rows to push come from \<open>to_push_row\<close>, for a task whose
  retry budget and priority are not negative, and an acknowledgement records an attempt number
  up to \<open>n\<close>.
\<close>

fun issued :: "nat \<Rightarrow> action \<Rightarrow> bool" where
  "issued n (Push rows) \<longleftrightarrow> (\<forall>r \<in> set rows. \<exists>cl q i task. r = to_push_row cl q i task \<and>
     ctx_max_attempts (part_ctx (snd task)) \<in> {0..<2 ^ 63} \<and>
     ctx_priority (part_ctx (snd task)) \<in> {0..<2 ^ 63})"
| "issued n (Acknowledge k w s m r) \<longleftrightarrow> m \<in> {0..int n}"
| "issued n _ \<longleftrightarrow> True"

section \<open>Where a row comes from\<close>

lemma step_ids:
  "step d a d' \<Longrightarrow> (\<exists>rows. a = Push rows) \<or> job_id ` set (jobs d') \<subseteq> job_id ` set (jobs d)"
  by (induction rule: step.induct)
     (auto simp: stmt_defs update_records_def update_record_def set_update_where row_simps Let_def
       split: if_splits)

lemma step_origin:
  assumes "step d a d'" and "db_inv d" and "j' \<in> set (jobs d')"
  shows "(\<exists>j \<in> set (jobs d). j' = j \<or> transition j a j') \<or>
    (\<exists>rows. a = Push rows \<and> j' \<in> new_job ` set rows)"
proof (cases "\<exists>rows. a = Push rows")
  case True
  then obtain rows where a: "a = Push rows" ..
  from assms(1) have "push_loop rows d = Inr d'"
    unfolding a by cases (simp add: push_tasks_stmt_Inr)
  from push_loop_accepted [OF this] assms(3) accepted_subset have
    "j' \<in> set (jobs d) \<or> j' \<in> new_job ` set rows" by fastforce
  with a show ?thesis by blast
next
  case False
  with step_ids [OF assms(1)] assms(3) obtain j where j: "j \<in> set (jobs d)" "job_id j' = job_id j"
    by blast
  have "distinct (map job_id (jobs d))" "distinct (map job_id (jobs d'))"
    using assms(2) step_db_inv [OF assms(1,2)] by (simp_all add: db_inv_def)
  then have "lookup_job d (job_id j) = Some j" "lookup_job d' (job_id j) = Some j'"
    using lookup_job_mem j assms(3) by metis+
  with step_row [OF assms(1,2)] j(1) show ?thesis by force
qed

lemma typed_row_mono: "typed_row m j \<Longrightarrow> m \<le> n \<Longrightarrow> typed_row n j"
  by (auto simp: typed_row_def)

lemma typed_transition:
  "transition j a j' \<Longrightarrow> issued n a \<Longrightarrow> typed_row n j \<Longrightarrow> typed_row (Suc n) j'"
  by (induction rule: transition.induct) (auto simp: typed_row_def row_simps)

lemma typed_new_job: "issued n (Push rows) \<Longrightarrow> r \<in> set rows \<Longrightarrow> typed_row n (new_job r)"
  by (fastforce simp: typed_row_def new_job_def to_push_row_def Let_def)

lemma typed_step:
  assumes "step d a d'" and "db_inv d" and "issued n a" and "typed n d"
  shows "typed (Suc n) d'"
  unfolding typed_def
proof
  fix j' assume "j' \<in> set (jobs d')"
  from step_origin [OF assms(1,2) this] show "typed_row (Suc n) j'"
    using assms(3,4) typed_transition typed_new_job typed_row_mono [of n _ "Suc n"]
    unfolding typed_def by fastforce
qed

lemma issued_mono: "issued m a \<Longrightarrow> m \<le> n \<Longrightarrow> issued n a"
  by (cases a) auto

lemma typed_run:
  "run step d as d' \<Longrightarrow> db_inv d \<Longrightarrow> \<forall>a \<in> set as. issued n a \<Longrightarrow> typed n d \<Longrightarrow>
    typed (n + length as) d'"
proof (induction arbitrary: n rule: run.induct)
  case (run_Cons d a d1 as d')
  have "typed (Suc n) d1" using typed_step run_Cons.hyps(1) run_Cons.prems by simp
  moreover have "\<forall>a \<in> set as. issued (Suc n) a" using run_Cons.prems(2) issued_mono by fastforce
  ultimately show ?case using run_Cons.IH step_db_inv run_Cons.hyps(1) run_Cons.prems(1) by fastforce
qed simp

lemma typed_row_reads:
  assumes "typed_row n j" and "n < 2 ^ 63"
  shows "\<exists>tr. try_from_row j = Inr tr \<and> StringKey (tr_id tr) = job_id j \<and>
    int (tr_attempts tr) = attempts j \<and>
    map_option int (tr_max_attempts tr) = Some (max_attempts j) \<and>
    map_option int (tr_priority tr) = Some (priority j)"
  using assms by (auto simp: typed_row_def try_from_row.simps as_usize_id)

section \<open>Property\<close>

text \<open>C24. Rows are well typed: after any interleaving of the crate's statements from the empty database, pushes of tasks with a non-negative retry budget and priority, acknowledgements of attempts up to n, and in all fewer than 2^63 - n statements, every row of the job table converts to a task row; its id is the record's, and the casts of attempts, retry budget and priority to usize are exact. Such a row is therefore never parked for a missing id, only for a payload the third-party conversion refuses.\<close>

theorem rows_well_typed:
  assumes "run step empty_db as d" and "\<forall>a \<in> set as. issued n a" and "n + length as < 2 ^ 63"
    and "j \<in> set (jobs d)"
  shows "(\<exists>tr. try_from_row j = Inr tr \<and> StringKey (tr_id tr) = job_id j \<and>
      int (tr_attempts tr) = attempts j \<and>
      map_option int (tr_max_attempts tr) = Some (max_attempts j) \<and>
      map_option int (tr_priority tr) = Some (priority j) \<and>
      decode_row conv j = (case conv tr of Inl e \<Rightarrow> Inl (Row e) | Inr task \<Rightarrow> Inr task))"
proof -
  have "typed n empty_db" by (simp add: typed_def empty_db_def)
  from typed_run [OF assms(1) db_inv_empty assms(2) this] assms(4)
  have "typed_row (n + length as) j" by (simp add: typed_def)
  from typed_row_reads [OF this assms(3)] show ?thesis by (auto simp: decode_row_def)
qed

section \<open>Witness\<close>

lemma push_issued: "issued 5 (Push [to_push_row sample_client ''emails'' 0 (sample_task None)])"
  by (fastforce simp: sample_task_def)

theorem rows_well_typed_witness:
  "\<exists>(d :: db) j tr. jobs d = [j] \<and> attempts j = 1 \<and> try_from_row j = Inr tr \<and> tr_attempts tr = 1"
proof -
  let ?r = "to_push_row sample_client ''emails'' 0 (sample_task None)" and ?k = "StringKey ''01A''"
  let ?as = "[Push [?r], Lock ?k ''w1'', Reenqueue ''emails'' [] 0]"
  let ?j = "new_job ?r"
  let ?d1 = "empty_db\<lparr>jobs := [?j]\<rparr>" and ?j2 = "set_running ''w1'' 10 ?j"
  let ?d2 = "empty_db\<lparr>jobs := [?j2]\<rparr>" and ?d3 = "empty_db\<lparr>jobs := [set_reenqueued ?j2]\<rparr>"
  have "push_tasks_stmt [?r] 0 empty_db = Inr ((), ?d1)" by code_simp
  then have "step empty_db (Push [?r]) ?d1" by (rule step.push)
  moreover have "lock_task_stmt ?k ''w1'' 10 ?d1 = Inr ([?j2], ?d2)" by code_simp
  then have "step ?d1 (Lock ?k ''w1'') ?d2" by (rule step.lock)
  moreover have "reenqueue_update_stmt ''emails'' [] 0 20 ?d2 = Inr ([set_reenqueued ?j2], ?d3)"
    by code_simp
  then have "step ?d2 (Reenqueue ''emails'' [] 0) ?d3" by (rule step.reenqueue)
  ultimately have run: "run step empty_db ?as ?d3" by (auto simp: run_Cons_simp)
  have "\<forall>a \<in> set ?as. issued 5 a" using push_issued by simp
  moreover have "attempts (set_reenqueued ?j2) = 1"
    by (simp add: set_reenqueued_def set_running_def new_job_def)
  ultimately show ?thesis
    using rows_well_typed [OF run, of 5 "set_reenqueued ?j2" sample_conv]
    by (intro exI [of _ ?d3] exI [of _ "set_reenqueued ?j2"]) auto
qed

end
