(* ===== verification/Poll_Fetcher.thy ===== *)
theory Poll_Fetcher
  imports Claim
begin

text \<open>
  \<open>SurrealPollFetcher\<close> of \<open>src/fetcher.rs\<close>: the state machine that claims batches and
  hands them out one task at a time. The poll strategy of \<open>apalis_core\<close> and the executor are
  not part of the repository: what they make ready during one call of \<open>poll_next\<close> is its
  input (how many fetch futures complete, and what the delay stream yields), and whatever is
  not ready is \<open>Poll::Pending\<close>.
\<close>

section \<open>The state machine\<close>

datatype 'a poll = PollPending | PollReady 'a

datatype stream_state =
    StateReady
  | StateDelay
  | StateFetch
  | StateBuffered "compact_task list"
  | StateEmpty

record poll_fetcher =
  pf_state :: stream_state
  pf_delay_stream :: bool
  pf_prev_count :: nat

datatype delay_item = DelayTick | DelayEnd

type_synonym stream_item = "surreal_error + compact_task option"

definition poll_fetcher_new :: poll_fetcher where
  "poll_fetcher_new = \<lparr>pf_state = StateReady, pf_delay_stream = False, pf_prev_count = 0\<rparr>"

text \<open>\<open>Clone\<close> starts over; nothing of the cloned fetcher's state is shared.\<close>

definition poll_fetcher_clone :: "poll_fetcher \<Rightarrow> poll_fetcher" where
  "poll_fetcher_clone f = \<lparr>pf_state = StateReady, pf_delay_stream = False, pf_prev_count = 0\<rparr>"

fun state_rank :: "stream_state \<Rightarrow> nat" where
  "state_rank (StateBuffered []) = 2"
| "state_rank StateReady = 1"
| "state_rank _ = 0"

text \<open>
  The \<open>loop\<close> of \<open>poll_next\<close>. A fetch runs \<open>fetch_next\<close> when its future completes;
  \<open>n\<close> completions and the items \<open>ds\<close> of the delay stream are available.
\<close>

function poll_loop ::
  "env \<Rightarrow> row_conv \<Rightarrow> config \<Rightarrow> string \<Rightarrow> nat \<Rightarrow> delay_item list \<Rightarrow> poll_fetcher \<Rightarrow> world
    \<Rightarrow> stream_item option poll \<times> poll_fetcher \<times> world" where
  "poll_loop env conv cfg inst n ds f w =
     (case pf_state f of
        StateReady \<Rightarrow> poll_loop env conv cfg inst n ds (f\<lparr>pf_state := StateFetch\<rparr>) w
      | StateDelay \<Rightarrow>
          (if pf_delay_stream f
           then (case ds of
                   [] \<Rightarrow> (PollPending, f, w)
                 | DelayTick # ds' \<Rightarrow>
                     poll_loop env conv cfg inst n ds' (f\<lparr>pf_state := StateReady\<rparr>) w
                 | DelayEnd # _ \<Rightarrow> (PollReady None, f\<lparr>pf_state := StateEmpty\<rparr>, w))
           else (PollReady None, f\<lparr>pf_state := StateEmpty\<rparr>, w))
      | StateFetch \<Rightarrow>
          (case n of
             0 \<Rightarrow> (PollPending, f, w)
           | Suc n' \<Rightarrow>
               (case fetch_next env conv cfg inst w of
                  (Inr tasks, w') \<Rightarrow>
                    (let f' = f\<lparr>pf_prev_count := length tasks\<rparr> in
                     poll_loop env conv cfg inst n' ds
                       (if tasks = [] then f'\<lparr>pf_state := StateDelay\<rparr>
                        else f'\<lparr>pf_state := StateBuffered tasks\<rparr>) w')
                | (Inl e, w') \<Rightarrow> (PollReady (Some (Inl e)), f\<lparr>pf_state := StateEmpty\<rparr>, w')))
      | StateBuffered buffer \<Rightarrow>
          (case buffer of
             task # rest \<Rightarrow>
               (PollReady (Some (Inr (Some task))),
                f\<lparr>pf_state := (if rest = [] then StateReady else StateBuffered rest)\<rparr>, w)
           | [] \<Rightarrow> poll_loop env conv cfg inst n ds (f\<lparr>pf_state := StateReady\<rparr>) w)
      | StateEmpty \<Rightarrow> (PollReady None, f, w))"
  by pat_completeness auto

termination
  by (relation "measure (\<lambda>(env, conv, cfg, inst, n, ds, f, w). 3 * (n + length ds) + state_rank (pf_state f))")
     (auto simp: neq_Nil_conv)

declare poll_loop.simps [simp del]

definition poll_next ::
  "env \<Rightarrow> row_conv \<Rightarrow> config \<Rightarrow> string \<Rightarrow> nat \<Rightarrow> delay_item list \<Rightarrow> poll_fetcher \<Rightarrow> world
    \<Rightarrow> stream_item option poll \<times> poll_fetcher \<times> world" where
  "poll_next env conv cfg inst n ds f w =
     poll_loop env conv cfg inst n ds (f\<lparr>pf_delay_stream := True\<rparr>) w"

definition take_pending :: "poll_fetcher \<Rightarrow> compact_task list \<times> poll_fetcher" where
  "take_pending f =
     (case pf_state f of
        StateBuffered tasks \<Rightarrow> (tasks, f\<lparr>pf_state := StateBuffered []\<rparr>)
      | _ \<Rightarrow> ([], f))"

section \<open>Histories\<close>

text \<open>The results of \<open>n\<close> fetches in a row, and what a caller sees of a sequence of polls.\<close>

fun fetches ::
  "env \<Rightarrow> row_conv \<Rightarrow> config \<Rightarrow> string \<Rightarrow> nat \<Rightarrow> world
    \<Rightarrow> (surreal_error + compact_task list) list \<times> world" where
  "fetches env conv cfg inst 0 w = ([], w)"
| "fetches env conv cfg inst (Suc n) w =
     (case fetch_next env conv cfg inst w of
        (r, w') \<Rightarrow> (case fetches env conv cfg inst n w' of (rs, w'') \<Rightarrow> (r # rs, w'')))"

fun polls ::
  "env \<Rightarrow> row_conv \<Rightarrow> config \<Rightarrow> string \<Rightarrow> (nat \<times> delay_item list) list \<Rightarrow> poll_fetcher \<Rightarrow> world
    \<Rightarrow> stream_item option poll list \<times> poll_fetcher \<times> world" where
  "polls env conv cfg inst [] f w = ([], f, w)"
| "polls env conv cfg inst ((n, ds) # ins) f w =
     (case poll_next env conv cfg inst n ds f w of
        (p, f', w') \<Rightarrow>
          (case polls env conv cfg inst ins f' w' of (ps, f'', w'') \<Rightarrow> (p # ps, f'', w'')))"

fun batch :: "surreal_error + compact_task list \<Rightarrow> compact_task list" where
  "batch (Inr tasks) = tasks"
| "batch (Inl _) = []"

fun yielded :: "stream_item option poll \<Rightarrow> compact_task list" where
  "yielded (PollReady (Some (Inr (Some task)))) = [task]"
| "yielded _ = []"

fun buffered :: "stream_state \<Rightarrow> compact_task list" where
  "buffered (StateBuffered tasks) = tasks"
| "buffered _ = []"

lemma fetches_add:
  assumes "fetches env conv cfg inst m w = (rs, w1)" and "fetches env conv cfg inst n w1 = (rs', w2)"
  shows "fetches env conv cfg inst (m + n) w = (rs @ rs', w2)"
  using assms by (induction m arbitrary: w rs) (auto split: prod.splits)

text \<open>
  Conservation of one poll: at most n fetches ran, and what was held and what they brought is what
  was yielded and what is held.
\<close>

definition conserves ::
  "env \<Rightarrow> row_conv \<Rightarrow> config \<Rightarrow> string \<Rightarrow> nat \<Rightarrow> compact_task list \<Rightarrow> world
    \<Rightarrow> stream_item option poll \<Rightarrow> compact_task list \<Rightarrow> world \<Rightarrow> bool" where
  "conserves env conv cfg inst n held w p held' w' \<longleftrightarrow>
     (\<exists>m rs. m \<le> n \<and> fetches env conv cfg inst m w = (rs, w') \<and>
        held @ concat (map batch rs) = yielded p @ held')"

lemma conserves_still: "held = yielded p @ held' \<Longrightarrow> conserves env conv cfg inst n held w p held' w"
  unfolding conserves_def by (intro exI [of _ 0]) simp

lemma conserves_fetch:
  assumes "fetch_next env conv cfg inst w = (r, w1)" and "conserves env conv cfg inst n (batch r) w1 p held' w'"
  shows "conserves env conv cfg inst (Suc n) [] w p held' w'"
proof -
  from assms(2) obtain m rs where "m \<le> n" "fetches env conv cfg inst m w1 = (rs, w')"
    "batch r @ concat (map batch rs) = yielded p @ held'" unfolding conserves_def by blast
  with assms(1) show ?thesis unfolding conserves_def by (intro exI [of _ "Suc m"] exI [of _ "r # rs"]) simp
qed

lemma poll_loop_keeps_tasks:
  "poll_loop env conv cfg inst n ds f w = (p, f', w') \<Longrightarrow>
    conserves env conv cfg inst n (buffered (pf_state f)) w p (buffered (pf_state f')) w'"
proof (induction env conv cfg inst n ds f w rule: poll_loop.induct)
  case (1 env conv cfg inst n ds f w)
  note eq = 1(5) [unfolded poll_loop.simps [of env conv cfg inst n ds f w]]
  show ?case
  proof (cases "pf_state f")
    case StateReady
    with 1(1) eq show ?thesis by simp
  next
    case StateDelay
    with 1(2) [OF StateDelay] eq show ?thesis
      by (auto intro: conserves_still split: if_splits list.splits delay_item.splits)
  next
    case StateFetch
    show ?thesis
    proof (cases n)
      case 0
      with StateFetch eq show ?thesis by (auto intro: conserves_still)
    next
      case (Suc n')
      obtain r w1 where r: "fetch_next env conv cfg inst w = (r, w1)" by fastforce
      have "conserves env conv cfg inst n' (batch r) w1 p (buffered (pf_state f')) w'"
      proof (cases r)
        case (Inl e)
        with StateFetch Suc r eq show ?thesis by (auto intro: conserves_still)
      next
        case (Inr tasks)
        with 1(3) [OF StateFetch Suc r [symmetric] Inr refl] StateFetch Suc r eq show ?thesis
          by (auto simp: Let_def split: if_splits)
      qed
      from conserves_fetch [OF r this] show ?thesis by (simp add: StateFetch Suc)
    qed
  next
    case (StateBuffered buffer)
    with 1(4) [OF StateBuffered] eq show ?thesis
      by (cases buffer) (auto intro: conserves_still split: if_splits)
  next
    case StateEmpty
    with eq show ?thesis by (auto intro: conserves_still)
  qed
qed

lemma poll_loop_conserves:
  assumes "poll_loop env conv cfg inst n ds f w = (p, f', w')"
  shows "\<exists>m rs. m \<le> n \<and> fetches env conv cfg inst m w = (rs, w') \<and>
    buffered (pf_state f) @ concat (map batch rs) = yielded p @ buffered (pf_state f')"
  using poll_loop_keeps_tasks [OF assms] unfolding conserves_def .

lemma poll_loop_ends:
  "poll_loop env conv cfg inst n ds f w = (p, f', w') \<Longrightarrow>
    p = PollReady None \<or> (\<exists>e. p = PollReady (Some (Inl e))) \<Longrightarrow> pf_state f' = StateEmpty"
proof (induction env conv cfg inst n ds f w rule: poll_loop.induct)
  case (1 env conv cfg inst n ds f w)
  from 1(5) [unfolded poll_loop.simps [of env conv cfg inst n ds f w]] 1(1-4) 1(6) show ?case
    by (auto simp: Let_def split: stream_state.splits list.splits nat.splits prod.splits sum.splits
        delay_item.splits if_splits)
qed

lemma poll_next_ends:
  "poll_next env conv cfg inst n ds f w = (p, f', w') \<Longrightarrow>
    p = PollReady None \<or> (\<exists>e. p = PollReady (Some (Inl e))) \<Longrightarrow> pf_state f' = StateEmpty"
  unfolding poll_next_def by (rule poll_loop_ends)

lemma poll_next_empty:
  "pf_state f = StateEmpty \<Longrightarrow>
    poll_next env conv cfg inst n ds f w = (PollReady None, f\<lparr>pf_delay_stream := True\<rparr>, w)"
  by (simp add: poll_next_def poll_loop.simps)

definition within_buffer :: "config \<Rightarrow> poll_fetcher \<Rightarrow> bool" where
  "within_buffer cfg f \<longleftrightarrow> length (buffered (pf_state f)) \<le> cfg_buffer_size cfg"

lemma poll_loop_within:
  "poll_loop env conv cfg inst n ds f w = (p, f', w') \<Longrightarrow> within_buffer cfg f \<Longrightarrow> within_buffer cfg f'"
proof (induction env conv cfg inst n ds f w rule: poll_loop.induct)
  case (1 env conv cfg inst n ds f w)
  from 1(5) [unfolded poll_loop.simps [of env conv cfg inst n ds f w]] 1(1-4) 1(6)
    fetch_next_length [of env conv cfg inst w]
  show ?case
    by (auto simp: Let_def within_buffer_def split: stream_state.splits list.splits nat.splits
        prod.splits sum.splits delay_item.splits if_splits)
qed

lemma polls_Nil_ends:
  "pf_state f = StateEmpty \<Longrightarrow> polls env conv cfg inst ins f w = (ps, f', w') \<Longrightarrow>
    ps = replicate (length ins) (PollReady None) \<and> w' = w"
  by (induction env conv cfg inst ins f w arbitrary: ps rule: polls.induct)
     (auto simp: poll_next_empty split: prod.splits)

section \<open>Properties\<close>

text \<open>C31. The poll stream neither loses, duplicates nor reorders tasks: whatever becomes ready during any number of polls, the tasks handed out so far followed by the tasks still buffered are the batches of the completed fetches, in the order in which they were claimed.\<close>

theorem poll_stream_fifo:
  assumes "polls env conv cfg inst ins f w = (ps, f', w')"
  shows "\<exists>m rs. m \<le> sum_list (map fst ins) \<and> fetches env conv cfg inst m w = (rs, w') \<and>
    buffered (pf_state f) @ concat (map batch rs) =
      concat (map yielded ps) @ buffered (pf_state f')"
  using assms
proof (induction env conv cfg inst ins f w arbitrary: ps rule: polls.induct)
  case (1 env conv cfg inst f w)
  then show ?case by (intro exI [of _ 0]) simp
next
  case (2 env conv cfg inst n ds ins f w)
  obtain p f1 w1 where p: "poll_next env conv cfg inst n ds f w = (p, f1, w1)"
    by (cases "poll_next env conv cfg inst n ds f w") auto
  obtain ps' where ps': "polls env conv cfg inst ins f1 w1 = (ps', f', w')" "ps = p # ps'"
    using 2(2) p by (auto split: prod.splits)
  from poll_loop_conserves [OF p [unfolded poll_next_def]] obtain m rs where
    m: "m \<le> n" "fetches env conv cfg inst m w = (rs, w1)"
      "buffered (pf_state f) @ concat (map batch rs) = yielded p @ buffered (pf_state f1)"
    by auto
  from 2(1) [OF p [symmetric] refl ps'(1)] obtain m' rs' where
    m': "m' \<le> sum_list (map fst ins)" "fetches env conv cfg inst m' w1 = (rs', w')"
      "buffered (pf_state f1) @ concat (map batch rs') = concat (map yielded ps') @ buffered (pf_state f')"
    by auto
  have "buffered (pf_state f) @ concat (map batch (rs @ rs')) =
      concat (map yielded ps) @ buffered (pf_state f')"
  proof -
    have "buffered (pf_state f) @ concat (map batch (rs @ rs')) =
        (buffered (pf_state f) @ concat (map batch rs)) @ concat (map batch rs')" by simp
    also have "\<dots> = yielded p @ (buffered (pf_state f1) @ concat (map batch rs'))"
      unfolding m(3) by simp
    also have "\<dots> = concat (map yielded ps) @ buffered (pf_state f')"
      unfolding m'(3) ps'(2) by simp
    finally show ?thesis .
  qed
  with m(1) m'(1) fetches_add [OF m(2) m'(2)] show ?case
    by (intro exI [of _ "m + m'"] exI [of _ "rs @ rs'"]) simp
qed

text \<open>An error ends the poll stream for good: once it has reported a failed fetch (or its end), every later poll returns the end of the stream and sends no request, whatever becomes ready.\<close>

lemma poll_stream_ends_on_error:
  assumes "poll_next env conv cfg inst n ds f w = (p, f1, w1)"
    and "p = PollReady None \<or> (\<exists>e. p = PollReady (Some (Inl e)))"
    and "polls env conv cfg inst ins f1 w1 = (ps, f2, w2)"
  shows "ps = replicate (length ins) (PollReady None) \<and> w2 = w1"
  using polls_Nil_ends [OF poll_next_ends [OF assms(1,2)] assms(3)] .

text \<open>Conflicts are not survived by the poll stream: when the claim of a fetch meets a transaction conflict at each of its MAX_TX_RETRIES attempts, the stream reports that conflict and is at its end.\<close>

lemma poll_stream_conflicts_end:
  assumes "pf_state f = StateReady \<or> pf_state f = StateFetch"
    and "\<forall>i < MAX_TX_RETRIES. conflict_at env (trips w + i) = Some (e i)"
  shows "\<exists>f1 w1. poll_next env conv cfg inst (Suc n) ds f w =
      (PollReady (Some (Inl (Database (e 4)))), f1, w1) \<and>
    poll_next env conv cfg inst m ds' f1 w1 = (PollReady None, f1, w1)"
proof -
  let ?f = "f\<lparr>pf_delay_stream := True\<rparr>"
  have "fst (fetch_next env conv cfg inst w) = Inl (Database (e 4))"
    using fetch_next_conflicts [OF assms(2)] by (simp add: MAX_TX_RETRIES_def)
  then obtain w1 where w1: "fetch_next env conv cfg inst w = (Inl (Database (e 4)), w1)"
    by (metis prod.collapse)
  have "poll_next env conv cfg inst (Suc n) ds f w =
      (PollReady (Some (Inl (Database (e 4)))), ?f\<lparr>pf_state := StateEmpty\<rparr>, w1)"
    using assms(1) by (auto simp: poll_next_def poll_loop.simps w1)
  then show ?thesis
    using poll_next_empty [of "?f\<lparr>pf_state := StateEmpty\<rparr>" env conv cfg inst m ds' w1] by simp
qed

text \<open>The poll stream claims only what it can hand out next: while tasks are buffered a poll hands out the first of them without a request, after an empty fetch it waits for the poll strategy without a request, and at no time are more than the configured buffer size held.\<close>

lemma poll_stream_backpressure:
  assumes "polls env conv cfg inst ins poll_fetcher_new w = (ps, f', w')"
  shows "length (buffered (pf_state f')) \<le> cfg_buffer_size cfg \<and>
    (\<forall>t ts. pf_state f' = StateBuffered (t # ts) \<longrightarrow>
       (\<exists>f''. poll_next env conv cfg inst n ds f' w' = (PollReady (Some (Inr (Some t))), f'', w') \<and>
          buffered (pf_state f'') = ts)) \<and>
    (pf_state f' = StateDelay \<longrightarrow>
       poll_next env conv cfg inst n [] f' w' = (PollPending, f'\<lparr>pf_delay_stream := True\<rparr>, w'))"
proof -
  have "within_buffer cfg f'" if "within_buffer cfg f" "polls env conv cfg inst ins f w = (ps, f', w')"
    for f w ps
    using that
  proof (induction ins arbitrary: f w ps)
    case (Cons i ins)
    obtain p f1 w1 where p: "poll_next env conv cfg inst (fst i) (snd i) f w = (p, f1, w1)"
      by (cases "poll_next env conv cfg inst (fst i) (snd i) f w") auto
    have "within_buffer cfg (f\<lparr>pf_delay_stream := True\<rparr>)"
      using Cons.prems(1) by (simp add: within_buffer_def)
    from poll_loop_within [OF p [unfolded poll_next_def] this] Cons.IH Cons.prems(2) p show ?case
      by (cases i) (auto split: prod.splits)
  qed simp
  moreover have "within_buffer cfg poll_fetcher_new" by (simp add: within_buffer_def poll_fetcher_new_def)
  ultimately have "within_buffer cfg f'" using assms by blast
  then show ?thesis by (auto simp: within_buffer_def poll_next_def poll_loop.simps)
qed

section \<open>Witnesses\<close>

definition handed_task :: compact_task where
  "handed_task =
     ([42], \<lparr>part_task_id = Some ''01A'', part_run_at = 0, part_idempotency_key = Some ''k'',
        part_attempt = 0, part_status = Queued,
        part_ctx = \<lparr>ctx_max_attempts = 25, ctx_priority = 0, ctx_meta = [],
                    ctx_queue = Some ''emails'', ctx_lock_by = Some ''w1''\<rparr>\<rparr>)"

lemma sample_decoded: "decoded sample_conv (claimed_rows ''w1'') = [handed_task]"
  by (simp add: decoded_def claimed_rows_def List.map_filter_simps decode_row_def try_from_row.simps
      set_claimed_def new_job_def sample_row_def poison_row_def sample_conv_def handed_task_def
      as_usize_id)

lemma sample_fetch_tasks:
  "\<exists>w'. fetch_next (calm late) sample_conv sample_config ''w1'' two_jobs_world = (Inr [handed_task], w')"
proof -
  have n: "as_i64 (int (cfg_buffer_size sample_config)) = 10"
    by (simp add: sample_config_def as_i64_id)
  have "fetch_next_stmt (cfg_queue sample_config) ''w1''
      (as_i64 (int (cfg_buffer_size sample_config))) late (store two_jobs_world) =
    Inr (claimed_rows ''w1'', two_jobs\<lparr>jobs := claimed_rows ''w1''\<rparr>)"
    unfolding n using sample_claim by (simp add: sample_config_def two_jobs_world_def)
  from fetch_next_calm [OF this] show ?thesis
    using sample_decoded fst_decode_rows [of "calm late" sample_conv "claimed_rows ''w1''"]
    by (auto split: prod.splits) (metis fst_conv)
qed

lemma sample_poll:
  "\<exists>w'. polls (calm late) sample_conv sample_config ''w1'' [(0, []), (1, [])] poll_fetcher_new two_jobs_world =
     ([PollPending, PollReady (Some (Inr (Some handed_task)))],
      \<lparr>pf_state = StateReady, pf_delay_stream = True, pf_prev_count = 1\<rparr>, w')"
  using sample_fetch_tasks
  by (auto simp: poll_next_def poll_fetcher_new_def poll_loop.simps)

theorem poll_stream_fifo_witness:
  "\<exists>m rs. m \<le> 1 \<and> concat (map batch rs) = [handed_task] \<and>
     fst (fetches (calm late) sample_conv sample_config ''w1'' m two_jobs_world) = rs"
proof -
  obtain w' where p: "polls (calm late) sample_conv sample_config ''w1'' [(0, []), (1, [])]
      poll_fetcher_new two_jobs_world =
     ([PollPending, PollReady (Some (Inr (Some handed_task)))],
      \<lparr>pf_state = StateReady, pf_delay_stream = True, pf_prev_count = 1\<rparr>, w')"
    using sample_poll by blast
  from poll_stream_fifo [OF p] obtain m rs where
    "m \<le> 1" "fetches (calm late) sample_conv sample_config ''w1'' m two_jobs_world = (rs, w')"
    "concat (map batch rs) = [handed_task]"
    by (auto simp: poll_fetcher_new_def)
  then show ?thesis by (intro exI [of _ m] exI [of _ rs]) simp
qed

end
