(* ===== verification/Live_Fetcher.thy ===== *)
theory Live_Fetcher
  imports Poll_Fetcher
begin

text \<open>
  \<open>SurrealLiveFetcher\<close> of \<open>src/fetcher.rs\<close>: subscribing to the live query on the job table,
  waking the backend on created jobs, and backing off between failed subscriptions. The
  subscription, the notification stream and the timer are outside the repository: what each of
  them has ready during one poll is an input.
\<close>

section \<open>The state machine\<close>

datatype live_action = ActionCreate | ActionUpdate | ActionDelete | ActionKilled

datatype notification = Notified live_action | NotificationError db_error | NotificationsEnd

datatype live_state = LiveInit | LiveSubscribing | LiveActive | LiveBackoff nat

record live_fetcher =
  lf_state :: live_state
  lf_backoff :: nat

text \<open>What is ready: results of subscriptions, items of the notification stream, elapsed delays.\<close>

record live_inputs =
  subscriptions :: "db_error option list"
  notifications :: "notification list"
  elapsed :: nat

definition BACKOFF_BASE :: nat where
  "BACKOFF_BASE = 1000000000"

definition BACKOFF_CAP :: nat where
  "BACKOFF_CAP = 30 * 1000000000"

definition next_backoff :: "nat \<Rightarrow> nat" where
  "next_backoff b = min (b * 2) BACKOFF_CAP"

definition live_fetcher_new :: live_fetcher where
  "live_fetcher_new = \<lparr>lf_state = LiveInit, lf_backoff = BACKOFF_BASE\<rparr>"

definition live_fetcher_clone :: "live_fetcher \<Rightarrow> live_fetcher" where
  "live_fetcher_clone f = live_fetcher_new"

fun live_rank :: "live_state \<Rightarrow> nat" where
  "live_rank LiveInit = 1"
| "live_rank _ = 0"

definition inputs_size :: "live_inputs \<Rightarrow> nat" where
  "inputs_size i = length (subscriptions i) + length (notifications i) + elapsed i"

text \<open>
  The \<open>loop\<close> of \<open>poll_next\<close>; the inputs that are left are returned. A subscription result is
  \<open>None\<close> for \<open>Ok\<close> and \<open>Some\<close> of the error.
\<close>

function live_poll_next :: "live_inputs \<Rightarrow> live_fetcher \<Rightarrow> unit option poll \<times> live_inputs \<times> live_fetcher"
where
  "live_poll_next i f =
     (case lf_state f of
        LiveInit \<Rightarrow> live_poll_next i (f\<lparr>lf_state := LiveSubscribing\<rparr>)
      | LiveSubscribing \<Rightarrow>
          (case subscriptions i of
             [] \<Rightarrow> (PollPending, i, f)
           | None # rest \<Rightarrow> live_poll_next (i\<lparr>subscriptions := rest\<rparr>) (f\<lparr>lf_state := LiveActive\<rparr>)
           | Some e # rest \<Rightarrow>
               live_poll_next (i\<lparr>subscriptions := rest\<rparr>)
                 (f\<lparr>lf_state := LiveBackoff (lf_backoff f), lf_backoff := next_backoff (lf_backoff f)\<rparr>))
      | LiveActive \<Rightarrow>
          (case notifications i of
             [] \<Rightarrow> (PollPending, i, f)
           | Notified a # rest \<Rightarrow>
               (let f' = f\<lparr>lf_backoff := BACKOFF_BASE\<rparr>; i' = i\<lparr>notifications := rest\<rparr> in
                if a = ActionCreate then (PollReady (Some ()), i', f') else live_poll_next i' f')
           | NotificationError e # rest \<Rightarrow> live_poll_next (i\<lparr>notifications := rest\<rparr>) f
           | NotificationsEnd # rest \<Rightarrow>
               live_poll_next (i\<lparr>notifications := rest\<rparr>)
                 (f\<lparr>lf_state := LiveBackoff (lf_backoff f), lf_backoff := next_backoff (lf_backoff f)\<rparr>))
      | LiveBackoff delay \<Rightarrow>
          (case elapsed i of
             0 \<Rightarrow> (PollPending, i, f)
           | Suc n \<Rightarrow> live_poll_next (i\<lparr>elapsed := n\<rparr>) (f\<lparr>lf_state := LiveInit\<rparr>)))"
  by pat_completeness auto

termination
  by (relation "measure (\<lambda>(i, f). 2 * inputs_size i + live_rank (lf_state f))")
     (auto simp: inputs_size_def)

declare live_poll_next.simps [simp del]

section \<open>Histories\<close>

text \<open>Polling until nothing is ready: the wake-ups, and the state in which the fetcher waits.\<close>

fun creates :: "notification list \<Rightarrow> nat" where
  "creates [] = 0"
| "creates (Notified ActionCreate # ns) = Suc (creates ns)"
| "creates (_ # ns) = creates ns"

definition backoff_inv :: "live_fetcher \<Rightarrow> bool" where
  "backoff_inv f \<longleftrightarrow>
     BACKOFF_BASE \<le> lf_backoff f \<and> lf_backoff f \<le> BACKOFF_CAP \<and>
     (case lf_state f of LiveBackoff d \<Rightarrow> BACKOFF_BASE \<le> d \<and> d \<le> BACKOFF_CAP | _ \<Rightarrow> True)"

lemma next_backoff_bounds:
  "BACKOFF_BASE \<le> b \<Longrightarrow> BACKOFF_BASE \<le> next_backoff b \<and> next_backoff b \<le> BACKOFF_CAP"
  by (simp add: next_backoff_def BACKOFF_BASE_def BACKOFF_CAP_def)

lemma backoff_inv_new: "backoff_inv live_fetcher_new"
  by (simp add: backoff_inv_def live_fetcher_new_def BACKOFF_BASE_def BACKOFF_CAP_def)

lemma creates_append [simp]: "creates (xs @ ys) = creates xs + creates ys"
  by (induction xs rule: creates.induct) simp_all

lemma creates_Cons:
  "creates (n # ns) = (if n = Notified ActionCreate then Suc (creates ns) else creates ns)"
proof (cases n)
  case (Notified a)
  then show ?thesis by (cases a) simp_all
qed simp_all

text \<open>Wake-ups of one poll, and of the notifications it consumed.\<close>

fun wakes :: "unit option poll \<Rightarrow> nat" where
  "wakes (PollReady (Some ())) = 1"
| "wakes _ = 0"

lemma live_poll_keeps: "live_poll_next i f = (p, i', f') \<Longrightarrow> backoff_inv f \<Longrightarrow> backoff_inv f'"
proof (induction i f rule: live_poll_next.induct)
  case (1 i f)
  note eq = 1(8) [unfolded live_poll_next.simps [of i f]]
  show ?case
  proof (cases "lf_state f")
    case LiveInit
    with 1(1,9) eq show ?thesis by (simp add: backoff_inv_def)
  next
    case LiveSubscribing
    with 1(2,3,9) eq next_backoff_bounds [of "lf_backoff f"] show ?thesis
      by (auto simp: backoff_inv_def split: list.splits option.splits)
  next
    case LiveActive
    with 1(4,5,6,9) eq next_backoff_bounds [of "lf_backoff f"] show ?thesis
      by (auto simp: backoff_inv_def Let_def BACKOFF_BASE_def BACKOFF_CAP_def
          split: list.splits notification.splits if_splits)
  next
    case (LiveBackoff d)
    with 1(7,9) eq show ?thesis by (auto simp: backoff_inv_def split: nat.splits)
  qed
qed

lemma live_poll_consumes:
  "live_poll_next i f = (p, i', f') \<Longrightarrow>
    p \<noteq> PollReady None \<and> (\<exists>ns. notifications i = ns @ notifications i' \<and> creates ns = wakes p)"
proof (induction i f rule: live_poll_next.induct)
  case (1 i f)
  note eq = 1(8) [unfolded live_poll_next.simps [of i f]]
  show ?case
  proof (cases "lf_state f")
    case LiveInit
    with 1(1) eq show ?thesis by simp
  next
    case LiveSubscribing
    with 1(2,3) eq show ?thesis by (auto split: list.splits option.splits)
  next
    case LiveActive
    show ?thesis
    proof (cases "notifications i")
      case Nil
      with LiveActive eq show ?thesis by auto
    next
      case (Cons n rest)
      have "p \<noteq> PollReady None \<and> (\<exists>ns. rest = ns @ notifications i' \<and>
          creates ns + creates [n] = wakes p)"
        using LiveActive Cons 1(4,5,6) eq
        by (cases n) (auto simp: Let_def creates_Cons split: if_splits)
      then obtain ns where "p \<noteq> PollReady None" "rest = ns @ notifications i'"
        "creates ns + creates [n] = wakes p" by blast
      with Cons show ?thesis by (intro conjI exI [of _ "n # ns"]) (auto simp: creates_Cons)
    qed
  next
    case (LiveBackoff d)
    with 1(7) eq show ?thesis by (auto split: nat.splits)
  qed
qed

lemma live_poll_ready:
  "live_poll_next i f = (p, i', f') \<Longrightarrow> p = PollReady (Some ()) \<Longrightarrow>
    lf_state f' = LiveActive \<and> lf_backoff f' = BACKOFF_BASE"
proof (induction i f rule: live_poll_next.induct)
  case (1 i f)
  note eq = 1(8) [unfolded live_poll_next.simps [of i f]]
  show ?case
    using 1(1-7,9) eq
    by (auto simp: Let_def split: live_state.splits list.splits option.splits notification.splits
        nat.splits if_splits)
qed

text \<open>Polling again and again, with more inputs becoming ready before each poll.\<close>

definition more_inputs :: "live_inputs \<Rightarrow> live_inputs \<Rightarrow> live_inputs" where
  "more_inputs i j =
     \<lparr>subscriptions = subscriptions i @ subscriptions j,
      notifications = notifications i @ notifications j, elapsed = elapsed i + elapsed j\<rparr>"

fun live_polls ::
  "live_inputs list \<Rightarrow> live_inputs \<Rightarrow> live_fetcher \<Rightarrow> unit option poll list \<times> live_inputs \<times> live_fetcher"
where
  "live_polls [] i f = ([], i, f)"
| "live_polls (j # js) i f =
     (case live_poll_next (more_inputs i j) f of
        (p, i', f') \<Rightarrow> (case live_polls js i' f' of (ps, i'', f'') \<Rightarrow> (p # ps, i'', f'')))"

section \<open>Properties\<close>

text \<open>The live fetcher wakes the backend once for every created job it is notified of and for nothing else: over any sequence of polls the number of wake-ups equals the number of create notifications consumed, notifications are consumed in order, the stream never ends, and a waiting fetcher always holds a back-off between the base and the cap.\<close>

lemma live_wakes_per_create:
  assumes "live_polls js i live_fetcher_new = (ps, i', f')"
  shows "\<exists>ns. notifications i @ concat (map notifications js) = ns @ notifications i' \<and>
    sum_list (map wakes ps) = creates ns \<and> PollReady None \<notin> set ps \<and> backoff_inv f'"
proof -
  have "\<exists>ns. notifications i @ concat (map notifications js) = ns @ notifications i' \<and>
      sum_list (map wakes ps) = creates ns \<and> PollReady None \<notin> set ps \<and> backoff_inv f'"
    if "live_polls js i f = (ps, i', f')" "backoff_inv f" for f
    using that
  proof (induction js arbitrary: i f ps)
    case (Cons j js)
    obtain p i1 f1 where p: "live_poll_next (more_inputs i j) f = (p, i1, f1)"
      by (cases "live_poll_next (more_inputs i j) f") auto
    obtain ps' where ps: "live_polls js i1 f1 = (ps', i', f')" "ps = p # ps'"
      using Cons.prems(1) p by (auto split: prod.splits)
    from live_poll_consumes [OF p] obtain ns where
      ns: "notifications i @ notifications j = ns @ notifications i1" "creates ns = wakes p"
        "p \<noteq> PollReady None"
      by (auto simp: more_inputs_def)
    from Cons.IH [OF ps(1) live_poll_keeps [OF p Cons.prems(2)]] obtain ns' where
      ns': "notifications i1 @ concat (map notifications js) = ns' @ notifications i'"
        "sum_list (map wakes ps') = creates ns'" "PollReady None \<notin> set ps'" "backoff_inv f'" by blast
    have "notifications i @ concat (map notifications (j # js)) = (ns @ ns') @ notifications i'"
    proof -
      have "notifications i @ concat (map notifications (j # js)) =
          (notifications i @ notifications j) @ concat (map notifications js)" by simp
      also have "\<dots> = ns @ (notifications i1 @ concat (map notifications js))" unfolding ns(1) by simp
      finally show ?thesis unfolding ns'(1) by simp
    qed
    moreover have "sum_list (map wakes ps) = creates (ns @ ns')" by (simp add: ps(2) ns(2) ns'(2))
    moreover have "PollReady None \<notin> set ps" using ns(3) ns'(3) by (auto simp: ps(2))
    ultimately show ?case using ns'(4) by blast
  qed auto
  with assms backoff_inv_new show ?thesis by blast
qed

lemma next_backoff_pow: "(next_backoff ^^ k) BACKOFF_BASE = min (2 ^ k * BACKOFF_BASE) BACKOFF_CAP"
  by (induction k) (auto simp: next_backoff_def BACKOFF_BASE_def BACKOFF_CAP_def min_def)

lemma live_poll_failures:
  "live_poll_next \<lparr>subscriptions = map Some (e # es), notifications = ns, elapsed = length es\<rparr>
     \<lparr>lf_state = LiveInit, lf_backoff = b\<rparr> =
   (PollPending, \<lparr>subscriptions = [], notifications = ns, elapsed = 0\<rparr>,
    \<lparr>lf_state = LiveBackoff ((next_backoff ^^ length es) b),
     lf_backoff = (next_backoff ^^ Suc (length es)) b\<rparr>)"
proof (induction es arbitrary: e b)
  case Nil
  show ?case by (simp add: live_poll_next.simps)
next
  case (Cons e' es)
  show ?case
    using Cons.IH [of e' "next_backoff b"]
    by (simp add: live_poll_next.simps funpow_swap1 del: funpow.simps)
       (simp add: funpow_swap1)
qed

text \<open>Failing subscriptions back off exponentially: after k+1 failures in a row, with every delay elapsing, a new fetcher waits for the base doubled k times, capped, and a delivered creation resets the back-off to the base.\<close>

lemma live_backoff_schedule:
  "live_poll_next \<lparr>subscriptions = map Some (e # es), notifications = ns, elapsed = length es\<rparr>
     live_fetcher_new =
   (PollPending, \<lparr>subscriptions = [], notifications = ns, elapsed = 0\<rparr>,
    \<lparr>lf_state = LiveBackoff (min (2 ^ length es * BACKOFF_BASE) BACKOFF_CAP),
     lf_backoff = min (2 ^ Suc (length es) * BACKOFF_BASE) BACKOFF_CAP\<rparr>) \<and>
   (fst (live_poll_next i f) = PollReady (Some ()) \<longrightarrow>
     lf_state (snd (snd (live_poll_next i f))) = LiveActive \<and>
     lf_backoff (snd (snd (live_poll_next i f))) = BACKOFF_BASE)"
  using live_poll_failures [of e es ns BACKOFF_BASE] live_poll_ready [of i f]
  unfolding live_fetcher_new_def next_backoff_pow
  by (cases "live_poll_next i f") (intro conjI impI, assumption, simp_all)

section \<open>A sample\<close>

definition busy :: live_inputs where
  "busy = \<lparr>subscriptions = [None], notifications = [Notified ActionUpdate, Notified ActionCreate,
     Notified ActionDelete, Notified ActionCreate], elapsed = 0\<rparr>"

end
