(* ===== verification/Sink.thy ===== *)
theory Sink
  imports Poll_Fetcher
begin

text \<open>
  \<open>src/sink.rs\<close>: the buffered sink through which producers push. A flush future owns the
  batch that was in the buffer when it was created; how many such futures complete during one
  call of \<open>poll_flush\<close> is an input, since the executor is outside the repository.
\<close>

section \<open>Operations\<close>

record sink =
  sink_buffer :: "compact_task list"
  sink_flush :: "compact_task list option"

definition sink_new :: sink where
  "sink_new = \<lparr>sink_buffer = [], sink_flush = None\<rparr>"

definition sink_clone :: "sink \<Rightarrow> sink" where
  "sink_clone s = \<lparr>sink_buffer = [], sink_flush = None\<rparr>"

definition poll_ready :: "sink \<Rightarrow> (surreal_error + unit) poll" where
  "poll_ready s = PollReady (Inr ())"

definition start_send :: "compact_task \<Rightarrow> sink \<Rightarrow> (surreal_error + unit) \<times> sink" where
  "start_send item s = (Inr (), s\<lparr>sink_buffer := sink_buffer s @ [item]\<rparr>)"

text \<open>
  The \<open>loop\<close> of \<open>poll_flush\<close>. A completed flush runs \<open>push_tasks\<close>, with the clock and the ids
  of its client taken at that time. Continuing with no flush in flight is the part of the loop
  body after the \<open>if let\<close>.
\<close>

function poll_flush ::
  "env \<Rightarrow> (nat \<Rightarrow> client) \<Rightarrow> config \<Rightarrow> nat \<Rightarrow> sink \<Rightarrow> world
    \<Rightarrow> (surreal_error + unit) poll \<times> sink \<times> world" where
  "poll_flush env cl cfg n s w =
     (case sink_flush s of
        Some b \<Rightarrow>
          (case n of
             0 \<Rightarrow> (PollPending, s, w)
           | Suc n' \<Rightarrow>
               (case push_tasks env (cl (trips w)) cfg b w of
                  (Inr _, w') \<Rightarrow> poll_flush env cl cfg n' (s\<lparr>sink_flush := None\<rparr>) w'
                | (Inl e, w') \<Rightarrow> (PollReady (Inl e), s\<lparr>sink_flush := None\<rparr>, w')))
      | None \<Rightarrow>
          (if sink_buffer s = [] then (PollReady (Inr ()), s, w)
           else poll_flush env cl cfg n
                  (s\<lparr>sink_buffer := [], sink_flush := Some (sink_buffer s)\<rparr>) w))"
  by pat_completeness auto

termination
  by (relation "measure (\<lambda>(env, cl, cfg, n, s, w). 2 * n + (if sink_flush s = None then 1 else 0))") auto

declare poll_flush.simps [simp del]

definition poll_close ::
  "env \<Rightarrow> (nat \<Rightarrow> client) \<Rightarrow> config \<Rightarrow> nat \<Rightarrow> sink \<Rightarrow> world
    \<Rightarrow> (surreal_error + unit) poll \<times> sink \<times> world" where
  "poll_close env cl cfg n s w = poll_flush env cl cfg n s w"

section \<open>The reference: pushing the pending batches in order\<close>

text \<open>The batches a sink still owes the database, the one in flight first.\<close>

definition pending :: "sink \<Rightarrow> compact_task list list" where
  "pending s =
     (case sink_flush s of Some b \<Rightarrow> [b] | None \<Rightarrow> []) @
     (if sink_buffer s = [] then [] else [sink_buffer s])"

fun push_all ::
  "env \<Rightarrow> (nat \<Rightarrow> client) \<Rightarrow> config \<Rightarrow> compact_task list list \<Rightarrow> world
    \<Rightarrow> (surreal_error + unit) \<times> world" where
  "push_all env cl cfg [] w = (Inr (), w)"
| "push_all env cl cfg (b # bs) w =
     (case push_tasks env (cl (trips w)) cfg b w of
        (Inr _, w') \<Rightarrow> push_all env cl cfg bs w'
      | (Inl e, w') \<Rightarrow> (Inl e, w'))"

lemma pending_flushing: "sink_flush s = Some b \<Longrightarrow> pending s = b # pending (s\<lparr>sink_flush := None\<rparr>)"
  by (simp add: pending_def)

lemma pending_buffered:
  "sink_flush s = None \<Longrightarrow> sink_buffer s \<noteq> [] \<Longrightarrow>
    pending s = pending (s\<lparr>sink_buffer := [], sink_flush := Some (sink_buffer s)\<rparr>)"
  by (simp add: pending_def)

definition flush_outcome ::
  "env \<Rightarrow> (nat \<Rightarrow> client) \<Rightarrow> config \<Rightarrow> nat \<Rightarrow> sink \<Rightarrow> world
    \<Rightarrow> (surreal_error + unit) poll \<Rightarrow> sink \<Rightarrow> world \<Rightarrow> compact_task list list \<Rightarrow> world \<Rightarrow> bool"
where
  "flush_outcome env cl cfg n s w p s' w' pushed w1 \<longleftrightarrow>
     push_all env cl cfg pushed w = (Inr (), w1) \<and>
     (case p of
        PollPending \<Rightarrow>
          pending s = pushed @ pending s' \<and> pending s' \<noteq> [] \<and> length pushed = n \<and> w' = w1
      | PollReady (Inr _) \<Rightarrow> pending s = pushed \<and> pending s' = [] \<and> w' = w1
      | PollReady (Inl e) \<Rightarrow>
          (\<exists>failed. pending s = pushed @ failed # pending s' \<and>
             push_tasks env (cl (trips w1)) cfg failed w1 = (Inl e, w')))"

lemma flush_outcome_pending:
  "pending s = pending t \<Longrightarrow>
    flush_outcome env cl cfg n s w p s' w' pushed w1 = flush_outcome env cl cfg n t w p s' w' pushed w1"
  unfolding flush_outcome_def by (simp split: poll.split sum.split)

lemma flush_outcome_step:
  assumes "push_tasks env (cl (trips w)) cfg b w = (Inr u, w0)"
    and "flush_outcome env cl cfg n (s\<lparr>sink_flush := None\<rparr>) w0 p s' w' pushed w1"
    and "sink_flush s = Some b"
  shows "flush_outcome env cl cfg (Suc n) s w p s' w' (b # pushed) w1"
  using assms pending_flushing [OF assms(3)]
  by (auto simp: flush_outcome_def split: poll.splits sum.splits)

lemma poll_flush_outcome:
  "poll_flush env cl cfg n s w = (p, s', w') \<Longrightarrow>
    \<exists>pushed w1. flush_outcome env cl cfg n s w p s' w' pushed w1"
proof (induction env cl cfg n s w rule: poll_flush.induct)
  case (1 env cl cfg n s w)
  note eq = 1(3) [unfolded poll_flush.simps [of env cl cfg n s w]]
  show ?case
  proof (cases "sink_flush s")
    case None
    show ?thesis
    proof (cases "sink_buffer s = []")
      case True
      with None eq have "flush_outcome env cl cfg n s w p s' w' [] w"
        by (auto simp: flush_outcome_def pending_def)
      then show ?thesis by blast
    next
      case False
      with 1(1) [OF None False] None eq show ?thesis
        using flush_outcome_pending [OF pending_buffered [OF None False]] by simp
    qed
  next
    case (Some b)
    show ?thesis
    proof (cases n)
      case 0
      with Some eq have "flush_outcome env cl cfg n s w p s' w' [] w"
        by (auto simp: flush_outcome_def pending_def)
      then show ?thesis by blast
    next
      case (Suc n')
      obtain r w0 where r: "push_tasks env (cl (trips w)) cfg b w = (r, w0)" by fastforce
      show ?thesis
      proof (cases r)
        case (Inl e)
        with Some Suc r eq have "flush_outcome env cl cfg n s w p s' w' [] w"
          using pending_flushing [OF Some] by (auto simp: flush_outcome_def)
        then show ?thesis by blast
      next
        case (Inr u)
        with Some Suc r eq have "poll_flush env cl cfg n' (s\<lparr>sink_flush := None\<rparr>) w0 = (p, s', w')"
          by simp
        with 1(2) [OF Some Suc r [symmetric] Inr] r Some Inr
        show ?thesis unfolding Suc by (blast intro: flush_outcome_step)
      qed
    qed
  qed
qed

section \<open>Properties\<close>

text \<open>C32. A flush accounts for every batch the sink owes, in order: when it reports success all of them were pushed and nothing is left; when it is pending it pushed as many as completed and still owes the rest; when it reports an error it pushed those before the failed batch, which is given up, and still owes those after it.\<close>

theorem flush_accounts_for_batches:
  assumes "poll_flush env cl cfg n s w = (p, s', w')"
  shows "\<exists>pushed w1. push_all env cl cfg pushed w = (Inr (), w1) \<and>
     (case p of
        PollPending \<Rightarrow>
          pending s = pushed @ pending s' \<and> pending s' \<noteq> [] \<and> length pushed = n \<and> w' = w1
      | PollReady (Inr _) \<Rightarrow> pending s = pushed \<and> pending s' = [] \<and> w' = w1
      | PollReady (Inl e) \<Rightarrow>
          (\<exists>failed. pending s = pushed @ failed # pending s' \<and>
             push_tasks env (cl (trips w1)) cfg failed w1 = (Inl e, w')))"
  using poll_flush_outcome [OF assms] unfolding flush_outcome_def .

text \<open>Sending one item after another.\<close>

fun send_all :: "compact_task list \<Rightarrow> sink \<Rightarrow> sink" where
  "send_all [] s = s"
| "send_all (t # ts) s = send_all ts (snd (start_send t s))"

lemma send_all_simps [simp]:
  "sink_flush (send_all ts s) = sink_flush s"
  "sink_buffer (send_all ts s) = sink_buffer s @ ts"
  by (induction ts arbitrary: s) (simp_all add: start_send_def)

text \<open>Tasks sent to a fresh sink reach the database in one transaction: a flush (or close) that reports success has appended, for some moment within the retries, exactly the accepted rows of the whole batch in sending order, and the sink is empty; with no task it sends no request.\<close>

lemma flushed_tasks_are_stored:
  assumes "poll_close env cl cfg n (send_all tasks sink_new) w = (PollReady (Inr ()), s', w')"
  shows "s' = sink_new \<and>
    (if tasks = [] then w' = w
     else \<exists>k < MAX_TX_RETRIES. trips w' = Suc (trips w + k) \<and>
       jobs (store w') = jobs (arrives env w k) @
         map new_job (accepted (idem_key ` set (jobs (arrives env w k)))
           (to_push_rows (cl (trips w)) (cfg_queue cfg) tasks)))"
proof -
  from poll_flush_outcome [OF assms [unfolded poll_close_def]]
  have all: "push_all env cl cfg (pending (send_all tasks sink_new)) w = (Inr (), w')"
    and left: "pending s' = []"
    by (auto simp: flush_outcome_def)
  have "s' = sink_new"
    using left by (cases s') (auto simp: pending_def sink_new_def split: option.splits if_splits)
  moreover have "pending (send_all tasks sink_new) = (if tasks = [] then [] else [tasks])"
    by (simp add: pending_def sink_new_def)
  ultimately show ?thesis
    using all push_tasks_committed [of env "cl (trips w)" cfg tasks w w']
    by (auto split: prod.splits sum.splits)
qed

text \<open>A flush makes progress: it is pending only while fewer pushes have completed than the sink owes batches, which are two at most; so two completed pushes always bring it to a result.\<close>

lemma flush_progress:
  "length (pending s) \<le> 2 \<and>
    (length (pending s) \<le> n \<longrightarrow> fst (poll_flush env cl cfg n s w) \<noteq> PollPending)"
proof
  show "length (pending s) \<le> 2" by (auto simp: pending_def split: option.splits)
  show "length (pending s) \<le> n \<longrightarrow> fst (poll_flush env cl cfg n s w) \<noteq> PollPending"
  proof (intro impI notI)
    assume len: "length (pending s) \<le> n" and "fst (poll_flush env cl cfg n s w) = PollPending"
    then obtain s' w' where "poll_flush env cl cfg n s w = (PollPending, s', w')"
      by (metis prod.collapse)
    from poll_flush_outcome [OF this] len show False by (auto simp: flush_outcome_def)
  qed
qed

section \<open>Witnesses\<close>

text \<open>A flush that fails gives its batch up and keeps what was sent meanwhile.\<close>

lemma sample_flush_stormy:
  "poll_flush stormy (\<lambda>_. sample_client) sample_config 1
     \<lparr>sink_buffer = [sample_task (Some ''k'')], sink_flush = Some [sample_task None]\<rparr> start_world =
   (PollReady (Inl (Database conflict_error)),
    \<lparr>sink_buffer = [sample_task (Some ''k'')], sink_flush = None\<rparr>, \<lparr>store = empty_db, trips = 5\<rparr>)"
  by (simp add: poll_flush.simps stormy_push)

theorem flush_accounts_for_batches_witness:
  "\<exists>pushed. [[sample_task None], [sample_task (Some ''k'')]] =
     pushed @ [sample_task None] # [[sample_task (Some ''k'')]]"
  using flush_accounts_for_batches [OF sample_flush_stormy]
  by (auto simp: pending_def Cons_eq_append_conv)

end
