(* ===== verification/Storage.thy ===== *)
theory Storage
  imports Workers Live_Fetcher Sink
begin

text \<open>
  \<open>src/lib.rs\<close>: building a storage, setting up the schema, and the streams of tasks a worker
  consumes. \<open>Config::new\<close> and \<open>type_name\<close> are passed in as values; the futures
  combinators (\<open>chain\<close>, \<open>then\<close>, \<open>select\<close>, \<open>ready_chunks\<close>) appear as the order in which the
  parts are run, with the choices of \<open>select\<close> as a schedule. How many chunks of wake-ups there
  are is an input here; theory Live_Listener has the live fetcher inside and refines this stream.
\<close>

section \<open>Constructors\<close>

record 'f storage =
  st_instance :: string
  st_config :: config
  st_sink :: sink
  st_fetcher :: 'f

text \<open>\<open>new_instance()\<close> is the text of a new ULID, the argument \<open>ulid\<close>.\<close>

definition new_with_config :: "string \<Rightarrow> config \<Rightarrow> unit storage" where
  "new_with_config ulid cfg =
     \<lparr>st_instance = ulid, st_config = cfg, st_sink = sink_new, st_fetcher = ()\<rparr>"

definition new_in_queue :: "(string \<Rightarrow> config) \<Rightarrow> string \<Rightarrow> string \<Rightarrow> unit storage" where
  "new_in_queue config_new ulid queue_name = new_with_config ulid (config_new queue_name)"

definition storage_new :: "(string \<Rightarrow> config) \<Rightarrow> string \<Rightarrow> string \<Rightarrow> unit storage" where
  "storage_new config_new ulid type_name = new_with_config ulid (config_new type_name)"

definition new_with_events :: "string \<Rightarrow> config \<Rightarrow> live_fetcher storage" where
  "new_with_events ulid cfg =
     \<lparr>st_instance = ulid, st_config = cfg, st_sink = sink_new, st_fetcher = live_fetcher_new\<rparr>"

definition storage_clone :: "('f \<Rightarrow> 'f) \<Rightarrow> 'f storage \<Rightarrow> 'f storage" where
  "storage_clone clone s =
     \<lparr>st_instance = st_instance s, st_config = st_config s, st_sink = sink_clone (st_sink s),
      st_fetcher = clone (st_fetcher s)\<rparr>"

definition with_codec :: "'f storage \<Rightarrow> 'f storage" where
  "with_codec s =
     \<lparr>st_instance = st_instance s, st_config = st_config s, st_sink = sink_new,
      st_fetcher = st_fetcher s\<rparr>"

text \<open>\<open>config\<close> and \<open>get_queue\<close>.\<close>

definition storage_config :: "'f storage \<Rightarrow> config" where
  "storage_config s = st_config s"

definition get_queue :: "'f storage \<Rightarrow> string" where
  "get_queue s = cfg_queue (storage_config s)"

section \<open>Setting up the schema\<close>

definition SCHEMA_VERSION :: int where
  "SCHEMA_VERSION = 1"

text \<open>\<open>schema.surql\<close> defines tables, fields and indexes \<open>IF NOT EXISTS\<close>: no row changes.\<close>

definition schema_stmt :: "unit stmt" where
  "schema_stmt now d = Inr ((), d)"

definition set_version_stmt :: "int \<Rightarrow> unit stmt" where
  "set_version_stmt v now d = Inr ((), d\<lparr>meta_version := Some v\<rparr>)"

definition setup_schema :: "env \<Rightarrow> world \<Rightarrow> (surreal_error + unit) \<times> world" where
  "setup_schema env w =
     (case query env schema_stmt w of
        (resp, w1) \<Rightarrow>
          (case take_rows resp of
             Inl e \<Rightarrow> (Inl e, w1)
           | Inr _ \<Rightarrow>
               (case query env (set_version_stmt SCHEMA_VERSION) w1 of
                  (resp', w2) \<Rightarrow> (take_rows resp', w2))))"

section \<open>Decoding what was claimed\<close>

text \<open>The codec's \<open>decode\<close> is an argument; its error is the text of the error.\<close>

definition decode_or_kill ::
  "env \<Rightarrow> (bytes \<Rightarrow> string + 'a) \<Rightarrow> stream_item \<Rightarrow> world
    \<Rightarrow> (surreal_error + 'a surreal_task option) \<times> world" where
  "decode_or_kill env decode res w =
     (case res of
        Inl e \<Rightarrow> (Inl e, w)
      | Inr None \<Rightarrow> (Inr None, w)
      | Inr (Some task) \<Rightarrow>
          (case decode (fst task) of
             Inr x \<Rightarrow> (Inr (Some (x, snd task)), w)
           | Inl e \<Rightarrow>
               (case part_task_id (snd task) of
                  Some ident \<Rightarrow> (Inr None, snd (kill_task env (StringKey ident) e w))
                | None \<Rightarrow> (Inr None, w))))"

section \<open>The task stream of a polling storage\<close>

text \<open>
  \<open>poll_default\<close>: registration is the first item, whatever its outcome, then the poll
  fetcher. \<open>ready\<close> says whether the registration future completes in this poll.
\<close>

record default_stream =
  ds_registered :: bool
  ds_fetcher :: poll_fetcher

definition poll_default :: default_stream where
  "poll_default = \<lparr>ds_registered = False, ds_fetcher = poll_fetcher_new\<rparr>"

definition default_next ::
  "env \<Rightarrow> row_conv \<Rightarrow> worker_context \<Rightarrow> 'f storage \<Rightarrow> bool \<Rightarrow> nat \<Rightarrow> delay_item list
    \<Rightarrow> default_stream \<Rightarrow> world \<Rightarrow> stream_item option poll \<times> default_stream \<times> world" where
  "default_next env conv wc st ready n ds s w =
     (if \<not> ds_registered s
      then (if \<not> ready then (PollPending, s, w)
            else (case initial_heartbeat env (st_config st) wc ''SurrealStorage'' (st_instance st) w of
                    (Inl e, w') \<Rightarrow> (PollReady (Some (Inl e)), s\<lparr>ds_registered := True\<rparr>, w')
                  | (Inr _, w') \<Rightarrow> (PollReady (Some (Inr None)), s\<lparr>ds_registered := True\<rparr>, w')))
      else (case poll_next env conv (st_config st) (st_instance st) n ds (ds_fetcher s) w of
              (p, f', w') \<Rightarrow> (p, s\<lparr>ds_fetcher := f'\<rparr>, w')))"

text \<open>\<open>Backend::poll\<close>: every item of the stream goes through \<open>decode_or_kill\<close>.\<close>

definition backend_next ::
  "env \<Rightarrow> row_conv \<Rightarrow> (bytes \<Rightarrow> string + 'a) \<Rightarrow> worker_context \<Rightarrow> 'f storage \<Rightarrow> bool \<Rightarrow> nat
    \<Rightarrow> delay_item list \<Rightarrow> default_stream \<Rightarrow> world
    \<Rightarrow> (surreal_error + 'a surreal_task option) option poll \<times> default_stream \<times> world" where
  "backend_next env conv decode wc st ready n ds s w =
     (case default_next env conv wc st ready n ds s w of
        (PollPending, s', w') \<Rightarrow> (PollPending, s', w')
      | (PollReady None, s', w') \<Rightarrow> (PollReady None, s', w')
      | (PollReady (Some item), s', w') \<Rightarrow>
          (case decode_or_kill env decode item w' of
             (res, w'') \<Rightarrow> (PollReady (Some res), s', w'')))"

text \<open>\<open>BackendExt::poll_compact\<close>: the stream without decoding.\<close>

definition poll_compact ::
  "env \<Rightarrow> row_conv \<Rightarrow> worker_context \<Rightarrow> 'f storage \<Rightarrow> bool \<Rightarrow> nat \<Rightarrow> delay_item list
    \<Rightarrow> default_stream \<Rightarrow> world \<Rightarrow> stream_item option poll \<times> default_stream \<times> world" where
  "poll_compact env conv wc st ready n ds s w = default_next env conv wc st ready n ds s w"

section \<open>The task stream of a listening storage\<close>

text \<open>
  \<open>poll_with_listener\<close>: after registration, the wake-ups of the live fetcher, gathered into
  chunks, each run one fetch whose tasks (or error) are passed on one by one; beside them the
  poll fetcher runs. \<open>n\<close> chunks are ready in a poll of the lazy side, and a schedule says which
  side \<open>select\<close> takes next; an eager side that has ended yields nothing more.
\<close>

definition lazy_items :: "surreal_error + compact_task list \<Rightarrow> stream_item list" where
  "lazy_items res =
     (case res of Inr tasks \<Rightarrow> map (\<lambda>t. Inr (Some t)) tasks | Inl e \<Rightarrow> [Inl e])"

fun lazy_next ::
  "env \<Rightarrow> row_conv \<Rightarrow> config \<Rightarrow> string \<Rightarrow> nat \<Rightarrow> stream_item list \<Rightarrow> world
    \<Rightarrow> stream_item poll \<times> stream_item list \<times> world" where
  "lazy_next env conv cfg inst n (item # items) w = (PollReady item, items, w)"
| "lazy_next env conv cfg inst 0 [] w = (PollPending, [], w)"
| "lazy_next env conv cfg inst (Suc n) [] w =
     (case fetch_next env conv cfg inst w of
        (res, w') \<Rightarrow> lazy_next env conv cfg inst n (lazy_items res) w')"

record listener =
  ls_lazy :: "stream_item list"
  ls_eager :: poll_fetcher

datatype turn = LazyPoll nat | EagerPoll nat "delay_item list"

definition listener_new :: listener where
  "listener_new = \<lparr>ls_lazy = [], ls_eager = poll_fetcher_new\<rparr>"

fun listener_turn ::
  "env \<Rightarrow> row_conv \<Rightarrow> config \<Rightarrow> string \<Rightarrow> turn \<Rightarrow> listener \<Rightarrow> world
    \<Rightarrow> stream_item poll \<times> listener \<times> world" where
  "listener_turn env conv cfg inst (LazyPoll n) l w =
     (case lazy_next env conv cfg inst n (ls_lazy l) w of
        (p, items, w') \<Rightarrow> (p, l\<lparr>ls_lazy := items\<rparr>, w'))"
| "listener_turn env conv cfg inst (EagerPoll n ds) l w =
     (case poll_next env conv cfg inst n ds (ls_eager l) w of
        (p, f, w') \<Rightarrow>
          ((case p of PollReady (Some item) \<Rightarrow> PollReady item | _ \<Rightarrow> PollPending),
           l\<lparr>ls_eager := f\<rparr>, w'))"

text \<open>What a stream of turns hands out, in order.\<close>

fun turns ::
  "('t \<Rightarrow> 's \<Rightarrow> world \<Rightarrow> 'i poll \<times> 's \<times> world) \<Rightarrow> 't list \<Rightarrow> 's \<Rightarrow> world \<Rightarrow> 'i list \<times> 's \<times> world"
where
  "turns take_turn [] s w = ([], s, w)"
| "turns take_turn (t # ts) s w =
     (case take_turn t s w of
        (p, s', w') \<Rightarrow>
          (case turns take_turn ts s' w' of
             (items, r) \<Rightarrow> ((case p of PollReady item \<Rightarrow> item # items | PollPending \<Rightarrow> items), r)))"

definition listener_items ::
  "env \<Rightarrow> row_conv \<Rightarrow> config \<Rightarrow> string \<Rightarrow> turn list \<Rightarrow> listener \<Rightarrow> world
    \<Rightarrow> stream_item list \<times> listener \<times> world" where
  "listener_items env conv cfg inst = turns (listener_turn env conv cfg inst)"

definition registration_item :: "surreal_error + unit \<Rightarrow> stream_item" where
  "registration_item res = (case res of Inl e \<Rightarrow> Inl e | Inr _ \<Rightarrow> Inr None)"

definition poll_with_listener ::
  "env \<Rightarrow> row_conv \<Rightarrow> worker_context \<Rightarrow> live_fetcher storage \<Rightarrow> turn list \<Rightarrow> world
    \<Rightarrow> stream_item list \<times> listener \<times> world" where
  "poll_with_listener env conv wc st ts w =
     (case initial_heartbeat env (st_config st) wc ''SurrealStorageWithEvents'' (st_instance st) w of
        (res, w') \<Rightarrow>
          (case listener_items env conv (st_config st) (st_instance st) ts listener_new w' of
             (items, r) \<Rightarrow> (registration_item res # items, r)))"

text \<open>
  \<open>Backend::poll\<close> of the listening storage: each item is decoded before the stream is polled
  again. \<open>BackendExt::poll_compact\<close> leaves the items as they are.
\<close>

definition listener_compact ::
  "env \<Rightarrow> row_conv \<Rightarrow> worker_context \<Rightarrow> live_fetcher storage \<Rightarrow> turn list \<Rightarrow> world
    \<Rightarrow> stream_item list \<times> listener \<times> world" where
  "listener_compact env conv wc st ts w = poll_with_listener env conv wc st ts w"

fun then_decode ::
  "env \<Rightarrow> (bytes \<Rightarrow> string + 'a) \<Rightarrow> ('t \<Rightarrow> 's \<Rightarrow> world \<Rightarrow> stream_item poll \<times> 's \<times> world)
    \<Rightarrow> 't \<Rightarrow> 's \<Rightarrow> world \<Rightarrow> (surreal_error + 'a surreal_task option) poll \<times> 's \<times> world" where
  "then_decode env decode take_turn t s w =
     (case take_turn t s w of
        (PollPending, s', w') \<Rightarrow> (PollPending, s', w')
      | (PollReady item, s', w') \<Rightarrow>
          (case decode_or_kill env decode item w' of (res, w'') \<Rightarrow> (PollReady res, s', w'')))"

definition listener_poll ::
  "env \<Rightarrow> row_conv \<Rightarrow> (bytes \<Rightarrow> string + 'a) \<Rightarrow> worker_context \<Rightarrow> live_fetcher storage \<Rightarrow> turn list \<Rightarrow> world
    \<Rightarrow> (surreal_error + 'a surreal_task option) list \<times> listener \<times> world" where
  "listener_poll env conv decode wc st ts w =
     (case initial_heartbeat env (st_config st) wc ''SurrealStorageWithEvents'' (st_instance st) w of
        (res, w') \<Rightarrow>
          (case decode_or_kill env decode (registration_item res) w' of
             (first, w1) \<Rightarrow>
               (case turns (then_decode env decode (listener_turn env conv (st_config st) (st_instance st)))
                       ts listener_new w1 of
                  (items, r) \<Rightarrow> (first # items, r))))"

section \<open>Heartbeats\<close>

text \<open>\<open>heartbeat_stream\<close>: \<open>True\<close> in the schedule is a turn of the keep-alive stream.\<close>

fun heartbeat_stream ::
  "env \<Rightarrow> worker_context \<Rightarrow> 'f storage \<Rightarrow> bool list \<Rightarrow> world \<Rightarrow> (surreal_error + unit) list \<times> world"
where
  "heartbeat_stream env wc st [] w = ([], w)"
| "heartbeat_stream env wc st (b # bs) w =
     (case (if b then keep_alive env wc (st_instance st) w
            else (case reenqueue_orphaned env (st_config st) w of
                    (Inl e, w') \<Rightarrow> (Inl e, w') | (Inr _, w') \<Rightarrow> (Inr (), w'))) of
        (res, w') \<Rightarrow>
          (case heartbeat_stream env wc st bs w' of (items, w'') \<Rightarrow> (res # items, w'')))"

section \<open>Properties\<close>

text \<open>Setting up is idempotent and loses no data: on an undisturbed engine it succeeds, records the schema version, leaves every job and worker as it was, and a second run changes nothing.\<close>

lemma setup_keeps_data:
  "\<exists>w1 w2. setup_schema (calm now) w = (Inr (), w1) \<and> setup_schema (calm later) w1 = (Inr (), w2) \<and>
    meta_version (store w1) = Some 1 \<and> jobs (store w1) = jobs (store w) \<and>
    workers (store w1) = workers (store w) \<and> store w2 = store w1"
  by (simp add: setup_schema_def query_def calm_def schema_stmt_def set_version_stmt_def
      SCHEMA_VERSION_def)

text \<open>A claimed task whose payload the worker's codec cannot read does not reach the worker and does not end its stream: on an undisturbed engine it is killed with the codec's error as its result and no lock, no other job changes, and a task that the codec reads is passed on with its parts.\<close>

lemma undecodable_task_is_parked:
  assumes "part_task_id (snd task) = Some ident"
  shows "case decode (fst task) of
      Inl e \<Rightarrow> fst (decode_or_kill (calm now) decode (Inr (Some task)) w) = Inr None \<and>
        (\<forall>k. lookup_job (store (snd (decode_or_kill (calm now) decode (Inr (Some task)) w))) k =
          (if k = StringKey ident
           then map_option (\<lambda>j. j\<lparr>status := Killed, last_result := Some (err_object e),
                  done_at := Some now, lock_by := None, lock_at := None\<rparr>) (lookup_job (store w) k)
           else lookup_job (store w) k))
    | Inr x \<Rightarrow> decode_or_kill env decode (Inr (Some task)) w = (Inr (Some (x, snd task)), w)"
proof (cases "decode (fst task)")
  case (Inl e)
  have "lookup_job (store (snd (kill_task (calm now) (StringKey ident) e w))) k =
      (if k = StringKey ident then map_option (set_killed e now) (lookup_job (store w) k)
       else lookup_job (store w) k)" for k
    by (simp add: kill_task_calm killed.lookup_update_record if_True)
  with Inl assms show ?thesis
    by (simp add: decode_or_kill_def set_killed_def [abs_def])
next
  case (Inr x)
  then show ?thesis by (simp add: decode_or_kill_def)
qed

text \<open>Changing the codec of a storage, or cloning it, starts from an empty sink: tasks that were sent but not flushed are not carried over, yet closing the new storage reports success without a request.\<close>

lemma with_codec_drops_unflushed:
  assumes "s' = with_codec s \<or> s' = storage_clone clone s"
  shows "pending (st_sink s') = [] \<and>
    poll_close env cl (st_config s') n (st_sink s') w = (PollReady (Inr ()), sink_new, w) \<and>
    st_instance s' = st_instance s"
  using assms
  by (auto simp: with_codec_def storage_clone_def sink_clone_def sink_new_def pending_def poll_close_def
      poll_flush.simps)

fun item_tasks :: "stream_item \<Rightarrow> compact_task list" where
  "item_tasks (Inr (Some t)) = [t]"
| "item_tasks _ = []"

lemma item_tasks_lazy: "concat (map item_tasks (lazy_items res)) = batch res"
proof -
  have "concat (map item_tasks (map (\<lambda>t. Inr (Some t)) ts)) = ts" for ts by (induction ts) auto
  then show ?thesis by (cases res) (auto simp: lazy_items_def)
qed

fun turn_tasks :: "stream_item poll \<Rightarrow> compact_task list" where
  "turn_tasks (PollReady item) = item_tasks item"
| "turn_tasks PollPending = []"

definition listener_holds :: "listener \<Rightarrow> compact_task multiset" where
  "listener_holds l =
     mset (concat (map item_tasks (ls_lazy l))) + mset (buffered (pf_state (ls_eager l)))"

lemma lazy_next_conserves:
  "lazy_next env conv cfg inst n items w = (p, items', w') \<Longrightarrow>
    \<exists>m rs. fetches env conv cfg inst m w = (rs, w') \<and>
      concat (map item_tasks items) @ concat (map batch rs) =
        turn_tasks p @ concat (map item_tasks items')"
proof (induction env conv cfg inst n items w rule: lazy_next.induct)
  case (3 env conv cfg inst n w)
  obtain res w1 where res: "fetch_next env conv cfg inst w = (res, w1)" by fastforce
  with 3(2) have "lazy_next env conv cfg inst n (lazy_items res) w1 = (p, items', w')" by simp
  from 3(1) [OF res [symmetric] this] obtain m rs where m: "fetches env conv cfg inst m w1 = (rs, w')"
    "batch res @ concat (map batch rs) = turn_tasks p @ concat (map item_tasks items')"
    by (auto simp: item_tasks_lazy)
  then have "fetches env conv cfg inst (Suc m) w = (res # rs, w')" using res by simp
  with m(2) show ?case by (metis append.assoc concat.simps(2) list.simps(8,9) append_Nil concat.simps(1))
qed (auto intro!: exI [of _ 0])

lemma listener_turn_conserves:
  assumes "listener_turn env conv cfg inst t l w = (p, l', w')"
  shows "\<exists>m rs. fetches env conv cfg inst m w = (rs, w') \<and>
    mset (turn_tasks p) + listener_holds l' = listener_holds l + mset (concat (map batch rs))"
proof (cases t)
  case (LazyPoll n)
  obtain p1 items w1 where n: "lazy_next env conv cfg inst n (ls_lazy l) w = (p1, items, w1)"
    by (metis prod_cases3)
  with assms LazyPoll have l': "p = p1" "l' = l\<lparr>ls_lazy := items\<rparr>" "w' = w1" by auto
  from lazy_next_conserves [OF n] obtain m rs where
    m: "fetches env conv cfg inst m w = (rs, w1)"
      "concat (map item_tasks (ls_lazy l)) @ concat (map batch rs) =
        turn_tasks p @ concat (map item_tasks items)"
    by (auto simp: l')
  from arg_cong [OF m(2), of mset] m(1) show ?thesis
    by (intro exI [of _ m] exI [of _ rs]) (simp add: listener_holds_def l' ac_simps)
next
  case (EagerPoll n ds)
  obtain p1 f w1 where n: "poll_next env conv cfg inst n ds (ls_eager l) w = (p1, f, w1)"
    by (metis prod_cases3)
  with assms EagerPoll have l': "l' = l\<lparr>ls_eager := f\<rparr>" "w' = w1"
    and p: "p = (case p1 of PollReady (Some item) \<Rightarrow> PollReady item | _ \<Rightarrow> PollPending)"
    by auto
  have y: "turn_tasks p = yielded p1" unfolding p by (cases p1 rule: yielded.cases) simp_all
  from poll_loop_conserves [OF n [unfolded poll_next_def]] obtain m rs where
    m: "fetches env conv cfg inst m w = (rs, w1)"
      "buffered (pf_state (ls_eager l)) @ concat (map batch rs) = yielded p1 @ buffered (pf_state f)" by auto
  from arg_cong [OF m(2), of mset] m(1) show ?thesis
    by (intro exI [of _ m] exI [of _ rs]) (simp add: listener_holds_def l' y ac_simps)
qed

text \<open>C37. The listening storage neither loses nor duplicates tasks: however the two sides of its stream alternate, the tasks handed out and those still held by either side are exactly the tasks of all fetches, wake-up fetches and polled ones alike.\<close>

theorem listener_conserves_tasks:
  assumes "listener_items env conv cfg inst ts l w = (items, l', w')"
  shows "\<exists>m rs. fetches env conv cfg inst m w = (rs, w') \<and>
    mset (concat (map item_tasks items)) + listener_holds l' =
      listener_holds l + mset (concat (map batch rs))"
  using assms
proof (induction ts arbitrary: items l w)
  case Nil
  then show ?case by (intro exI [of _ 0]) (simp add: listener_items_def)
next
  case (Cons t ts)
  obtain p l1 w1 where t: "listener_turn env conv cfg inst t l w = (p, l1, w1)" by (metis prod_cases3)
  obtain items1 where rest: "listener_items env conv cfg inst ts l1 w1 = (items1, l', w')"
    "concat (map item_tasks items) = turn_tasks p @ concat (map item_tasks items1)"
    using Cons.prems t by (auto simp: listener_items_def split: prod.splits poll.splits)
  from listener_turn_conserves [OF t] obtain m rs where
    m: "fetches env conv cfg inst m w = (rs, w1)"
      "mset (turn_tasks p) + listener_holds l1 = listener_holds l + mset (concat (map batch rs))" by blast
  from Cons.IH [OF rest(1)] obtain m' rs' where
    m': "fetches env conv cfg inst m' w1 = (rs', w')"
      "mset (concat (map item_tasks items1)) + listener_holds l' =
        listener_holds l1 + mset (concat (map batch rs'))" by blast
  have "mset (concat (map item_tasks items)) + listener_holds l' =
      mset (turn_tasks p) + (mset (concat (map item_tasks items1)) + listener_holds l')"
    by (simp add: rest(2) add.assoc)
  also have "\<dots> = (mset (turn_tasks p) + listener_holds l1) + mset (concat (map batch rs'))"
    unfolding m'(2) by (simp only: add.assoc)
  also have "\<dots> = listener_holds l + mset (concat (map batch (rs @ rs')))"
    unfolding m(2) by (simp add: add.assoc)
  finally have "mset (concat (map item_tasks items)) + listener_holds l' =
      listener_holds l + mset (concat (map batch (rs @ rs')))" .
  with fetches_add [OF m(1) m'(1)] show ?case by blast
qed

text \<open>Live notifications outlive the poll side: after the poll stream of a listening storage has ended, a wake-up still runs a fetch whose first task or error is handed out at once, and polling the ended side neither yields anything nor stops the wake-ups.\<close>

lemma listener_outlives_poll_stream:
  assumes "pf_state (ls_eager l) = StateEmpty" and "ls_lazy l = []"
    and "fetch_next env conv cfg inst w = (res, w')" and "lazy_items res = item # rest"
  shows "listener_items env conv cfg inst [EagerPoll n ds, LazyPoll (Suc k), EagerPoll n' ds'] l w =
    ([item], l\<lparr>ls_eager := (ls_eager l)\<lparr>pf_delay_stream := True\<rparr>, ls_lazy := rest\<rparr>, w')"
  using assms by (simp add: listener_items_def poll_next_empty)

section \<open>Witnesses\<close>

theorem listener_conserves_tasks_witness:
  "\<exists>m rs. fst (fetches (calm late) sample_conv sample_config ''w1'' m two_jobs_world) = rs \<and>
    mset (concat (map batch rs)) = {#handed_task#}"
proof -
  obtain w1 where f: "fetch_next (calm late) sample_conv sample_config ''w1'' two_jobs_world =
      (Inr [handed_task], w1)"
    using sample_fetch_tasks by blast
  have "listener_items (calm late) sample_conv sample_config ''w1'' [EagerPoll 0 [], LazyPoll 1]
      listener_new two_jobs_world =
    ([Inr (Some handed_task)],
     \<lparr>ls_lazy = [],
      ls_eager = \<lparr>pf_state = StateFetch, pf_delay_stream = True, pf_prev_count = 0\<rparr>\<rparr>, w1)"
    by (simp add: listener_items_def listener_new_def f lazy_items_def poll_next_def poll_loop.simps
        poll_fetcher_new_def)
  from listener_conserves_tasks [OF this] obtain m rs where
    "fetches (calm late) sample_conv sample_config ''w1'' m two_jobs_world = (rs, w1)"
    "mset (concat (map batch rs)) = {#handed_task#}"
    by (auto simp: poll_fetcher_new_def listener_new_def listener_holds_def)
  then show ?thesis by (intro exI [of _ m] exI [of _ rs]) simp
qed

end
