(* ===== verification/Live_Listener.thy ===== *)
theory Live_Listener
  imports Storage
begin

text \<open>
  The lazy side of a listening storage with its live fetcher inside: \<open>poll_with_listener\<close> of
  \<open>src/lib.rs\<close> as one machine of the live fetcher, the chunks of its wake-ups, the fetch of each
  chunk and the tasks it brought. It refines the listener of theory Storage, in which the number
  of chunks is an input, and says how many claims the notifications lead to. \<open>ready_chunks\<close> of
  \<open>futures\<close> is outside the repository and an argument; \<open>chunks_ready\<close> is what is documented of it.
\<close>

section \<open>Chunks of a stream\<close>

type_synonym 's source = "'s \<Rightarrow> unit option poll \<times> 's"

text \<open>The given number of polls in a row that are ready with an item.\<close>

fun pulled :: "'s source \<Rightarrow> nat \<Rightarrow> 's \<Rightarrow> 's \<Rightarrow> bool" where
  "pulled source 0 s s' \<longleftrightarrow> s' = s"
| "pulled source (Suc k) s s' \<longleftrightarrow>
     (case source s of (PollReady (Some _), s1) \<Rightarrow> pulled source k s1 s' | _ \<Rightarrow> False)"

text \<open>
  A chunk is what is ready, at most its capacity and never empty; with nothing ready, or at the
  end of the stream, the source's own answer is passed on. A capacity of zero panics.
\<close>

definition chunks_ready :: "nat \<Rightarrow> 's source \<Rightarrow> ('s \<Rightarrow> nat option poll \<times> 's) \<Rightarrow> bool" where
  "chunks_ready cap source chunk \<longleftrightarrow> 0 < cap \<and>
     (\<forall>s. case chunk s of
        (PollPending, s') \<Rightarrow> source s = (PollPending, s')
      | (PollReady None, s') \<Rightarrow> source s = (PollReady None, s')
      | (PollReady (Some k), s') \<Rightarrow> 0 < k \<and> k \<le> cap \<and>
          (\<exists>s1. pulled source k s s1 \<and>
            (if k = cap then s' = s1 else \<exists>p. source s1 = (p, s') \<and> p \<noteq> PollReady (Some ()))))"

text \<open>An implementation of what is documented: the items pulled and the answer that stopped it.\<close>

fun gather :: "'s source \<Rightarrow> nat \<Rightarrow> 's \<Rightarrow> nat \<times> unit option poll \<times> 's" where
  "gather source 0 s = (0, PollReady (Some ()), s)"
| "gather source (Suc room) s =
     (case source s of
        (PollReady (Some _), s') \<Rightarrow> (case gather source room s' of (k, r) \<Rightarrow> (Suc k, r))
      | (p, s') \<Rightarrow> (0, p, s'))"

fun chunk_of :: "nat \<Rightarrow> 's source \<Rightarrow> 's \<Rightarrow> nat option poll \<times> 's" where
  "chunk_of cap source s =
     (case gather source cap s of
        (k, p, s') \<Rightarrow>
          ((if 0 < k then PollReady (Some k) else if p = PollPending then PollPending else PollReady None), s'))"

lemma gather_pulled:
  "gather source room s = (k, p, s') \<Longrightarrow> k \<le> room \<and>
    (\<exists>s1. pulled source k s s1 \<and>
      (if k = room then s' = s1 else source s1 = (p, s') \<and> p \<noteq> PollReady (Some ())))"
proof (induction room arbitrary: s k)
  case (Suc room)
  obtain q s2 where q: "source s = (q, s2)" by fastforce
  show ?case
  proof (cases "q = PollReady (Some ())")
    case True
    obtain k' p' r where g: "gather source room s2 = (k', p', r)" by (metis prod_cases3)
    with Suc.prems q True have k': "gather source room s2 = (k', p, s')" "k = Suc k'" by simp_all
    from Suc.IH [OF k'(1)] obtain s1 where "k' \<le> room" "pulled source k' s2 s1"
      "if k' = room then s' = s1 else source s1 = (p, s') \<and> p \<noteq> PollReady (Some ())" by blast
    with True q show ?thesis by (simp only: k'(2)) (intro conjI exI [of _ s1], simp_all)
  next
    case False
    with Suc.prems q have "k = 0" "p = q" "s' = s2" by (simp_all split: poll.splits option.splits)
    with False q show ?thesis by auto
  qed
qed simp

lemma chunk_of_ready:
  assumes "0 < cap"
  shows "chunks_ready cap source (chunk_of cap source)"
proof -
  have "case chunk_of cap source s of
        (PollPending, s') \<Rightarrow> source s = (PollPending, s')
      | (PollReady None, s') \<Rightarrow> source s = (PollReady None, s')
      | (PollReady (Some k), s') \<Rightarrow> 0 < k \<and> k \<le> cap \<and>
          (\<exists>s1. pulled source k s s1 \<and>
            (if k = cap then s' = s1 else \<exists>p. source s1 = (p, s') \<and> p \<noteq> PollReady (Some ())))" for s
  proof -
    obtain k p s' where g: "gather source cap s = (k, p, s')" by (metis prod_cases3)
    from gather_pulled [OF g] obtain s1 where s1: "k \<le> cap" "pulled source k s s1"
      "if k = cap then s' = s1 else source s1 = (p, s') \<and> p \<noteq> PollReady (Some ())" by blast
    show ?thesis
    proof (cases "k = 0")
      case True
      with s1 assms have "source s = (p, s')" "p \<noteq> PollReady (Some ())" by auto
      moreover have "p = PollPending \<or> p = PollReady None"
        using calculation(2) by (metis (full_types) old.unit.exhaust option.exhaust poll.exhaust)
      ultimately show ?thesis using g True by auto
    next
      case False
      with g s1 show ?thesis by (auto split: if_splits)
    qed
  qed
  with assms show ?thesis unfolding chunks_ready_def by blast
qed

section \<open>The lazy side\<close>

text \<open>
  The live fetcher with what its subscription, notifications and timer have ready as a source of
  wake-ups; whether a fetch is in flight; and the items of the last fetch still to be passed on.
\<close>

definition live_source :: "(live_inputs \<times> live_fetcher) source" where
  "live_source s = (case live_poll_next (fst s) (snd s) of (p, i', f') \<Rightarrow> (p, i', f'))"

record lazy_side =
  lz_inputs :: live_inputs
  lz_live :: live_fetcher
  lz_fetching :: bool
  lz_items :: "stream_item list"

type_synonym chunker = "live_inputs \<times> live_fetcher \<Rightarrow> nat option poll \<times> live_inputs \<times> live_fetcher"

text \<open>
  One poll: the items at hand come first; else a fetch in flight is polled, and at most \<open>n\<close> of
  the fetches complete in this poll; else the next chunk is asked for and starts a fetch.
\<close>

function lazy_poll ::
  "env \<Rightarrow> row_conv \<Rightarrow> config \<Rightarrow> string \<Rightarrow> chunker \<Rightarrow> nat \<Rightarrow> lazy_side \<Rightarrow> world
    \<Rightarrow> stream_item option poll \<times> lazy_side \<times> world" where
  "lazy_poll env conv cfg inst chunk n l w =
     (case lz_items l of
        item # items \<Rightarrow> (PollReady (Some item), l\<lparr>lz_items := items\<rparr>, w)
      | [] \<Rightarrow>
          (if lz_fetching l
           then (case n of
                   0 \<Rightarrow> (PollPending, l, w)
                 | Suc n' \<Rightarrow>
                     (case fetch_next env conv cfg inst w of
                        (res, w') \<Rightarrow>
                          lazy_poll env conv cfg inst chunk n'
                            (l\<lparr>lz_fetching := False, lz_items := lazy_items res\<rparr>) w'))
           else (case chunk (lz_inputs l, lz_live l) of
                   (PollPending, i', f') \<Rightarrow> (PollPending, l\<lparr>lz_inputs := i', lz_live := f'\<rparr>, w)
                 | (PollReady None, i', f') \<Rightarrow> (PollReady None, l\<lparr>lz_inputs := i', lz_live := f'\<rparr>, w)
                 | (PollReady (Some _), i', f') \<Rightarrow>
                     lazy_poll env conv cfg inst chunk n
                       (l\<lparr>lz_inputs := i', lz_live := f', lz_fetching := True\<rparr>) w)))"
  by pat_completeness auto

termination
  by (relation "measure (\<lambda>(env, conv, cfg, inst, chunk, n, l, w). 2 * n + (if lz_fetching l then 0 else 1))") auto

declare lazy_poll.simps [simp del]

lemma lazy_poll_items:
  "lazy_poll env conv cfg inst chunk n (l\<lparr>lz_items := item # items\<rparr>) w =
     (PollReady (Some item), l\<lparr>lz_items := items\<rparr>, w)"
  by (subst lazy_poll.simps) simp

section \<open>What a chunk of wake-ups is\<close>

text \<open>A chunk of k wake-ups consumed exactly k notifications of created jobs.\<close>

lemma live_source_consumes:
  "live_source s = (p, s') \<Longrightarrow> p \<noteq> PollReady None \<and>
    (\<exists>ns. notifications (fst s) = ns @ notifications (fst s') \<and> creates ns = wakes p)"
  using live_poll_consumes [of "fst s" "snd s" p "fst s'" "snd s'"]
  by (auto simp: live_source_def split: prod.splits)

lemma pulled_consumes:
  "pulled live_source k s s' \<Longrightarrow>
    \<exists>ns. notifications (fst s) = ns @ notifications (fst s') \<and> creates ns = k"
proof (induction k arbitrary: s)
  case (Suc k)
  then obtain u s1 where s1: "live_source s = (PollReady (Some u), s1)" "pulled live_source k s1 s'"
    by (auto split: prod.splits poll.splits option.splits)
  obtain ns where "notifications (fst s1) = ns @ notifications (fst s')" "creates ns = k"
    using Suc.IH [OF s1(2)] by blast
  moreover obtain ms where "notifications (fst s) = ms @ notifications (fst s1)" "creates ms = 1"
    using live_source_consumes [OF s1(1)] wakes.simps(1) by (metis (full_types) old.unit.exhaust)
  ultimately show ?case by (intro exI [of _ "ms @ ns"]) simp
qed simp

lemma chunk_consumes:
  assumes "chunks_ready cap live_source chunk" and "chunk s = (p, s')"
  shows "p \<noteq> PollReady None \<and>
    (\<exists>ns. notifications (fst s) = ns @ notifications (fst s') \<and>
      (case p of PollReady (Some k) \<Rightarrow> 0 < k \<and> k \<le> cap \<and> creates ns = k | _ \<Rightarrow> creates ns = 0))"
proof -
  have law: "case (p, s') of
        (PollPending, s') \<Rightarrow> live_source s = (PollPending, s')
      | (PollReady None, s') \<Rightarrow> live_source s = (PollReady None, s')
      | (PollReady (Some k), s') \<Rightarrow> 0 < k \<and> k \<le> cap \<and>
          (\<exists>s1. pulled live_source k s s1 \<and>
            (if k = cap then s' = s1 else \<exists>p. live_source s1 = (p, s') \<and> p \<noteq> PollReady (Some ())))"
    using assms(1) [unfolded chunks_ready_def, THEN conjunct2, THEN spec, of s] unfolding assms(2) .
  consider "p = PollPending" | "p = PollReady None" | k where "p = PollReady (Some k)"
    by (metis option.exhaust poll.exhaust)
  then show ?thesis
  proof cases
    case 1
    with law have "live_source s = (PollPending, s')" by simp
    from live_source_consumes [OF this] show ?thesis by (simp add: 1)
  next
    case 2
    with law have "live_source s = (PollReady None, s')" by simp
    from live_source_consumes [OF this] show ?thesis by (simp add: 2)
  next
    case (3 k)
    with law obtain s1 where k: "0 < k" "k \<le> cap" "pulled live_source k s s1"
      "if k = cap then s' = s1 else \<exists>p. live_source s1 = (p, s') \<and> p \<noteq> PollReady (Some ())" by auto
    obtain ns where ns: "notifications (fst s) = ns @ notifications (fst s1)" "creates ns = k"
      using pulled_consumes [OF k(3)] by blast
    have "\<exists>ms. notifications (fst s1) = ms @ notifications (fst s') \<and> creates ms = 0"
    proof (cases "k = cap")
      case False
      with k(4) obtain q where q: "live_source s1 = (q, s')" "q \<noteq> PollReady (Some ())" by auto
      then have "wakes q = 0" by (cases q rule: wakes.cases) auto
      with live_source_consumes [OF q(1)] show ?thesis by simp
    qed (use k(4) in simp)
    then obtain ms where "notifications (fst s1) = ms @ notifications (fst s')" "creates ms = 0" by blast
    with ns have "notifications (fst s) = (ns @ ms) @ notifications (fst s')" "creates (ns @ ms) = k" by simp_all
    with k(1,2) show ?thesis unfolding 3 by (intro conjI exI [of _ "ns @ ms"]) simp_all
  qed
qed

text \<open>A live fetcher that waits while its notification stream is open has read all there was.\<close>

lemma live_waits:
  "live_poll_next i f = (p, i', f') \<Longrightarrow> p = PollPending \<Longrightarrow> lf_state f' = LiveActive \<Longrightarrow> notifications i' = []"
proof (induction i f rule: live_poll_next.induct)
  case (1 i f)
  note eq = 1(8) [unfolded live_poll_next.simps [of i f]]
  show ?case
    using 1(1-7,9,10) eq
    by (auto simp: Let_def split: live_state.splits list.splits option.splits notification.splits
        nat.splits if_splits)
qed

lemma chunk_waits:
  assumes "chunks_ready cap live_source chunk" and "chunk s = (PollPending, s')"
    and "lf_state (snd s') = LiveActive"
  shows "notifications (fst s') = []"
proof -
  have "live_source s = (PollPending, s')"
    using assms(1) [unfolded chunks_ready_def, THEN conjunct2, THEN spec, of s] unfolding assms(2) by simp
  with live_waits [of "fst s" "snd s" PollPending "fst s'" "snd s'"] assms(3) show ?thesis
    by (auto simp: live_source_def split: prod.splits)
qed

section \<open>One poll of the lazy side\<close>

fun side_item :: "'i option poll \<Rightarrow> 'i poll" where
  "side_item (PollReady (Some item)) = PollReady item"
| "side_item _ = PollPending"

text \<open>
  Against the listener of theory Storage with m fetches; and how fetches and wake-ups relate: k
  fetches are started in the poll, one for each chunk.
\<close>

definition lazy_polled ::
  "env \<Rightarrow> row_conv \<Rightarrow> config \<Rightarrow> string \<Rightarrow> nat \<Rightarrow> nat \<Rightarrow> lazy_side \<Rightarrow> world
    \<Rightarrow> stream_item option poll \<Rightarrow> lazy_side \<Rightarrow> world \<Rightarrow> bool" where
  "lazy_polled env conv cfg inst cap n l w p l' w' \<longleftrightarrow>
     p \<noteq> PollReady None \<and>
     (\<exists>m rs ns k. m \<le> n \<and> fetches env conv cfg inst m w = (rs, w') \<and>
        lazy_next env conv cfg inst m (lz_items l) w = (side_item p, lz_items l', w') \<and>
        notifications (lz_inputs l) = ns @ notifications (lz_inputs l') \<and>
        m + of_bool (lz_fetching l') = k + of_bool (lz_fetching l) \<and>
        k \<le> creates ns \<and> creates ns \<le> cap * k \<and>
        (p = PollPending \<and> m < n \<longrightarrow> \<not> lz_fetching l' \<and>
           (lf_state (lz_live l') = LiveActive \<longrightarrow> notifications (lz_inputs l') = [])))"

lemma lazy_polledI:
  assumes "p \<noteq> PollReady None" "m \<le> n" "fetches env conv cfg inst m w = (rs, w')"
    "lazy_next env conv cfg inst m (lz_items l) w = (side_item p, lz_items l', w')"
    "notifications (lz_inputs l) = ns @ notifications (lz_inputs l')"
    "m + of_bool (lz_fetching l') = k + of_bool (lz_fetching l)"
    "k \<le> creates ns" "creates ns \<le> cap * k"
    "p = PollPending \<and> m < n \<longrightarrow> \<not> lz_fetching l' \<and>
       (lf_state (lz_live l') = LiveActive \<longrightarrow> notifications (lz_inputs l') = [])"
  shows "lazy_polled env conv cfg inst cap n l w p l' w'"
  unfolding lazy_polled_def using assms by blast

text \<open>The two ways in which a poll goes on: a fetch completes, or a chunk starts one.\<close>

lemma lazy_polled_fetched:
  assumes "fetch_next env conv cfg inst w = (res, w1)" and "lz_items l = []" and "lz_fetching l"
    and "lazy_polled env conv cfg inst cap n (l\<lparr>lz_fetching := False, lz_items := lazy_items res\<rparr>) w1 p l' w'"
  shows "lazy_polled env conv cfg inst cap (Suc n) l w p l' w'"
proof -
  from assms(4) obtain m rs ns k where f: "p \<noteq> PollReady None" "m \<le> n" "fetches env conv cfg inst m w1 = (rs, w')"
    "lazy_next env conv cfg inst m (lazy_items res) w1 = (side_item p, lz_items l', w')"
    "notifications (lz_inputs l) = ns @ notifications (lz_inputs l')"
    "m + of_bool (lz_fetching l') = k" "k \<le> creates ns" "creates ns \<le> cap * k"
    "p = PollPending \<and> m < n \<longrightarrow> \<not> lz_fetching l' \<and>
      (lf_state (lz_live l') = LiveActive \<longrightarrow> notifications (lz_inputs l') = [])"
    unfolding lazy_polled_def by auto
  show ?thesis
    by (rule lazy_polledI [where m = "Suc m" and rs = "res # rs" and ns = ns and k = k])
      (use f assms(1-3) in simp_all)
qed

lemma lazy_polled_woken:
  assumes "chunks_ready cap live_source chunk" and "chunk (lz_inputs l, lz_live l) = (PollReady (Some j), i, f)"
    and "\<not> lz_fetching l"
    and "lazy_polled env conv cfg inst cap n (l\<lparr>lz_inputs := i, lz_live := f, lz_fetching := True\<rparr>) w p l' w'"
  shows "lazy_polled env conv cfg inst cap n l w p l' w'"
proof -
  from chunk_consumes [OF assms(1,2)] obtain ns where
    "notifications (lz_inputs l) = ns @ notifications i" "0 < j" "j \<le> cap" "creates ns = j" by auto
  moreover from assms(4) obtain m rs ms k where
    "p \<noteq> PollReady None" "m \<le> n" "fetches env conv cfg inst m w = (rs, w')"
    "lazy_next env conv cfg inst m (lz_items l) w = (side_item p, lz_items l', w')"
    "notifications i = ms @ notifications (lz_inputs l')"
    "m + of_bool (lz_fetching l') = k + 1" "k \<le> creates ms" "creates ms \<le> cap * k"
    "p = PollPending \<and> m < n \<longrightarrow> \<not> lz_fetching l' \<and>
      (lf_state (lz_live l') = LiveActive \<longrightarrow> notifications (lz_inputs l') = [])"
    unfolding lazy_polled_def by auto
  ultimately show ?thesis using assms(3)
    by (intro lazy_polledI [where m = m and rs = rs and ns = "ns @ ms" and k = "Suc k"]) simp_all
qed

lemma lazy_polled_waits:
  assumes "chunks_ready cap live_source chunk" and "chunk (lz_inputs l, lz_live l) = (PollPending, i, f)"
    and "lz_items l = []" and "\<not> lz_fetching l"
  shows "lazy_polled env conv cfg inst cap n l w PollPending (l\<lparr>lz_inputs := i, lz_live := f\<rparr>) w"
proof -
  from chunk_consumes [OF assms(1,2)] obtain ns where
    "notifications (lz_inputs l) = ns @ notifications i" "creates ns = 0" by auto
  moreover have "lf_state f = LiveActive \<longrightarrow> notifications i = []" using chunk_waits [OF assms(1,2)] by simp
  ultimately show ?thesis using assms(3,4)
    by (intro lazy_polledI [where m = 0 and rs = "[]" and ns = ns and k = 0]) simp_all
qed

lemma lazy_poll_polled:
  assumes "chunks_ready cap live_source chunk"
  shows "lazy_poll env conv cfg inst chunk n l w = (p, l', w') \<Longrightarrow>
    lazy_polled env conv cfg inst cap n l w p l' w'"
  using assms
proof (induction env conv cfg inst chunk n l w rule: lazy_poll.induct)
  case (1 env conv cfg inst chunk n l w)
  note eq = 1(3) [unfolded lazy_poll.simps [of env conv cfg inst chunk n l w]] and ready = 1(4)
  have still: ?case if "p \<noteq> PollReady None" "w' = w" "lz_inputs l' = lz_inputs l" "lz_fetching l' = lz_fetching l"
    "lazy_next env conv cfg inst 0 (lz_items l) w = (side_item p, lz_items l', w)" "p = PollPending \<longrightarrow> n = 0"
    using that by (intro lazy_polledI [where m = 0 and rs = "[]" and ns = "[]" and k = 0]) auto
  consider (item) item items where "lz_items l = item # items"
    | (flight) "lz_items l = []" "lz_fetching l" "n = 0"
    | (fetched) n' where "lz_items l = []" "lz_fetching l" "n = Suc n'"
    | (chunk) "lz_items l = []" "\<not> lz_fetching l" by (metis list.exhaust nat.exhaust)
  then show ?case
  proof cases
    case item
    with eq still show ?thesis by auto
  next
    case flight
    with eq still show ?thesis by auto
  next
    case fetched
    obtain res w1 where r: "fetch_next env conv cfg inst w = (res, w1)" by fastforce
    with eq fetched have "lazy_poll env conv cfg inst chunk n'
      (l\<lparr>lz_fetching := False, lz_items := lazy_items res\<rparr>) w1 = (p, l', w')" by simp
    from lazy_polled_fetched [OF r fetched(1,2) 1(1) [OF fetched r [symmetric] this ready]]
    show ?thesis by (simp only: fetched(3))
  next
    case chunk
    obtain q i f where c: "chunk (lz_inputs l, lz_live l) = (q, i, f)" by (metis prod_cases3)
    then consider "q = PollPending" | j where "q = PollReady (Some j)"
      using chunk_consumes [OF ready c] by (metis option.exhaust poll.exhaust)
    then show ?thesis
    proof cases
      case 1
      with eq chunk c lazy_polled_waits [OF ready c [unfolded 1] chunk]
      show ?thesis by simp
    next
      case (2 j)
      with eq chunk c have "lazy_poll env conv cfg inst chunk n
        (l\<lparr>lz_inputs := i, lz_live := f, lz_fetching := True\<rparr>) w = (p, l', w')" by simp
      from lazy_polled_woken [OF ready c [unfolded 2] chunk(2) 1(2) [OF chunk c [symmetric] 2 refl refl this ready]]
      show ?thesis .
    qed
  qed
qed

section \<open>The whole stream\<close>

text \<open>\<open>select\<close> of both sides: a turn of the lazy side with what has become ready, or of the eager one.\<close>

record live_listener =
  ll_lazy :: lazy_side
  ll_eager :: poll_fetcher

datatype live_turn = LiveTurn nat live_inputs | PollTurn nat "delay_item list"

definition arrive :: "live_inputs \<Rightarrow> lazy_side \<Rightarrow> lazy_side" where
  "arrive j l = l\<lparr>lz_inputs := more_inputs (lz_inputs l) j\<rparr>"

lemma arrive_simps [simp]:
  "lz_items (arrive j l) = lz_items l" "lz_fetching (arrive j l) = lz_fetching l"
  "notifications (lz_inputs (arrive j l)) = notifications (lz_inputs l) @ notifications j"
  by (simp_all add: arrive_def more_inputs_def)

fun live_listener_turn ::
  "env \<Rightarrow> row_conv \<Rightarrow> config \<Rightarrow> string \<Rightarrow> chunker \<Rightarrow> live_turn \<Rightarrow> live_listener \<Rightarrow> world
    \<Rightarrow> stream_item poll \<times> live_listener \<times> world" where
  "live_listener_turn env conv cfg inst chunk (LiveTurn n j) s w =
     (case lazy_poll env conv cfg inst chunk n (arrive j (ll_lazy s)) w of
        (p, l, w') \<Rightarrow> (side_item p, s\<lparr>ll_lazy := l\<rparr>, w'))"
| "live_listener_turn env conv cfg inst chunk (PollTurn n ds) s w =
     (case poll_next env conv cfg inst n ds (ll_eager s) w of
        (p, f, w') \<Rightarrow> (side_item p, s\<lparr>ll_eager := f\<rparr>, w'))"

definition lazy_side_new :: "live_fetcher \<Rightarrow> lazy_side" where
  "lazy_side_new f =
     \<lparr>lz_inputs = \<lparr>subscriptions = [], notifications = [], elapsed = 0\<rparr>, lz_live = f,
      lz_fetching = False, lz_items = []\<rparr>"

text \<open>
  \<open>poll_with_listener\<close> from the storage's own live fetcher. \<open>ready_chunks\<close> makes the chunks of a
  capacity, or panics (\<open>None\<close>), which happens when the stream is built, before the registration.
\<close>

definition poll_with_live_listener ::
  "env \<Rightarrow> row_conv \<Rightarrow> (nat \<Rightarrow> (live_inputs \<times> live_fetcher) source \<Rightarrow> chunker option) \<Rightarrow> worker_context
    \<Rightarrow> live_fetcher storage \<Rightarrow> live_turn list \<Rightarrow> world \<Rightarrow> (stream_item list \<times> live_listener \<times> world) option"
where
  "poll_with_live_listener env conv ready_chunks wc st ts w =
     (case ready_chunks (cfg_buffer_size (st_config st)) live_source of
        None \<Rightarrow> None
      | Some chunk \<Rightarrow>
          Some (case initial_heartbeat env (st_config st) wc ''SurrealStorageWithEvents'' (st_instance st) w of
            (res, w') \<Rightarrow>
              (case turns (live_listener_turn env conv (st_config st) (st_instance st) chunk) ts
                      \<lparr>ll_lazy = lazy_side_new (st_fetcher st), ll_eager = poll_fetcher_new\<rparr> w' of
                 (items, r) \<Rightarrow> (registration_item res # items, r))))"

text \<open>\<open>Backend::poll\<close> over it: each item is decoded before the stream is polled again.\<close>

definition live_listener_poll ::
  "env \<Rightarrow> row_conv \<Rightarrow> (bytes \<Rightarrow> string + 'a) \<Rightarrow> (nat \<Rightarrow> (live_inputs \<times> live_fetcher) source \<Rightarrow> chunker option)
    \<Rightarrow> worker_context \<Rightarrow> live_fetcher storage \<Rightarrow> live_turn list \<Rightarrow> world
    \<Rightarrow> ((surreal_error + 'a surreal_task option) list \<times> live_listener \<times> world) option"
where
  "live_listener_poll env conv decode ready_chunks wc st ts w =
     (case ready_chunks (cfg_buffer_size (st_config st)) live_source of
        None \<Rightarrow> None
      | Some chunk \<Rightarrow>
          Some (case initial_heartbeat env (st_config st) wc ''SurrealStorageWithEvents'' (st_instance st) w of
            (res, w') \<Rightarrow>
              (case decode_or_kill env decode (registration_item res) w' of
                 (first, w1) \<Rightarrow>
                   (case turns (then_decode env decode
                             (live_listener_turn env conv (st_config st) (st_instance st) chunk)) ts
                           \<lparr>ll_lazy = lazy_side_new (st_fetcher st), ll_eager = poll_fetcher_new\<rparr> w1 of
                      (items, r) \<Rightarrow> (first # items, r)))))"

text \<open>What is documented of \<open>ready_chunks\<close>: it panics for a capacity of zero and only then.\<close>

definition chunks_documented :: "(nat \<Rightarrow> 's source \<Rightarrow> ('s \<Rightarrow> nat option poll \<times> 's) option) \<Rightarrow> bool" where
  "chunks_documented ready_chunks \<longleftrightarrow>
     (\<forall>cap source. case ready_chunks cap source of
        None \<Rightarrow> cap = 0 | Some chunk \<Rightarrow> chunks_ready cap source chunk)"

section \<open>The listener of theory Storage\<close>

definition seen :: "live_listener \<Rightarrow> listener" where
  "seen s = \<lparr>ls_lazy = lz_items (ll_lazy s), ls_eager = ll_eager s\<rparr>"

lemma side_item_eager: "side_item p = (case p of PollReady (Some item) \<Rightarrow> PollReady item | _ \<Rightarrow> PollPending)"
  by (cases p rule: side_item.cases) simp_all

lemma live_turn_refines:
  assumes "chunks_ready cap live_source chunk"
    and "live_listener_turn env conv cfg inst chunk t s w = (p, s', w')"
  shows "\<exists>t'. listener_turn env conv cfg inst t' (seen s) w = (p, seen s', w')"
proof (cases t)
  case (LiveTurn n j)
  obtain q l where l: "lazy_poll env conv cfg inst chunk n (arrive j (ll_lazy s)) w = (q, l, w')"
    "p = side_item q" "s' = s\<lparr>ll_lazy := l\<rparr>"
    using assms(2) LiveTurn by (auto split: prod.splits)
  from lazy_poll_polled [OF assms(1) l(1)] obtain m where
    "lazy_next env conv cfg inst m (lz_items (ll_lazy s)) w = (p, lz_items l, w')"
    unfolding lazy_polled_def l(2) by auto
  with l(3) show ?thesis by (intro exI [of _ "LazyPoll m"]) (simp add: seen_def)
next
  case (PollTurn n ds)
  with assms(2) show ?thesis
    by (intro exI [of _ "EagerPoll n ds"]) (auto simp: seen_def side_item_eager split: prod.splits)
qed

lemma turns_simulated:
  assumes "\<And>t s w p s' w'. concrete t s w = (p, s', w') \<Longrightarrow> \<exists>t'. abstract t' (f s) w = (p, f s', w')"
  shows "turns concrete ts s w = (items, s', w') \<Longrightarrow> \<exists>ts'. turns abstract ts' (f s) w = (items, f s', w')"
proof (induction ts arbitrary: s w items)
  case (Cons t ts)
  obtain p s1 w1 where t: "concrete t s w = (p, s1, w1)" by (metis prod_cases3)
  obtain items1 where r: "turns concrete ts s1 w1 = (items1, s', w')"
    "items = (case p of PollReady item \<Rightarrow> item # items1 | PollPending \<Rightarrow> items1)"
    using Cons.prems t by (auto split: prod.splits)
  obtain t' where "abstract t' (f s) w = (p, f s1, w1)" using assms [OF t] by blast
  moreover obtain ts' where "turns abstract ts' (f s1) w1 = (items1, f s', w')" using Cons.IH [OF r(1)] by blast
  ultimately show ?case using r(2) by (intro exI [of _ "t' # ts'"]) simp
qed (auto intro: exI [of _ "[]"])

lemma then_decode_simulated:
  assumes "\<And>t s w p s' w'. concrete t s w = (p, s', w') \<Longrightarrow> \<exists>t'. abstract t' (f s) w = (p, f s', w')"
    and "then_decode env decode concrete t s w = (p, s', w')"
  shows "\<exists>t'. then_decode env decode abstract t' (f s) w = (p, f s', w')"
proof -
  obtain q s1 w1 where q: "concrete t s w = (q, s1, w1)" by (metis prod_cases3)
  obtain t' where t': "abstract t' (f s) w = (q, f s1, w1)" using assms(1) [OF q] by blast
  show ?thesis
  proof (cases q)
    case PollPending
    with assms(2) q t' show ?thesis by (intro exI [of _ t']) simp
  next
    case (PollReady item)
    obtain res w2 where "decode_or_kill env decode item w1 = (res, w2)" by fastforce
    with PollReady assms(2) q t' show ?thesis by (intro exI [of _ t']) simp
  qed
qed

lemma live_turns_refine:
  assumes "chunks_ready cap live_source chunk"
  shows "turns (live_listener_turn env conv cfg inst chunk) ts s w = (items, s', w') \<Longrightarrow>
    \<exists>ts'. turns (listener_turn env conv cfg inst) ts' (seen s) w = (items, seen s', w')"
  by (rule turns_simulated [where concrete = "live_listener_turn env conv cfg inst chunk" and f = seen
        and abstract = "listener_turn env conv cfg inst", OF live_turn_refines [OF assms]])

lemma live_decoded_refine:
  assumes "chunks_ready cap live_source chunk"
  shows "turns (then_decode env decode (live_listener_turn env conv cfg inst chunk)) ts s w = (items, s', w') \<Longrightarrow>
    \<exists>ts'. turns (then_decode env decode (listener_turn env conv cfg inst)) ts' (seen s) w = (items, seen s', w')"
  by (rule turns_simulated [where concrete = "then_decode env decode (live_listener_turn env conv cfg inst chunk)"
        and f = seen and abstract = "then_decode env decode (listener_turn env conv cfg inst)",
      OF then_decode_simulated [where concrete = "live_listener_turn env conv cfg inst chunk" and f = seen
        and abstract = "listener_turn env conv cfg inst", OF live_turn_refines [OF assms]]])

section \<open>Histories of the lazy side\<close>

text \<open>
  Polls of the lazy side, each with how many fetches may complete, what has become ready, and the
  world it finds; the log has the world before, the answer and the world after each.
\<close>

fun lazy_run ::
  "env \<Rightarrow> row_conv \<Rightarrow> config \<Rightarrow> string \<Rightarrow> chunker \<Rightarrow> (nat \<times> live_inputs \<times> world) list \<Rightarrow> lazy_side
    \<Rightarrow> (world \<times> stream_item option poll \<times> world) list \<times> lazy_side" where
  "lazy_run env conv cfg inst chunk [] l = ([], l)"
| "lazy_run env conv cfg inst chunk ((n, j, w) # ps) l =
     (case lazy_poll env conv cfg inst chunk n (arrive j l) w of
        (p, l1, w1) \<Rightarrow>
          (case lazy_run env conv cfg inst chunk ps l1 of (log, l2) \<Rightarrow> ((w, p, w1) # log, l2)))"

definition ran_fetches :: "env \<Rightarrow> row_conv \<Rightarrow> config \<Rightarrow> string \<Rightarrow> nat \<Rightarrow> world \<times> 'p \<times> world \<Rightarrow> bool" where
  "ran_fetches env conv cfg inst m entry \<longleftrightarrow> snd (fetches env conv cfg inst m (fst entry)) = snd (snd entry)"

lemma lazy_run_covered:
  assumes "chunks_ready cap live_source chunk"
  shows "lazy_run env conv cfg inst chunk ps l = (log, l') \<Longrightarrow>
    \<exists>ms ns k. list_all2 (ran_fetches env conv cfg inst) ms log \<and>
      notifications (lz_inputs l) @ concat (map (\<lambda>(n, j, w). notifications j) ps) =
        ns @ notifications (lz_inputs l') \<and>
      sum_list ms + of_bool (lz_fetching l') = k + of_bool (lz_fetching l) \<and>
      k \<le> creates ns \<and> creates ns \<le> cap * k"
proof (induction ps arbitrary: l log)
  case Nil
  then show ?case by (intro exI [of _ "[]"] exI [of _ 0]) auto
next
  case (Cons pl ps)
  obtain n j w where pl: "pl = (n, j, w)" by (metis prod_cases3)
  obtain p l1 w1 where q: "lazy_poll env conv cfg inst chunk n (arrive j l) w = (p, l1, w1)"
    by (metis prod_cases3)
  obtain log1 where r: "lazy_run env conv cfg inst chunk ps l1 = (log1, l')" "log = (w, p, w1) # log1"
    using Cons.prems pl q by (auto split: prod.splits)
  from lazy_poll_polled [OF assms q] obtain m rs ns k where
    m: "fetches env conv cfg inst m w = (rs, w1)"
      "notifications (lz_inputs l) @ notifications j = ns @ notifications (lz_inputs l1)"
      "m + of_bool (lz_fetching l1) = k + of_bool (lz_fetching l)" "k \<le> creates ns" "creates ns \<le> cap * k"
    unfolding lazy_polled_def by auto
  from Cons.IH [OF r(1)] obtain ms ns' k' where
    ms: "list_all2 (ran_fetches env conv cfg inst) ms log1"
      "notifications (lz_inputs l1) @ concat (map (\<lambda>(n, j, w). notifications j) ps) =
        ns' @ notifications (lz_inputs l')"
      "sum_list ms + of_bool (lz_fetching l') = k' + of_bool (lz_fetching l1)"
      "k' \<le> creates ns'" "creates ns' \<le> cap * k'" by blast
  have "notifications (lz_inputs l) @ concat (map (\<lambda>(n, j, w). notifications j) (pl # ps)) =
      (notifications (lz_inputs l) @ notifications j) @ concat (map (\<lambda>(n, j, w). notifications j) ps)"
    by (simp add: pl)
  also have "\<dots> = ns @ (notifications (lz_inputs l1) @ concat (map (\<lambda>(n, j, w). notifications j) ps))"
    unfolding m(2) by simp
  also have "\<dots> = (ns @ ns') @ notifications (lz_inputs l')" unfolding ms(2) by simp
  finally have seen: "notifications (lz_inputs l) @ concat (map (\<lambda>(n, j, w). notifications j) (pl # ps)) =
      (ns @ ns') @ notifications (lz_inputs l')" .
  have "list_all2 (ran_fetches env conv cfg inst) (m # ms) log" using ms(1) m(1) r(2) by (simp add: ran_fetches_def)
  moreover have "sum_list (m # ms) + of_bool (lz_fetching l') = (k + k') + of_bool (lz_fetching l)"
    using m(3) ms(3) by simp
  moreover have "k + k' \<le> creates (ns @ ns')" "creates (ns @ ns') \<le> cap * (k + k')"
    using m(4,5) ms(4,5) by (simp_all add: distrib_left)
  ultimately show ?case using seen by blast
qed

section \<open>Properties\<close>

text \<open>C17. The listening stream with the live fetcher, its chunks and its fetches inside refines the listener whose chunks are an input: building it panics exactly when the buffer size is zero, and otherwise every history of it, compact or decoded, hands out the items, and leaves the world and the poll fetcher, of a history of that listener, so that what is proved of the listener (conservation and order of tasks, their owner, their outcome) holds of it.\<close>

theorem live_listener_refines:
  assumes "chunks_documented ready_chunks"
  shows "(case poll_with_live_listener env conv ready_chunks wc st ts w of
      None \<Rightarrow> cfg_buffer_size (st_config st) = 0
    | Some (items, s, w') \<Rightarrow> 0 < cfg_buffer_size (st_config st) \<and>
        (\<exists>ts'. poll_with_listener env conv wc st ts' w = (items, seen s, w'))) \<and>
    (case live_listener_poll env conv decode ready_chunks wc st ts w of
      None \<Rightarrow> cfg_buffer_size (st_config st) = 0
    | Some (items, s, w') \<Rightarrow> 0 < cfg_buffer_size (st_config st) \<and>
        (\<exists>ts'. listener_poll env conv decode wc st ts' w = (items, seen s, w')))"
proof (cases "ready_chunks (cfg_buffer_size (st_config st)) live_source")
  case None
  with assms [unfolded chunks_documented_def, THEN spec, THEN spec,
      of "cfg_buffer_size (st_config st)" live_source]
  show ?thesis by (simp add: poll_with_live_listener_def live_listener_poll_def)
next
  case (Some chunk)
  let ?cfg = "st_config st" and ?inst = "st_instance st"
  let ?new = "\<lparr>ll_lazy = lazy_side_new (st_fetcher st), ll_eager = poll_fetcher_new\<rparr>"
  have c: "chunks_ready (cfg_buffer_size ?cfg) live_source chunk"
    using assms [unfolded chunks_documented_def, THEN spec, THEN spec, of "cfg_buffer_size ?cfg" live_source] Some
    by simp
  then have pos: "0 < cfg_buffer_size ?cfg" by (simp add: chunks_ready_def)
  have new: "seen ?new = listener_new" by (simp add: seen_def lazy_side_new_def listener_new_def)
  obtain res w1 where reg: "initial_heartbeat env ?cfg wc ''SurrealStorageWithEvents'' ?inst w = (res, w1)"
    by fastforce
  obtain first w2 where d: "decode_or_kill env decode (registration_item res) w1 = (first, w2)" by fastforce
  obtain items s w' where r: "turns (live_listener_turn env conv ?cfg ?inst chunk) ts ?new w1 = (items, s, w')"
    by (metis prod_cases3)
  obtain items2 s2 w3 where r2: "turns (then_decode env decode (live_listener_turn env conv ?cfg ?inst chunk))
      ts ?new w2 = (items2, s2, w3)" by (metis prod_cases3)
  obtain ts1 where "turns (listener_turn env conv ?cfg ?inst) ts1 listener_new w1 = (items, seen s, w')"
    using live_turns_refine [OF c r] unfolding new by blast
  then have "poll_with_listener env conv wc st ts1 w = (registration_item res # items, seen s, w')"
    by (simp add: poll_with_listener_def reg listener_items_def)
  moreover obtain ts2 where "turns (then_decode env decode (listener_turn env conv ?cfg ?inst)) ts2 listener_new w2
      = (items2, seen s2, w3)"
    using live_decoded_refine [OF c r2] unfolding new by blast
  then have "listener_poll env conv decode wc st ts2 w = (first # items2, seen s2, w3)"
    by (simp add: listener_poll_def reg d)
  ultimately show ?thesis using pos Some
    by (auto simp: poll_with_live_listener_def live_listener_poll_def reg r r2 d)
qed

text \<open>C18. Notifications are answered by claims: over any history of polls of the lazy side, whatever becomes ready and whatever happens to the tables in between, notifications are read in order, and the fetches run so far, with the one in flight, are at most as many as the created jobs read about and, times the buffer size, at least as many: as each fetch asks for as many jobs as the buffer size, the claims ask for at least one job for every created job, and none is made without one.\<close>

theorem wakes_covered:
  assumes "chunks_ready (cfg_buffer_size cfg) live_source chunk"
    and "lazy_run env conv cfg inst chunk ps (lazy_side_new f) = (log, l)"
  shows "\<exists>ms ns. list_all2 (ran_fetches env conv cfg inst) ms log \<and>
    concat (map (\<lambda>(n, j, w). notifications j) ps) = ns @ notifications (lz_inputs l) \<and>
    sum_list ms + of_bool (lz_fetching l) \<le> creates ns \<and>
    creates ns \<le> cfg_buffer_size cfg * (sum_list ms + of_bool (lz_fetching l))"
proof -
  have "\<not> lz_fetching (lazy_side_new f)" "notifications (lz_inputs (lazy_side_new f)) = []"
    by (simp_all add: lazy_side_new_def)
  with lazy_run_covered [OF assms] show ?thesis by (auto simp del: sum_list_eq_0_iff)
qed

section \<open>Witnesses\<close>

definition sample_chunks :: "nat \<Rightarrow> 's source \<Rightarrow> ('s \<Rightarrow> nat option poll \<times> 's) option" where
  "sample_chunks cap source = (if cap = 0 then None else Some (chunk_of cap source))"

lemma sample_chunks_documented: "chunks_documented sample_chunks"
  using chunk_of_ready by (auto simp: chunks_documented_def sample_chunks_def)

theorem live_listener_refines_witness:
  "\<exists>items s w'. poll_with_live_listener (calm late) sample_conv sample_chunks
      \<lparr>ctx_name = ''mailer'', ctx_service = ''stack''\<rparr> (new_with_events ''w1'' sample_config)
      [LiveTurn 1 busy] start_world = Some (items, s, w') \<and>
    (\<exists>ts'. poll_with_listener (calm late) sample_conv \<lparr>ctx_name = ''mailer'', ctx_service = ''stack''\<rparr>
      (new_with_events ''w1'' sample_config) ts' start_world = (items, seen s, w'))"
proof -
  have "cfg_buffer_size (st_config (new_with_events ''w1'' sample_config)) \<noteq> 0"
    by (simp add: new_with_events_def sample_config_def)
  with live_listener_refines [OF sample_chunks_documented, where env = "calm late" and conv = sample_conv
      and wc = "\<lparr>ctx_name = ''mailer'', ctx_service = ''stack''\<rparr>" and st = "new_with_events ''w1'' sample_config"
      and ts = "[LiveTurn 1 busy]" and w = start_world, THEN conjunct1]
  show ?thesis by (auto split: option.splits)
qed

theorem wakes_covered_witness:
  "\<exists>ms log l. lazy_run (calm late) sample_conv sample_config ''w1'' (chunk_of 10 live_source) [(0, busy, start_world)]
      (lazy_side_new live_fetcher_new) = (log, l) \<and> lz_fetching l \<and> notifications (lz_inputs l) = [] \<and>
    sum_list ms + 1 \<le> (2 :: nat) \<and> 2 \<le> 10 * (sum_list ms + 1)"
proof -
  have c: "chunks_ready (cfg_buffer_size sample_config) live_source (chunk_of 10 live_source)"
    using chunk_of_ready [of 10] by (simp add: sample_config_def)
  obtain log l where r: "lazy_run (calm late) sample_conv sample_config ''w1'' (chunk_of 10 live_source)
      [(0, busy, start_world)] (lazy_side_new live_fetcher_new) = (log, l)" by fastforce
  have l: "lz_fetching l" "notifications (lz_inputs l) = []"
    using r by (auto simp: lazy_side_new_def lazy_poll.simps arrive_def more_inputs_def busy_def
        live_fetcher_new_def live_source_def live_poll_next.simps numeral_eq_Suc)
  from wakes_covered [OF c r] obtain ms ns where
    "notifications busy = ns @ notifications (lz_inputs l)"
    "sum_list ms + of_bool (lz_fetching l) \<le> creates ns"
    "creates ns \<le> cfg_buffer_size sample_config * (sum_list ms + of_bool (lz_fetching l))" by auto
  then have "ns = notifications busy" "sum_list ms + 1 \<le> creates ns" "creates ns \<le> 10 * (sum_list ms + 1)"
    using l by (simp_all add: sample_config_def)
  moreover have "creates (notifications busy) = 2" by (simp add: busy_def)
  ultimately have "sum_list ms + 1 \<le> 2" "2 \<le> 10 * (sum_list ms + 1)" by simp_all
  with r l show ?thesis by blast
qed

end
