(* ===== verification/Middleware.thy ===== *)
theory Middleware
  imports Ack Poll_Fetcher
begin

text \<open>
  The middleware of \<open>src/lib.rs\<close> and \<open>src/shared.rs\<close>: how the lock layer and the
  acknowledgement layer are put around the task's own service, in opposite orders for the two
  kinds of storage. The stack (\<open>tower\<close>) and the acknowledgement layer (\<open>apalis_core\<close>) are outside
  the repository and arguments here; \<open>nests_outward\<close> and \<open>acknowledges\<close> say what is documented of
  them.
\<close>

section \<open>Layers\<close>

type_synonym ('a, 'r) service = "'a surreal_task \<Rightarrow> world \<Rightarrow> (boxed_error + 'r) \<times> world"

type_synonym 'r acker =
  "boxed_error + 'r \<Rightarrow> parts \<Rightarrow> world \<Rightarrow> (surreal_error + unit) \<times> parts \<times> world"

text \<open>Every error of a service is a \<open>BoxDynError\<close>; one that comes from the storage is no \<open>AbortError\<close>.\<close>

fun boxed :: "service_error \<Rightarrow> boxed_error" where
  "boxed (Storage e) = \<lparr>is_abort = False, error_text = surreal_error_text e\<rparr>"
| "boxed (Inner e) = e"

text \<open>\<open>LockTaskLayer::layer\<close> and the service it makes.\<close>

definition lock_layer :: "env \<Rightarrow> string \<Rightarrow> ('a, 'r) service \<Rightarrow> ('a, 'r) service" where
  "lock_layer env inst svc req w =
     (case lock_service_call env inst svc req w of
        (Inl e, w') \<Rightarrow> (Inl (boxed e), w')
      | (Inr v, w') \<Rightarrow> (Inr v, w'))"

text \<open>\<open>LockTaskService::poll_ready\<close> asks the wrapped service.\<close>

definition lock_poll_ready :: "('e \<Rightarrow> boxed_error) \<Rightarrow> ('e + unit) poll \<Rightarrow> (boxed_error + unit) poll" where
  "lock_poll_ready into p =
     (case p of
        PollPending \<Rightarrow> PollPending
      | PollReady (Inl e) \<Rightarrow> PollReady (Inl (into e))
      | PollReady (Inr u) \<Rightarrow> PollReady (Inr u))"

section \<open>The two stacks\<close>

text \<open>
  \<open>middleware_stack\<close> of a storage with its own fetcher: \<open>Stack::new(lock, ack)\<close>; and the
  \<open>middleware\<close> of a shared one: \<open>Stack::new(ack, lock)\<close>. The instance is the storage's.
\<close>

type_synonym ('a, 'r) wrap = "('a, 'r) service \<Rightarrow> ('a, 'r) service"

definition middleware_stack ::
  "(('a, 'r) wrap \<Rightarrow> ('a, 'r) wrap \<Rightarrow> ('a, 'r) wrap) \<Rightarrow> ('r acker \<Rightarrow> ('a, 'r) wrap)
    \<Rightarrow> env \<Rightarrow> ('r \<Rightarrow> string + json) \<Rightarrow> string \<Rightarrow> ('a, 'r) wrap" where
  "middleware_stack stack_new ack_layer env ser inst =
     (let lock = lock_layer env inst;
          acks = ack_layer (ack env ser)
      in stack_new lock acks)"

definition shared_middleware ::
  "(('a, 'r) wrap \<Rightarrow> ('a, 'r) wrap \<Rightarrow> ('a, 'r) wrap) \<Rightarrow> ('r acker \<Rightarrow> ('a, 'r) wrap)
    \<Rightarrow> env \<Rightarrow> ('r \<Rightarrow> string + json) \<Rightarrow> string \<Rightarrow> ('a, 'r) wrap" where
  "shared_middleware stack_new ack_layer env ser inst =
     (let lock = lock_layer env inst;
          acks = ack_layer (ack env ser)
      in stack_new acks lock)"

section \<open>What is documented of the third-party layers\<close>

text \<open>\<open>Stack::new(inner, outer)\<close>: the outer layer wraps what the inner layer makes.\<close>

definition nests_outward :: "(('a, 'r) wrap \<Rightarrow> ('a, 'r) wrap \<Rightarrow> ('a, 'r) wrap) \<Rightarrow> bool" where
  "nests_outward stack_new \<longleftrightarrow> (\<forall>inner outer svc. stack_new inner outer svc = outer (inner svc))"

text \<open>
  The acknowledgement layer runs the wrapped service and then acknowledges its result with the
  parts the task had when the layer was called; what it returns when acknowledging fails is left
  open.
\<close>

definition acknowledges :: "('r acker \<Rightarrow> ('a, 'r) wrap) \<Rightarrow> bool" where
  "acknowledges ack_layer \<longleftrightarrow>
     (\<forall>acker svc req w res w1 r p' w2.
        svc req w = (res, w1) \<and> acker res (snd req) w1 = (r, p', w2) \<longrightarrow>
        snd (ack_layer acker svc req w) = w2 \<and> (r = Inr () \<longrightarrow> fst (ack_layer acker svc req w) = res))"

lemma middleware_nesting:
  assumes "nests_outward stack_new"
  shows "middleware_stack stack_new ack_layer env ser inst svc =
      ack_layer (ack env ser) (lock_layer env inst svc)"
    and "shared_middleware stack_new ack_layer env ser inst svc =
      lock_layer env inst (ack_layer (ack env ser) svc)"
  using assms by (simp_all add: nests_outward_def middleware_stack_def shared_middleware_def)

lemma ack_layer_runs:
  assumes "acknowledges ack_layer" and "svc req w = (res, w1)" and "acker res (snd req) w1 = (r, p', w2)"
  shows "snd (ack_layer acker svc req w) = w2 \<and> (r = Inr () \<longrightarrow> fst (ack_layer acker svc req w) = res)"
  using assms unfolding acknowledges_def by blast

section \<open>One task through a layer, on an undisturbed engine\<close>

text \<open>The task as the lock layer passes it on, and the tables once the lock is taken.\<close>

definition stamped :: "string \<Rightarrow> parts \<Rightarrow> parts" where
  "stamped inst p = p\<lparr>part_ctx := (part_ctx p)\<lparr>ctx_lock_by := Some inst\<rparr>\<rparr>"

lemma stamped_simps [simp]:
  "part_task_id (stamped inst p) = part_task_id p" "part_attempt (stamped inst p) = part_attempt p"
  "ctx_lock_by (part_ctx (stamped inst p)) = Some inst"
  "calculate_status (stamped inst p) res = calculate_status p res"
  by (simp_all add: stamped_def calculate_status_def split: sum.split)

lemma stamped_same: "ctx_lock_by (part_ctx p) = Some inst \<Longrightarrow> stamped inst p = p"
  by (cases p; cases "part_ctx p") (simp add: stamped_def)

definition locked_world :: "time \<Rightarrow> string \<Rightarrow> string \<Rightarrow> world \<Rightarrow> world" where
  "locked_world t inst ident w =
     w\<lparr>store := snd (update_record (StringKey ident) (lock_guard inst) (set_running inst t) (store w)),
       trips := Suc (trips w)\<rparr>"

lemma locked_world_facts:
  assumes "db_inv (store w)" and "lookup_job (store w) (StringKey ident) = Some j" and "lock_guard inst j"
  shows "db_inv (store (locked_world t inst ident w))"
    and "lookup_job (store (locked_world t inst ident w)) (StringKey ident) = Some (set_running inst t j)"
  using assms locked.update_record_db_inv [OF assms(1), of "lock_guard inst" inst "StringKey ident" t]
  by (simp_all add: locked_world_def locked.lookup_update_record)

lemma lock_layer_grants:
  assumes "db_inv (store w)" and "lookup_job (store w) (StringKey ident) = Some j" and "lock_guard inst j"
    and "part_task_id p = Some ident" and "svc (x, stamped inst p) (locked_world t inst ident w) = (res, w')"
  shows "lock_layer (calm t) inst svc (x, p) w = (res, w')"
  using lock_task_calm [OF assms(1-3), of t] assms(4,5)
  by (cases res) (simp_all add: lock_layer_def lock_service_call_def locked_world_def stamped_def)

lemma lock_layer_refuses:
  assumes "verdict (env (trips w)) = Executes" and "d = others (env (trips w)) (store w)" and "db_inv d"
    and "part_task_id p = Some ident" and "\<forall>j. lookup_job d (StringKey ident) = Some j \<longrightarrow> \<not> lock_guard inst j"
  shows "lock_layer env inst svc (x, p) w =
    (Inl (boxed (Storage (TaskNotFound ident))), w\<lparr>store := d, trips := Suc (trips w)\<rparr>)"
proof -
  have "query env (lock_task_stmt (StringKey ident) inst) w = (Rows [], w\<lparr>store := d, trips := Suc (trips w)\<rparr>)"
    using assms(5) query_executes [where env = env and w = w, OF assms(1), of "lock_task_stmt (StringKey ident) inst" "[]" d]
    by (simp add: assms(2) [symmetric] lock_task_stmt_cases [OF assms(3)] split: option.splits)
  with assms(4) show ?thesis
    by (simp add: lock_layer_def lock_service_call_def lock_task_def)
qed

text \<open>
  The acknowledgement's one request, whatever becomes of it: if it takes effect, the row gets the
  outcome when it carries the instance's lock; it is reported as recorded when it was executed and
  found the row so.
\<close>

lemma ack_effect:
  assumes "d = others (env (trips w)) (store w)" and "db_inv d" and "result_value ser res = Inr v"
    and "part_task_id p = Some ident" and "ctx_lock_by (part_ctx p) = Some inst"
    and "ack env ser res p w = (r, p', w')"
  shows "lookup_job (store w') (StringKey ident) =
      map_option (\<lambda>j. if gets_through env (trips w) \<and> lock_by j = Some inst
        then set_acked (calculate_status p res) (as_i64 (int (part_attempt p))) v (clock (env (trips w))) j
        else j) (lookup_job d (StringKey ident)) \<and>
    (verdict (env (trips w)) = Executes \<and> (\<exists>j. lookup_job d (StringKey ident) = Some j \<and> lock_by j = Some inst)
      \<longrightarrow> r = Inr ())"
proof -
  let ?k = "StringKey ident" and ?t = "clock (env (trips w))"
  let ?s = "calculate_status p res" and ?n = "as_i64 (int (part_attempt p))"
  let ?stmt = "ack_task_stmt ?k inst ?s ?n v" and ?d' = "snd (update_record ?k (ack_guard inst) (set_acked ?s ?n v ?t) d)"
  obtain reply w1 where q: "query env ?stmt w = (reply, w1)" by fastforce
  have r: "w' = w1" "r = (case take_rows reply of Inl e \<Rightarrow> Inl e
      | Inr rows \<Rightarrow> if rows = [] then Inl (TaskNotFound ident) else Inr ())"
    using assms(3-6) q by (auto simp: ack_def ack_task_def Let_def split: sum.splits if_splits)
  have st: "?stmt ?t d = Inr (fst (update_record ?k (ack_guard inst) (set_acked ?s ?n v ?t) d), ?d')"
    by (simp add: ack_task_stmt_def)
  have "store w1 = (if gets_through env (trips w) then ?d' else d)"
    using q st
    by (auto simp: query_def Let_def gets_through_def assms(1) [symmetric] split: verdict.splits prod.splits)
  then have "lookup_job (store w1) ?k = map_option (\<lambda>j. if gets_through env (trips w) \<and> lock_by j = Some inst
      then set_acked ?s ?n v ?t j else j) (lookup_job d ?k)"
    using acked.lookup_update_record [of ?k "ack_guard inst" ?s ?n v ?t d ?k]
    by (auto simp: ack_guard_def option.map_ident)
  moreover have "r = Inr ()" if "verdict (env (trips w)) = Executes" "lookup_job d ?k = Some j" "lock_by j = Some inst" for j
    using q that ack_task_stmt_cases [OF assms(2), of ?k inst ?s ?n v ?t]
    by (auto simp: r query_def Let_def assms(1) [symmetric] ack_guard_def)
  ultimately show ?thesis using r(1) by blast
qed

section \<open>Properties\<close>

text \<open>The order of the layers matters for tasks of the shared claim, which carry no lock_by: with the acknowledgement around the lock, as the other storages nest them, the task would run but its outcome would not be recorded, and the row would stay running.\<close>

lemma outer_ack_loses_shared_outcome:
  assumes "nests_outward stack_new" and "acknowledges ack_layer" and "\<forall>req w. svc req w = (res, w)"
    and row: "db_inv (store w)" "lookup_job (store w) (StringKey ident) = Some j" "lock_guard inst j"
    and p: "part_task_id p = Some ident" and "ctx_lock_by (part_ctx p) = None"
  shows "lookup_job (store (snd (middleware_stack stack_new ack_layer (calm t) ser inst svc (x, p) w)))
      (StringKey ident) = Some (set_running inst t j)"
proof -
  let ?w1 = "locked_world t inst ident w"
  have l: "lock_layer (calm t) inst svc (x, p) w = (res, ?w1)"
    using row p by (rule lock_layer_grants) (simp add: assms(3))
  have a: "ack (calm t) ser res (snd (x, p)) ?w1 =
      (Inl MissingWorkerContext, p\<lparr>part_status := calculate_status p res\<rparr>, ?w1)"
    using p assms(8) by (simp add: ack_def Let_def)
  from ack_layer_runs [OF assms(2), where acker = "ack (calm t) ser" and req = "(x, p)"
      and svc = "lock_layer (calm t) inst svc", OF l a]
    locked_world_facts(2) [OF row] show ?thesis
    by (simp add: middleware_nesting(1) [OF assms(1)])
qed

text \<open>C30. When the request for the lock is executed and refused, because no row of the task may be locked by the instance then, the task's code does not run. The shared stack hands back the refusal and leaves the tables as they were. The other stack, for a task that carries the instance in its parts, as all its own claims do, sends the refusal itself as an outcome of the task; the request may still fail, and it is fenced off when another instance has the row, but if it takes effect on a row that still carries this instance's lock, as after the task was handed to it twice, the recorded outcome, even of a finished task, is overwritten by the refusal. Other clients may change the tables before each of the two requests.\<close>

theorem refused_lock_outcome:
  fixes ser :: "'r \<Rightarrow> string + json"
  assumes "nests_outward stack_new" and "acknowledges ack_layer" and up: "verdict (env (trips w)) = Executes"
    and d: "d = others (env (trips w)) (store w)" "db_inv d"
    and refused: "\<forall>j. lookup_job d (StringKey ident) = Some j \<longrightarrow> \<not> lock_guard inst j"
    and d2: "d2 = others (env (Suc (trips w))) d" "db_inv d2"
    and p: "part_task_id p = Some ident"
    and err: "err = \<lparr>is_abort = False, error_text = ''Task not found: '' @ ident\<rparr>"
  shows "shared_middleware stack_new ack_layer env ser inst svc (x, p) w =
      (Inl err, w\<lparr>store := d, trips := Suc (trips w)\<rparr>) \<and>
    (ctx_lock_by (part_ctx p) = Some inst \<longrightarrow>
     lookup_job (store (snd (middleware_stack stack_new ack_layer env ser inst svc (x, p) w))) (StringKey ident) =
      map_option (\<lambda>j. if gets_through env (Suc (trips w)) \<and> lock_by j = Some inst
        then set_acked (calculate_status p (Inl err :: boxed_error + 'r)) (as_i64 (int (part_attempt p)))
               (err_object (error_text err)) (clock (env (Suc (trips w)))) j
        else j) (lookup_job d2 (StringKey ident)))" (is "_ \<and> (_ \<longrightarrow> ?overwritten)")
proof -
  let ?w1 = "w\<lparr>store := d, trips := Suc (trips w)\<rparr>" and ?res = "Inl err :: boxed_error + 'r"
  have refuse: "lock_layer env inst svc' (x, p) w = (Inl err, ?w1)" for svc' :: "('a, 'r) service"
    using lock_layer_refuses [where env = env and w = w, OF up d p refused] by (simp add: err)
  have here: "d2 = others (env (trips ?w1)) (store ?w1)" "result_value ser ?res = Inr (err_object (error_text err))"
    by (simp_all add: d2(1) result_value_def)
  obtain r p' w2 where a: "ack env ser ?res (snd (x, p)) ?w1 = (r, p', w2)" by (metis prod_cases3)
  from ack_layer_runs [OF assms(2), where acker = "ack env ser" and req = "(x, p)"
      and svc = "lock_layer env inst svc", OF refuse a]
  have w2: "snd (middleware_stack stack_new ack_layer env ser inst svc (x, p) w) = w2"
    by (simp add: middleware_nesting(1) [OF assms(1)])
  note row = ack_effect [where env = env and w = ?w1, OF here(1) d2(2) here(2) p _ a [unfolded snd_conv], THEN conjunct1]
  have tr: "trips ?w1 = Suc (trips w)" by simp
  from row [unfolded tr] have "ctx_lock_by (part_ctx p) = Some inst \<longrightarrow> ?overwritten" unfolding w2 by (rule impI)
  then show ?thesis by (simp only: middleware_nesting(2) [OF assms(1)] refuse)
qed

section \<open>Witnesses\<close>

definition tower_stack :: "('a, 'r) wrap \<Rightarrow> ('a, 'r) wrap \<Rightarrow> ('a, 'r) wrap" where
  "tower_stack inner outer svc = outer (inner svc)"

definition plain_ack_layer :: "'r acker \<Rightarrow> ('a, 'r) wrap" where
  "plain_ack_layer acker svc req w =
     (case svc req w of (res, w1) \<Rightarrow> (case acker res (snd req) w1 of (_, _, w2) \<Rightarrow> (res, w2)))"

lemma sample_layers: "nests_outward tower_stack" "acknowledges plain_ack_layer"
  by (simp_all add: nests_outward_def tower_stack_def acknowledges_def plain_ack_layer_def)

definition seven :: "bytes surreal_task \<Rightarrow> world \<Rightarrow> (boxed_error + int) \<times> world" where
  "seven req w = (Inr 7, w)"

text \<open>A job as the shared claim leaves it, and one that its instance has finished.\<close>

definition shared_job :: job where
  "shared_job = set_claimed_shared late (new_job sample_row)"

definition finished_job :: job where
  "finished_job = set_acked Done 1 (ok_object (JNumber 7)) late (set_running ''w1'' late shared_job)"

definition one_job_world :: "job \<Rightarrow> world" where
  "one_job_world j = \<lparr>store = \<lparr>jobs = [j], workers = [], meta_version = None\<rparr>, trips = 0\<rparr>"

lemma sample_rows:
  "db_inv (store (one_job_world shared_job))" "db_inv (store (one_job_world finished_job))"
  "lookup_job (store (one_job_world shared_job)) (StringKey ''01A'') = Some shared_job"
  "lookup_job (store (one_job_world finished_job)) (StringKey ''01A'') = Some finished_job"
  "lock_guard ''w1'' shared_job" "\<not> lock_guard ''w1'' finished_job" "lock_by finished_job = Some ''w1''"
  by (simp_all add: one_job_world_def db_inv_def idem_unique_def idem_key_def lookup_job_def row_ok_def
      lock_guard_def finished_job_def shared_job_def new_job_def sample_row_def row_simps)

lemma sample_parts:
  "part_task_id failed_parts = Some ''01A''" "ctx_lock_by (part_ctx failed_parts) = None"
  by (simp_all add: failed_parts_def sample_task_def)

theorem refused_lock_outcome_witness:
  "\<exists>j. lookup_job (store (snd (middleware_stack tower_stack plain_ack_layer (calm late)
      (\<lambda>n. Inr (JNumber n)) ''w1'' seven ([42], stamped ''w1'' failed_parts) (one_job_world finished_job))))
      (StringKey ''01A'') = Some j \<and> status finished_job = Done \<and> status j = Failed"
proof -
  let ?w = "one_job_world finished_job"
  have p: "part_task_id (stamped ''w1'' failed_parts) = Some ''01A''"
    "ctx_lock_by (part_ctx (stamped ''w1'' failed_parts)) = Some ''w1''"
    by (simp_all add: sample_parts)
  have s: "calculate_status failed_parts (Inl \<lparr>is_abort = False, error_text = e\<rparr> :: boxed_error + int) = Failed"
    for e by (simp add: calculate_status_def failed_parts_def sample_task_def as_usize_id)
  have d: "status finished_job = Done" by (simp add: finished_job_def set_acked_def)
  have up: "verdict (calm late (trips ?w)) = Executes"
    and o: "store ?w = others (calm late (trips ?w)) (store ?w)" "store ?w = others (calm late (Suc (trips ?w))) (store ?w)"
    by (simp_all add: calm_def)
  have refused: "\<forall>j. lookup_job (store ?w) (StringKey ''01A'') = Some j \<longrightarrow> \<not> lock_guard ''w1'' j"
    using sample_rows(4,6) by simp
  have g: "gets_through (calm late) i" for i by (simp add: calm_def gets_through_def)
  from refused_lock_outcome [where env = "calm late", OF sample_layers up o(1) sample_rows(2) refused o(2) sample_rows(2) p(1) refl,
      where ser = "\<lambda>n. Inr (JNumber n)" and svc = seven and x = "[42]", THEN conjunct2, THEN mp, OF p(2)]
  show ?thesis by (simp add: sample_rows(4,7) s d g) (simp add: set_acked_def)
qed

end
