(* ===== verification/Job_Queue.thy ===== *)
theory Job_Queue
  imports Poll_Fetcher
begin

text \<open>
  The abstract queue that the table \<open>job\<close> implements. Seen at a time, the due jobs of some queues
  form a waiting line in claim order; both claim statements take the front of the line, and a
  push inserts in order. The locale \<open>line_claim\<close> is what a claim promises of its line; what
  repeated claims achieve is proved there once and holds for the claim of one queue, for the
  shared claim and for the operation \<open>fetch_next\<close>.
\<close>

section \<open>The waiting line\<close>

definition waiting :: "(string \<Rightarrow> bool) \<Rightarrow> time \<Rightarrow> db \<Rightarrow> job list" where
  "waiting S now d = sort_key claim_order (filter (\<lambda>j. S (queue j) \<and> due now j) (jobs d))"

lemma due_batch_waiting: "due_batch S n now d = take (nat n) (waiting S now d)"
  by (simp add: due_batch_def waiting_def)

lemma set_waiting [simp]: "set (waiting S now d) = claimable S now d"
  by (simp add: waiting_def claimable_def)

lemma waiting_sorted:
  assumes "db_inv d"
  shows "sorted_wrt (<) (map claim_order (waiting S now d))"
proof -
  have ids: "distinct (map job_id (jobs d))" using assms by (simp add: db_inv_def)
  have "waiting S now d = due_batch S (int (length (waiting S now d))) now d"
    by (simp add: due_batch_waiting)
  with due_batch_sorted [OF ids] show ?thesis by metis
qed

lemma length_waiting: "db_inv d \<Longrightarrow> length (waiting S now d) = card (claimable S now d)"
  by (simp add: waiting_def card_claimable db_inv_def)

text \<open>A line is determined by its jobs: the claim order leaves no choice.\<close>

lemma line_unique:
  assumes "sorted_wrt (<) (map claim_order xs)" and "sorted_wrt (<) (map claim_order ys)"
    and "set xs = set ys"
  shows "xs = ys"
proof -
  have "distinct (map claim_order zs) \<and> sorted (map claim_order zs)"
    if "sorted_wrt (<) (map claim_order zs)" for zs
    using that by (simp add: strict_sorted_iff)
  note s = this [OF assms(1)] this [OF assms(2)]
  have "inj_on claim_order (set xs \<union> set ys)"
    using s(1) assms(3) by (simp add: distinct_map)
  with s assms(3) show ?thesis
    by (intro map_sorted_distinct_set_unique [where f = claim_order]) (simp_all add: distinct_map)
qed

lemma waitingI:
  assumes "db_inv d" and "sorted_wrt (<) (map claim_order xs)" and "set xs = claimable S now d"
  shows "waiting S now d = xs"
  using line_unique [OF waiting_sorted [OF assms(1), of S now] assms(2)] assms(3) by simp

lemma claimable_lookup:
  "db_inv d \<Longrightarrow>
    j \<in> claimable S now d \<longleftrightarrow> lookup_job d (job_id j) = Some j \<and> S (queue j) \<and> due now j"
  by (auto simp: claimable_def db_inv_def lookup_job_iff)

section \<open>One claim takes the front\<close>

lemma set_drop_distinct: "distinct xs \<Longrightarrow> set (drop n xs) = set xs - set (take n xs)"
  by (induction xs arbitrary: n)
     (auto simp: take_Cons drop_Cons split: nat.splits dest: in_set_dropD in_set_takeD)

lemma front_taken:
  assumes inv: "db_inv d" "db_inv d'"
    and look: "\<And>k. lookup_job d' k =
      map_option (\<lambda>j. if j \<in> set (due_batch S n now d) then f j else j) (lookup_job d k)"
    and f: "\<And>j. job_id (f j) = job_id j" "\<And>j t. j \<in> set (due_batch S n now d) \<Longrightarrow> \<not> due t (f j)"
  shows "claimable T t d' = claimable T t d - set (due_batch S n now d)"
proof (rule set_eqI)
  fix j
  show "j \<in> claimable T t d' \<longleftrightarrow> j \<in> claimable T t d - set (due_batch S n now d)"
  proof (cases "lookup_job d (job_id j)")
    case None
    then show ?thesis by (simp add: claimable_lookup [OF inv(1)] claimable_lookup [OF inv(2)] look)
  next
    case (Some x)
    with look [of "job_id j"] f(2) [of x t] f(1) [of x] lookup_job_Some [OF Some]
    show ?thesis
      by (auto simp: claimable_lookup [OF inv(1)] claimable_lookup [OF inv(2)])
  qed
qed

lemma line_rest:
  assumes "db_inv d" "db_inv d'"
    and "claimable S now d' = claimable S now d - set (due_batch S n now d)"
  shows "waiting S now d' = drop (nat n) (waiting S now d)"
proof (rule waitingI [OF assms(2)])
  have "sorted_wrt (<) (map claim_order (waiting S now d))" by (rule waiting_sorted [OF assms(1)])
  then show "sorted_wrt (<) (map claim_order (drop (nat n) (waiting S now d)))"
    by (simp add: drop_map [symmetric] sorted_wrt_drop)
  have "distinct (waiting S now d)"
    using \<open>sorted_wrt (<) (map claim_order (waiting S now d))\<close>
    by (auto simp: strict_sorted_iff distinct_map)
  then show "set (drop (nat n) (waiting S now d)) = claimable S now d'"
    by (simp add: set_drop_distinct assms(3) due_batch_waiting)
qed

section \<open>The contract of a claim\<close>

text \<open>
  A claim hands out the front of the line, \<open>n\<close> jobs or all there are, through \<open>out\<close>; the
  rest of the line waits. Over any number of claims the jobs then come out in line order,
  each once.
\<close>

locale line_claim =
  fixes invar :: "'s \<Rightarrow> bool" and line :: "'s \<Rightarrow> 'a list" and n :: nat
    and out :: "'a list \<Rightarrow> 'b list" and claim :: "'s \<Rightarrow> 'b list \<Rightarrow> 's \<Rightarrow> bool"
  assumes out_append: "out (xs @ ys) = out xs @ out ys"
    and claim_front: "invar s \<Longrightarrow> claim s bs s' \<Longrightarrow>
      bs = out (take n (line s)) \<and> line s' = drop n (line s) \<and> invar s'"
begin

lemma out_Nil: "out [] = []"
  using out_append [of "[]" "[]"] by simp

lemma claims_in_order:
  "run claim s bss s' \<Longrightarrow> invar s \<Longrightarrow>
    concat bss = out (take (length bss * n) (line s)) \<and>
    line s' = drop (length bss * n) (line s) \<and> invar s'"
proof (induction rule: run.induct)
  case (run_Cons s bs s1 bss s')
  from claim_front [OF run_Cons.prems run_Cons.hyps(1)]
  have s1: "bs = out (take n (line s))" "line s1 = drop n (line s)" "invar s1" by auto
  have "take (length (bs # bss) * n) (line s) =
      take n (line s) @ take (length bss * n) (drop n (line s))"
    by (simp add: take_add)
  with run_Cons.IH [OF s1(3)] s1 show ?case by (simp add: out_append add.commute)
qed (simp add: out_Nil)

lemma claims_drain:
  assumes "run claim s bss s'" and "invar s" and "length (line s) \<le> length bss * n"
  shows "concat bss = out (line s) \<and> line s' = []"
  using claims_in_order [OF assms(1,2)] assms(3) by simp

end

locale line_claim_total = line_claim +
  assumes can_claim: "invar s \<Longrightarrow> \<exists>bs s'. claim s bs s'"
begin

lemma claims_exist: "invar s \<Longrightarrow> \<exists>bss s'. length bss = k \<and> run claim s bss s'"
proof (induction k arbitrary: s)
  case (Suc k)
  from can_claim [OF Suc.prems] obtain bs s1 where c: "claim s bs s1" by blast
  with claim_front [OF Suc.prems] have "invar s1" by blast
  from Suc.IH [OF this] obtain bss s' where "length bss = k" "run claim s1 bss s'" by blast
  with c show ?case
    by (intro exI [of _ "bs # bss"] exI [of _ s']) (auto intro: run.intros)
next
  case 0
  then show ?case by (intro exI [of _ "[]"] exI [of _ s]) (auto intro: run.intros)
qed

end

text \<open>Every claim keeps the invariant, so it keeps it over runs: one contract gives the other.\<close>

sublocale line_claim \<subseteq> kept: kept_by_steps claim "\<lambda>_. True" invar
  by unfold_locales (use claim_front in blast)

section \<open>Both claim statements and \<open>fetch_next\<close> meet it\<close>

text \<open>
  Any claim whose row update takes a job out of the due ones; the two statements differ in
  the columns they set.
\<close>

context row_update
begin

lemma takes_front:
  assumes inv: "db_inv d" and upd: "update_records (due_ids S n now d) eff d = (rows, d')"
    and "\<And>j. due now j \<Longrightarrow> guard j" and gone: "\<And>j t. due now j \<Longrightarrow> \<not> due t (eff j)"
  shows "rows = map eff (take (nat n) (waiting S now d)) \<and> db_inv d' \<and>
    waiting S now d' = drop (nat n) (waiting S now d) \<and>
    (\<forall>T t. claimable T t d' = claimable T t d - set (due_batch S n now d))"
proof -
  let ?b = "due_batch S n now d"
  have "distinct (map job_id (jobs d))" using inv by (simp add: db_inv_def)
  from claim_update [OF this, of S n now eff] upd
  have r: "rows = map eff ?b" and d': "d' = d\<lparr>jobs := update_where (\<lambda>j. j \<in> set ?b) eff (jobs d)\<rparr>"
    by simp_all
  have inv': "db_inv d'"
    unfolding d' using assms(3) by (intro update_db_inv [OF inv]) (blast dest: due_batch_mem)
  have "claimable T t d' = claimable T t d - set ?b" for T t
  proof (rule front_taken [OF inv inv', where f = eff])
    show "\<not> due t (eff j)" if "j \<in> set ?b" for j t using due_batch_mem [OF that] gone by blast
  qed (simp_all add: d' lookup_update eff_id)
  with r inv' line_rest [OF inv inv', of S now n] show ?thesis by (simp add: due_batch_waiting)
qed

end

lemma claimed_not_due: "\<not> due t (set_claimed w now j)" "\<not> due t (set_claimed_shared now j)"
  by (simp_all add: due_def retryable_def row_simps)

lemma fetch_next_front:
  assumes "db_inv d" and "fetch_next_stmt q w n now d = Inr (rows, d')"
  shows "rows = map (set_claimed w now) (take (nat n) (waiting (\<lambda>x. x = q) now d)) \<and> db_inv d' \<and>
    waiting (\<lambda>x. x = q) now d' = drop (nat n) (waiting (\<lambda>x. x = q) now d) \<and>
    (\<forall>T t. claimable T t d' = claimable T t d - set (due_batch (\<lambda>x. x = q) n now d))"
  using assms
  by (intro claimed.takes_front) (simp_all add: fetch_next_stmt_def claimed_not_due)

lemma fetch_next_shared_front:
  assumes "db_inv d" and "fetch_next_shared_stmt qs n now d = Inr (rows, d')"
  shows "rows = map (set_claimed_shared now) (take (nat n) (waiting (\<lambda>x. x \<in> set qs) now d)) \<and> db_inv d' \<and>
    waiting (\<lambda>x. x \<in> set qs) now d' = drop (nat n) (waiting (\<lambda>x. x \<in> set qs) now d) \<and>
    (\<forall>T t. claimable T t d' = claimable T t d - set (due_batch (\<lambda>x. x \<in> set qs) n now d))"
  using assms
  by (intro claimed_shared.takes_front) (simp_all add: fetch_next_shared_stmt_def claimed_not_due)

interpretation own: line_claim_total db_inv "waiting (\<lambda>x. x = q) now" "nat n" "map (set_claimed w now)"
  "\<lambda>d rows d'. fetch_next_stmt q w n now d = Inr (rows, d')" for q w n now
proof unfold_locales
  show "\<exists>rows d'. fetch_next_stmt q w n now d = Inr (rows, d')" for d
    by (simp add: fetch_next_stmt_def update_records_def)
qed (use fetch_next_front in auto)

interpretation shared: line_claim_total db_inv "waiting (\<lambda>x. x \<in> set qs) now" "nat n"
  "map (set_claimed_shared now)" "\<lambda>d rows d'. fetch_next_shared_stmt qs n now d = Inr (rows, d')"
  for qs n now
proof unfold_locales
  show "\<exists>rows d'. fetch_next_shared_stmt qs n now d = Inr (rows, d')" for d
    by (simp add: fetch_next_shared_stmt_def update_records_def)
qed (use fetch_next_shared_front in auto)

text \<open>
  The operation on an undisturbed engine: what it hands out are the decoded tasks, and the
  kills of rows that do not decode leave the line alone.
\<close>

lemma decoded_append: "decoded conv (xs @ ys) = decoded conv xs @ decoded conv ys"
  by (induction xs) (auto simp: decoded_def List.map_filter_simps split: option.splits)

lemma fetch_next_calm_front:
  assumes "db_inv (store w)" and "fetch_next (calm now) conv cfg inst w = (Inr tasks, w')"
  shows "tasks = decoded conv (map (set_claimed inst now)
      (take (nat (as_i64 (int (cfg_buffer_size cfg)))) (waiting (\<lambda>x. x = cfg_queue cfg) now (store w)))) \<and>
    waiting (\<lambda>x. x = cfg_queue cfg) now (store w') =
      drop (nat (as_i64 (int (cfg_buffer_size cfg)))) (waiting (\<lambda>x. x = cfg_queue cfg) now (store w)) \<and>
    db_inv (store w')"
proof -
  let ?q = "cfg_queue cfg" and ?n = "as_i64 (int (cfg_buffer_size cfg))"
  obtain rows d1 where st: "fetch_next_stmt ?q inst ?n now (store w) = Inr (rows, d1)"
    using own.can_claim [OF assms(1)] by blast
  have rows: "rows = map (set_claimed inst now) (take (nat ?n) (waiting (\<lambda>x. x = ?q) now (store w)))"
    using fetch_next_front [OF assms(1) st] by blast
  have tasks: "tasks = decoded conv rows"
    using assms(2) fetch_next_calm [OF st, of conv] fst_decode_rows [of "calm now" conv rows]
    by (auto split: prod.splits) (metis fst_conv)
  have inv': "db_inv (store w')"
    using fetch_next_invariant [OF env_keeps_calm assms(1)] assms(2) by (metis snd_conv)
  have "claimable T t (store w') = claimable T t (store w) - set (due_batch (\<lambda>x. x = ?q) ?n now (store w))"
    for T t
  proof (rule front_taken [OF assms(1) inv', where f = "\<lambda>j. after_decode conv now (set_claimed inst now j)"])
    show "\<not> due t (after_decode conv now (set_claimed inst now j))" for j t
      by (auto simp: after_decode_def due_def retryable_def row_simps split: sum.splits)
    show "job_id (after_decode conv now (set_claimed inst now j)) = job_id j" for j
      by (simp add: after_decode_def killed.eff_id claimed.eff_id split: sum.splits)
  qed (simp add: fetch_next_calm_lookup [OF assms])
  from tasks rows inv' line_rest [OF assms(1) inv' this] show ?thesis by simp
qed

interpretation fetching: line_claim_total "\<lambda>w :: world. db_inv (store w)"
  "\<lambda>w. waiting (\<lambda>x. x = cfg_queue cfg) now (store w)" "nat (as_i64 (int (cfg_buffer_size cfg)))"
  "\<lambda>js. decoded conv (map (set_claimed inst now) js)"
  "\<lambda>w tasks w'. fetch_next (calm now) conv cfg inst w = (Inr tasks, w')" for conv cfg inst now
proof unfold_locales
  fix w :: world assume inv: "db_inv (store w)"
  show "\<exists>tasks w'. fetch_next (calm now) conv cfg inst w = (Inr tasks, w')"
  proof -
    obtain rows d' where st: "fetch_next_stmt (cfg_queue cfg) inst (as_i64 (int (cfg_buffer_size cfg)))
        now (store w) = Inr (rows, d')"
      using own.can_claim [OF inv] by blast
    from fetch_next_calm [OF this, of conv] show ?thesis by (simp split: prod.splits)
  qed
qed (use fetch_next_calm_front in \<open>auto simp: decoded_append\<close>)

lemma run_fetches:
  "run (\<lambda>w tasks w'. fetch_next (calm now) conv cfg inst w = (Inr tasks, w')) w tss w' \<Longrightarrow>
    fetches (calm now) conv cfg inst (length tss) w = (map Inr tss, w')"
  by (induction rule: run.induct) simp_all

section \<open>Pushing inserts in order\<close>

lemma waiting_push:
  assumes "db_inv d" and "push_loop rs d = Inr d'"
  shows "waiting S now d' =
    fold (insort_key claim_order)
      (filter (\<lambda>j. S (queue j) \<and> due now j)
        (map new_job (accepted (idem_key ` set (jobs d)) rs)))
      (waiting S now d)"
proof (rule waitingI)
  let ?P = "\<lambda>j. S (queue j) \<and> due now j"
  let ?new = "filter ?P (map new_job (accepted (idem_key ` set (jobs d)) rs))"
  show inv': "db_inv d'" using assms by (rule push_loop_db_inv)
  have d': "jobs d' = jobs d @ map new_job (accepted (idem_key ` set (jobs d)) rs)"
    using push_loop_accepted [OF assms(2)] by simp
  have m: "mset (fold (insort_key claim_order) ys xs) = mset ys + mset xs" for ys xs :: "job list"
    by (induction ys arbitrary: xs) simp_all
  have "mset (fold (insort_key claim_order) ?new (waiting S now d)) = mset (filter ?P (jobs d'))"
    by (simp add: m d' waiting_def)
  then have eq: "mset (fold (insort_key claim_order) ?new (waiting S now d)) = mset (waiting S now d')"
    by (simp add: waiting_def)
  have "distinct (map claim_order (waiting S now d'))"
    using waiting_sorted [OF inv'] by (simp add: strict_sorted_iff)
  moreover have "mset (map claim_order (fold (insort_key claim_order) ?new (waiting S now d))) =
      mset (map claim_order (waiting S now d'))"
    unfolding mset_map eq ..
  then have "distinct (map claim_order (fold (insort_key claim_order) ?new (waiting S now d))) \<longleftrightarrow>
      distinct (map claim_order (waiting S now d'))"
    by (rule mset_eq_imp_distinct_iff)
  ultimately have "distinct (map claim_order (fold (insort_key claim_order) ?new (waiting S now d)))"
    by (rule iffD2 [rotated])
  moreover have "sorted (map claim_order (fold (insort_key claim_order) ys xs))"
    if "sorted (map claim_order xs)" for ys xs
    using that by (induction ys arbitrary: xs) (simp_all add: sorted_insort_key)
  ultimately show "sorted_wrt (<) (map claim_order (fold (insort_key claim_order) ?new (waiting S now d)))"
    using waiting_sorted [OF assms(1)] by (simp add: strict_sorted_iff)
  show "set (fold (insort_key claim_order) ?new (waiting S now d)) = claimable S now d'"
    using mset_eq_setD [OF eq] by simp
qed

section \<open>Properties\<close>

lemma filter_not_taken:
  assumes "db_inv d" and "db_inv d'" and "set js \<subseteq> set (jobs d)"
    and "claimable S t d' = claimable S t d - set js" and "map job_id rows = map job_id js"
  shows "waiting S t d' = filter (\<lambda>j. job_id j \<notin> job_id ` set rows) (waiting S t d)"
proof (rule waitingI [OF assms(2)])
  have ids: "distinct (map job_id (jobs d))" using assms(1) by (simp add: db_inv_def)
  have "job_id ` set rows = job_id ` set js" using assms(5) by (metis set_map)
  then have "job_id j \<in> job_id ` set rows \<longleftrightarrow> j \<in> set js" if "j \<in> set (jobs d)" for j
    using distinct_key_eq [OF ids that] assms(3) by auto
  then show "set (filter (\<lambda>j. job_id j \<notin> job_id ` set rows) (waiting S t d)) = claimable S t d'"
    using assms(4) by (auto simp: claimable_def)
  show "sorted_wrt (<) (map claim_order (filter (\<lambda>j. job_id j \<notin> job_id ` set rows) (waiting S t d)))"
    using waiting_sorted [OF assms(1), of S t] by (simp add: sorted_wrt_map sorted_wrt_filter)
qed

lemma front_subset: "set (take n (waiting S now d)) \<subseteq> set (jobs d)"
  by (auto simp: claimable_def dest: in_set_takeD)

text \<open>C22. The job table implements a priority queue. Seen for any queues and at any time, the due jobs form a line in claim order; either claim statement returns the front of its line with the rows marked as claimed and takes exactly those jobs out of every line; a push inserts the created jobs that are due in order; and a vacuum leaves every line as it is.\<close>

theorem table_refines_queue:
  assumes "db_inv d"
  shows "(\<forall>rows d'. fetch_next_stmt q w n t d = Inr (rows, d') \<longrightarrow>
      rows = map (set_claimed w t) (take (nat n) (waiting (\<lambda>x. x = q) t d)) \<and>
      waiting S now d' = filter (\<lambda>j. job_id j \<notin> job_id ` set rows) (waiting S now d)) \<and>
    (\<forall>rows d'. fetch_next_shared_stmt qs n t d = Inr (rows, d') \<longrightarrow>
      rows = map (set_claimed_shared t) (take (nat n) (waiting (\<lambda>x. x \<in> set qs) t d)) \<and>
      waiting S now d' = filter (\<lambda>j. job_id j \<notin> job_id ` set rows) (waiting S now d)) \<and>
    (\<forall>d'. push_tasks_stmt rs t d = Inr ((), d') \<longrightarrow>
      waiting S now d' =
        fold (insort_key claim_order)
          (filter (\<lambda>j. S (queue j) \<and> due now j)
            (map new_job (accepted (idem_key ` set (jobs d)) rs)))
          (waiting S now d)) \<and>
    (\<forall>rows d'. vacuum_stmt t d = Inr (rows, d') \<longrightarrow> waiting S now d' = waiting S now d)"
proof (intro conjI allI impI)
  fix rows d' assume st: "fetch_next_stmt q w n t d = Inr (rows, d')"
  note front = fetch_next_front [OF assms st]
  then show "rows = map (set_claimed w t) (take (nat n) (waiting (\<lambda>x. x = q) t d))" by blast
  with front front_subset [of "nat n" "\<lambda>x. x = q" t d]
  show "waiting S now d' = filter (\<lambda>j. job_id j \<notin> job_id ` set rows) (waiting S now d)"
    by (intro filter_not_taken [OF assms, where js = "due_batch (\<lambda>x. x = q) n t d"])
       (simp_all add: due_batch_waiting claimed.eff_id)
next
  fix rows d' assume st: "fetch_next_shared_stmt qs n t d = Inr (rows, d')"
  note front = fetch_next_shared_front [OF assms st]
  then show "rows = map (set_claimed_shared t) (take (nat n) (waiting (\<lambda>x. x \<in> set qs) t d))" by blast
  with front front_subset [of "nat n" "\<lambda>x. x \<in> set qs" t d]
  show "waiting S now d' = filter (\<lambda>j. job_id j \<notin> job_id ` set rows) (waiting S now d)"
    by (intro filter_not_taken [OF assms, where js = "due_batch (\<lambda>x. x \<in> set qs) n t d"])
       (simp_all add: due_batch_waiting claimed_shared.eff_id)
next
  fix d' assume "push_tasks_stmt rs t d = Inr ((), d')"
  then have "push_loop rs d = Inr d'" by (simp add: push_tasks_stmt_Inr)
  with assms show "waiting S now d' =
      fold (insort_key claim_order)
        (filter (\<lambda>j. S (queue j) \<and> due now j) (map new_job (accepted (idem_key ` set (jobs d)) rs)))
        (waiting S now d)"
    by (rule waiting_push)
next
  fix rows d' assume "vacuum_stmt t d = Inr (rows, d')"
  then have "jobs d' = filter (\<lambda>j. \<not> terminal j) (jobs d)" by (auto simp: vacuum_stmt_def)
  moreover have "\<not> terminal j \<and> S (queue j) \<and> due now j \<longleftrightarrow> S (queue j) \<and> due now j" for j
    using terminal_not_retryable [of j] by (auto simp: due_def)
  ultimately show "waiting S now d' = waiting S now d" by (simp add: waiting_def conj_commute)
qed

text \<open>C23. A worker that keeps fetching empties its queue: on an undisturbed engine, if at most k times the buffer size of jobs are due, k fetches succeed and together hand out the tasks of all of them that decode, each once and in claim order over all batches, and nothing is left due.\<close>

theorem fetches_drain_queue:
  assumes "db_inv (store w)" and "1 \<le> cfg_buffer_size cfg" and "cfg_buffer_size cfg < 2 ^ 63"
    and "card (claimable (\<lambda>x. x = cfg_queue cfg) now (store w)) \<le> k * cfg_buffer_size cfg"
  shows "\<exists>tss w'. fetches (calm now) conv cfg inst k w = (map Inr tss, w') \<and>
    concat tss = decoded conv (map (set_claimed inst now)
      (waiting (\<lambda>x. x = cfg_queue cfg) now (store w))) \<and>
    claimable (\<lambda>x. x = cfg_queue cfg) now (store w') = {}"
proof -
  have n: "nat (as_i64 (int (cfg_buffer_size cfg))) = cfg_buffer_size cfg"
    using assms(3) by (simp add: as_i64_id)
  obtain tss w' where run: "length tss = k"
    "run (\<lambda>w tasks w'. fetch_next (calm now) conv cfg inst w = (Inr tasks, w')) w tss w'"
    using fetching.claims_exist [OF assms(1)] by blast
  have "length (waiting (\<lambda>x. x = cfg_queue cfg) now (store w)) \<le> length tss * cfg_buffer_size cfg"
    using assms(4) run(1) by (simp add: length_waiting [OF assms(1)])
  from fetching.claims_drain [OF run(2) assms(1)] this
  have "concat tss = decoded conv (map (set_claimed inst now)
      (waiting (\<lambda>x. x = cfg_queue cfg) now (store w)))"
    "waiting (\<lambda>x. x = cfg_queue cfg) now (store w') = []"
    by (simp_all add: n)
  with run run_fetches [OF run(2)] show ?thesis by (metis set_waiting set_empty)
qed

section \<open>Witnesses\<close>

text \<open>With a buffer of one, two fetches drain the two due jobs of the sample table.\<close>

definition one_by_one :: config where
  "one_by_one = sample_config\<lparr>cfg_buffer_size := 1\<rparr>"

lemma waiting_two_jobs:
  "waiting (\<lambda>x. x = ''emails'') late two_jobs = [new_job sample_row, new_job poison_row]"
  by code_simp

theorem table_refines_queue_witness:
  "waiting (\<lambda>x. x = ''emails'') late
     (two_jobs\<lparr>jobs := [set_claimed ''w1'' late (new_job sample_row), new_job poison_row]\<rparr>) =
   [new_job poison_row]"
proof -
  have ids: "job_id (set_claimed ''w1'' late (new_job sample_row)) = StringKey ''01A''"
    "pr_id sample_row = StringKey ''01A''" "pr_id poison_row = StringKey ''01C''"
    by (simp_all add: set_claimed_def sample_row_def poison_row_def)
  from table_refines_queue [OF db_inv_two_jobs, of "''emails''" "''w1''" 1 late "\<lambda>x. x = ''emails''" late "[]" "[]"]
  show ?thesis by (simp add: sample_claim_one waiting_two_jobs ids)
qed

theorem fetches_drain_queue_witness:
  "\<exists>tss w'. fetches (calm late) sample_conv one_by_one ''w1'' 2 two_jobs_world = (map Inr tss, w') \<and>
     concat tss = [handed_task] \<and> claimable (\<lambda>x. x = ''emails'') late (store w') = {}"
proof -
  have inv: "db_inv (store two_jobs_world)" by (simp add: two_jobs_world_def db_inv_two_jobs)
  have q: "cfg_queue one_by_one = ''emails''" "cfg_buffer_size one_by_one = 1"
    "store two_jobs_world = two_jobs"
    by (simp_all add: one_by_one_def sample_config_def two_jobs_world_def)
  have "card (claimable (\<lambda>x. x = ''emails'') late two_jobs) = 2"
    using length_waiting [OF db_inv_two_jobs, of "\<lambda>x. x = ''emails''" late] waiting_two_jobs by simp
  with fetches_drain_queue [OF inv, of one_by_one late 2 sample_conv "''w1''"] show ?thesis
    using sample_decoded waiting_two_jobs by (simp add: q claimed_rows_def)
qed

end
