(* ===== verification/Progress.thy ===== *)
theory Progress
  imports System Job_Queue
begin

text \<open>
  Progress over interleavings. The steps of theory System as an executable function of the
  engine's time, schedules of such statements, and how long a job can wait: what stands before
  it in the claim order, what is put before it on the way, and how many jobs the claims take.
\<close>

section \<open>Statements as a function\<close>

definition committed :: "'e + 'r \<times> db \<Rightarrow> db option" where
  "committed res = (case res of Inl e \<Rightarrow> None | Inr (r, d') \<Rightarrow> Some d')"

fun execute :: "time \<Rightarrow> action \<Rightarrow> db \<Rightarrow> db option" where
  "execute t (Push rows) d = committed (push_tasks_stmt rows t d)"
| "execute t (Claim q w n) d = committed (fetch_next_stmt q w n t d)"
| "execute t (ClaimShared qs n) d = committed (fetch_next_shared_stmt qs n t d)"
| "execute t (Lock k w) d = committed (lock_task_stmt k w t d)"
| "execute t (Acknowledge k w s n r) d =
     (if s \<in> {Done, Failed, Killed} then committed (ack_task_stmt k w s n r t d) else None)"
| "execute t (Park k reason) d = committed (kill_task_stmt k reason t d)"
| "execute t (Reenqueue q live dur) d = committed (reenqueue_update_stmt q live dur t d)"
| "execute t (Reap q dur) d = committed (reap_workers_stmt q dur t d)"
| "execute t (Register inst name q storage lay) d =
     committed (register_worker_stmt (StringKey inst) name q storage lay inst t d)"
| "execute t (Heartbeat inst) d = committed (keep_alive_stmt (StringKey inst) t d)"
| "execute t Vacuum d = committed (vacuum_stmt t d)"

lemma committed_Some: "committed res = Some d' \<longleftrightarrow> (\<exists>r. res = Inr (r, d'))"
  by (auto simp: committed_def split: sum.splits)

text \<open>It computes the steps of the relation.\<close>

lemma execute_step: "execute t a d = Some d' \<Longrightarrow> step d a d'"
  by (cases a) (auto simp: committed_Some intro: step.intros split: if_splits)

lemma step_execute: "step d a d' \<Longrightarrow> \<exists>t. execute t a d = Some d'"
  by (induction rule: step.induct) (auto simp: committed_Some)

section \<open>Schedules\<close>

text \<open>A statement that fails changes nothing.\<close>

definition after :: "time \<times> action \<Rightarrow> db \<Rightarrow> db" where
  "after ta d = (case execute (fst ta) (snd ta) d of Some d' \<Rightarrow> d' | None \<Rightarrow> d)"

definition play :: "(time \<times> action) list \<Rightarrow> db \<Rightarrow> db" where
  "play s d = fold after s d"

lemma play_simps [simp]:
  "play [] d = d" "play (ta # s) d = play s (after ta d)" "play (s @ s') d = play s' (play s d)"
  by (simp_all add: play_def)

lemma after_cases: "after ta d = d \<or> step d (snd ta) (after ta d)"
  by (auto simp: after_def dest: execute_step split: option.splits)

lemma after_db_inv: "db_inv d \<Longrightarrow> db_inv (after ta d)"
  using after_cases [of ta d] step_db_inv by metis

text \<open>Every run of the step relation is a schedule of its actions at some times.\<close>

lemma run_played: "run step d as d' \<Longrightarrow> \<exists>s. map snd s = as \<and> play s d = d'"
proof (induction rule: run.induct)
  case (run_Cons d a d1 as d')
  then obtain s t where "map snd s = as" "play s d1 = d'" "execute t a d = Some d1"
    using step_execute by blast
  then show ?case by (intro exI [of _ "(t, a) # s"]) (simp add: after_def)
qed (auto intro: exI [of _ "[]"])

section \<open>What stands before a job\<close>

text \<open>
  The ids of the jobs of some queues that a claim would prefer to \<open>j\<close>; a claim that pulls for
  \<open>j\<close> covers its queue, takes at least \<open>n\<close> jobs, only from those queues, and comes when \<open>j\<close> is due.
\<close>

definition ahead :: "string set \<Rightarrow> job \<Rightarrow> db \<Rightarrow> record_key set" where
  "ahead S j d = job_id ` {x \<in> set (jobs d). retryable x \<and> queue x \<in> S \<and> claim_order x < claim_order j}"

fun pulls :: "string set \<Rightarrow> job \<Rightarrow> nat \<Rightarrow> time \<times> action \<Rightarrow> bool" where
  "pulls S j n (t, Claim q w m) \<longleftrightarrow> q = queue j \<and> int n \<le> m \<and> run_at j \<le> t"
| "pulls S j n (t, ClaimShared qs m) \<longleftrightarrow>
     queue j \<in> set qs \<and> set qs \<subseteq> S \<and> int n \<le> m \<and> run_at j \<le> t"
| "pulls S j n (t, _) \<longleftrightarrow> False"

fun arrivals :: "string set \<Rightarrow> job \<Rightarrow> (time \<times> action) list \<Rightarrow> db \<Rightarrow> nat" where
  "arrivals S j [] d = 0"
| "arrivals S j (ta # s) d =
     card (ahead S j (after ta d) - ahead S j d) + arrivals S j s (after ta d)"

lemma finite_ahead [simp]: "finite (ahead S j d)"
  by (simp add: ahead_def)

text \<open>A claim that passes \<open>j\<close> over took its full number of jobs, all from before \<open>j\<close>.\<close>

lemma passed_over:
  assumes inv: "db_inv d" "db_inv d'"
    and look: "\<And>k. lookup_job d' k =
      map_option (\<lambda>x. if x \<in> set (due_batch Q m t d) then f x else x) (lookup_job d k)"
    and gone: "\<And>x. \<not> retryable (f x)"
    and j: "j \<in> set (jobs d)" "Q (queue j)" "due t j" "j \<notin> set (due_batch Q m t d)"
    and S: "\<And>q. Q q \<Longrightarrow> q \<in> S"
  shows "card (ahead S j d') + nat m \<le> card (ahead S j d)"
proof -
  let ?b = "due_batch Q m t d" and ?l = "waiting Q t d"
  have ids: "distinct (map job_id (jobs d))" "distinct (map job_id (jobs d'))"
    using inv by (simp_all add: db_inv_def)
  have b: "?b = take (nat m) ?l" by (rule due_batch_waiting)
  have sorted: "sorted_wrt (<) (map claim_order (take (nat m) ?l @ drop (nat m) ?l))"
    using waiting_sorted [OF inv(1), of Q t] by simp
  have "j \<in> set ?l" using j(1-3) by (simp add: claimable_def)
  then have "j \<in> set (drop (nat m) ?l)"
    using j(4) unfolding b by (metis Un_iff append_take_drop_id set_append)
  then have before: "claim_order x < claim_order j" if "x \<in> set ?b" for x
    using sorted that unfolding b map_append sorted_wrt_append by simp
  have "drop (nat m) ?l \<noteq> []" using \<open>j \<in> set (drop (nat m) ?l)\<close> by auto
  then have "length ?b = nat m" unfolding b by simp
  then have "card (job_id ` set ?b) = nat m"
    using distinct_due_batch [OF ids(1), of Q m t] by (metis distinct_card length_map list.set_map)
  moreover have sub: "job_id ` set ?b \<subseteq> ahead S j d"
    unfolding ahead_def using due_batch_mem before S by (fastforce simp: due_def)
  moreover have "ahead S j d' \<subseteq> ahead S j d - job_id ` set ?b"
  proof
    fix k assume "k \<in> ahead S j d'"
    then obtain x where x: "x \<in> set (jobs d')" "k = job_id x" "retryable x" "queue x \<in> S"
      "claim_order x < claim_order j" by (auto simp: ahead_def)
    from lookup_job_mem [OF ids(2) x(1)] look obtain y where y: "lookup_job d k = Some y"
      "x = (if y \<in> set ?b then f y else y)" by (auto simp: x(2))
    with gone x(3) have "y \<notin> set ?b" "x = y" by (auto split: if_splits)
    have "y' = y" if "y' \<in> set ?b" "job_id y' = k" for y'
      using that y(1) due_batch_mem [OF that(1)] lookup_job_mem [OF ids(1), of y'] by simp
    with \<open>y \<notin> set ?b\<close> have "k \<notin> job_id ` set ?b" by blast
    moreover have "k \<in> ahead S j d"
      unfolding ahead_def using x lookup_job_Some [OF y(1)] \<open>x = y\<close> by blast
    ultimately show "k \<in> ahead S j d - job_id ` set ?b" by simp
  qed
  then have "card (ahead S j d') \<le> card (ahead S j d - job_id ` set ?b)" by (rule card_mono [rotated]) simp
  ultimately show ?thesis
    using card_mono [OF finite_ahead sub] by (simp add: card_Diff_subset)
qed

lemma pull_passes_over:
  assumes inv: "db_inv d" and j: "lookup_job d k = Some j" "retryable j" "queue j \<in> S"
    and pull: "pulls S j n ta" and kept: "lookup_job (after ta d) k = Some j"
  shows "card (ahead S j (after ta d)) + n \<le> card (ahead S j d)"
proof -
  obtain t a where ta: "ta = (t, a)" by fastforce
  have mem: "j \<in> set (jobs d)" using lookup_job_Some [OF j(1)] by simp
  note inv' = after_db_inv [OF inv, of ta]
  have eff: "\<not> retryable (set_claimed w now x)" "\<not> retryable (set_claimed_shared now x)" for w now x
    by (simp_all add: retryable_def row_simps)
  from pull consider (own) w m where "a = Claim (queue j) w m" "int n \<le> m" "run_at j \<le> t"
    | (shared) qs m where "a = ClaimShared qs m" "queue j \<in> set qs" "set qs \<subseteq> S" "int n \<le> m" "run_at j \<le> t"
    by (cases a) (auto simp: ta)
  then show ?thesis
  proof cases
    case own
    let ?b = "due_batch (\<lambda>x. x = queue j) m t d"
    obtain rows d' where "update_records (due_ids (\<lambda>x. x = queue j) m t d) (set_claimed w t) d = (rows, d')"
      by fastforce
    then have st: "fetch_next_stmt (queue j) w m t d = Inr (rows, d')" by (simp add: fetch_next_stmt_def)
    then have d': "after ta d = d'" by (simp add: ta own(1) after_def committed_def)
    note look = fetch_next_lookup [OF inv st]
    have "j \<notin> set ?b"
      using look [of k] kept j eff(1) [of w t j] by (auto simp: d' split: if_splits)
    moreover have "due t j" using j(2) own(3) by (simp add: due_def)
    ultimately have "card (ahead S j d') + nat m \<le> card (ahead S j d)"
      using j(3) mem look inv' eff by (intro passed_over [OF inv, where Q = "\<lambda>x. x = queue j"]) (auto simp: d')
    with own(2) show ?thesis by (simp add: d')
  next
    case shared
    let ?b = "due_batch (\<lambda>x. x \<in> set qs) m t d"
    obtain rows d' where "update_records (due_ids (\<lambda>x. x \<in> set qs) m t d) (set_claimed_shared t) d = (rows, d')"
      by fastforce
    then have st: "fetch_next_shared_stmt qs m t d = Inr (rows, d')" by (simp add: fetch_next_shared_stmt_def)
    then have d': "after ta d = d'" by (simp add: ta shared(1) after_def committed_def)
    note look = fetch_next_shared_lookup [OF inv st]
    have "j \<notin> set ?b"
      using look [of k] kept j eff(2) [of t j] by (auto simp: d' split: if_splits)
    moreover have "due t j" using j(2) shared(5) by (simp add: due_def)
    ultimately have "card (ahead S j d') + nat m \<le> card (ahead S j d)"
      using shared(2,3) mem look inv' eff
      by (intro passed_over [OF inv, where Q = "\<lambda>x. x \<in> set qs"]) (auto simp: d')
    with shared(4) show ?thesis by (simp add: d')
  qed
qed

section \<open>Bounded waiting\<close>

text \<open>Statements that name the job itself; a waiting job is in nobody's hands.\<close>

fun names_job :: "record_key \<Rightarrow> action \<Rightarrow> bool" where
  "names_job k (Lock k' _) = (k' = k)"
| "names_job k (Acknowledge k' _ _ _ _) = (k' = k)"
| "names_job k (Park k' _) = (k' = k)"
| "names_job k _ = False"

fun is_claim :: "action \<Rightarrow> bool" where
  "is_claim (Claim _ _ _) = True"
| "is_claim (ClaimShared _ _) = True"
| "is_claim _ = False"

lemma waiting_transition:
  assumes "transition j a j'" and "retryable j" and "\<not> names_job (job_id j) a"
  shows "is_claim a \<and> status j' = Queued"
  using assms by (induction rule: transition.induct) (auto simp: row_simps retryable_def orphaned_def)

lemma waits_or_claimed:
  assumes "db_inv d" and "lookup_job d k = Some j" and "retryable j" and "\<not> names_job k (snd ta)"
  shows "lookup_job (after ta d) k = Some j \<or>
    is_claim (snd ta) \<and> (\<exists>j'. lookup_job (after ta d) k = Some j' \<and> status j' = Queued)"
proof -
  have "\<not> terminal j" using assms(3) terminal_not_retryable by blast
  then show ?thesis
    using after_cases [of ta d] step_row [OF _ assms(1,2)] waiting_transition [OF _ assms(3)]
      assms(2,4) lookup_job_Some [OF assms(2)] by metis
qed

text \<open>By induction on the schedule: every pull that passes the job over pays for the jobs it took.\<close>

lemma waiting_job_claimed:
  assumes "db_inv d" and "lookup_job d k = Some j" and "retryable j" and "queue j \<in> S"
    and "\<forall>ta \<in> set s. \<not> names_job k (snd ta)"
    and "card (ahead S j d) + arrivals S j s d < n * length (filter (pulls S j n) s)"
  shows "\<exists>s1 ta s2 j'. s = s1 @ ta # s2 \<and> lookup_job (play s1 d) k = Some j \<and> is_claim (snd ta) \<and>
    lookup_job (play (s1 @ [ta]) d) k = Some j' \<and> status j' = Queued"
  using assms
proof (induction s arbitrary: d)
  case (Cons ta s)
  let ?d = "after ta d"
  have "\<not> names_job k (snd ta)" using Cons.prems(5) by simp
  from waits_or_claimed [OF Cons.prems(1-3) this] show ?case
  proof
    assume kept: "lookup_job ?d k = Some j"
    have grow: "card (ahead S j ?d) \<le> card (ahead S j d) + card (ahead S j ?d - ahead S j d)"
      using card_mono [of "ahead S j d \<union> (ahead S j ?d - ahead S j d)" "ahead S j ?d"]
        card_Un_le [of "ahead S j d" "ahead S j ?d - ahead S j d"] by simp
    have "card (ahead S j ?d) + arrivals S j s ?d < n * length (filter (pulls S j n) s)"
    proof (cases "pulls S j n ta")
      case True
      from pull_passes_over [OF Cons.prems(1-4) this kept] True Cons.prems(6) show ?thesis by simp
    next
      case False
      with grow Cons.prems(6) show ?thesis by simp
    qed
    with Cons.IH [OF after_db_inv [OF Cons.prems(1)] kept Cons.prems(3,4)] Cons.prems(5)
    obtain s1 ta' s2 j' where "s = s1 @ ta' # s2" "lookup_job (play s1 ?d) k = Some j"
      "is_claim (snd ta')" "lookup_job (play (s1 @ [ta']) ?d) k = Some j'" "status j' = Queued"
      by auto
    then show ?thesis by (intro exI [of _ "ta # s1"] exI [of _ ta'] exI [of _ s2] exI [of _ j']) simp
  next
    assume "is_claim (snd ta) \<and> (\<exists>j'. lookup_job ?d k = Some j' \<and> status j' = Queued)"
    with Cons.prems(2) show ?thesis by (intro exI [of _ "[]"] exI [of _ ta] exI [of _ s]) auto
  qed
qed simp

section \<open>Properties\<close>

text \<open>C11. No starvation: whatever statements of whatever clients are interleaved, short of a lock, acknowledgement or parking that names the job (nobody holds it while it waits), a waiting job is claimed once the claims that pull for it (claims of its queue alone or of queues among S, at a time when it is due, of at least n jobs each) come to more, n jobs each, than the jobs that stood before it in the claim order and those put before it on the way (pushes, retries and recovered orphans of higher priority or earlier time). The claim finds its row as it was.\<close>

theorem bounded_waiting:
  assumes "db_inv d" and "lookup_job d k = Some j" and "retryable j" and "queue j \<in> S"
    and "\<forall>ta \<in> set s. \<not> names_job k (snd ta)"
    and "card (ahead S j d) + arrivals S j s d < n * length (filter (pulls S j n) s)"
  shows "\<exists>s1 ta s2 j'. s = s1 @ ta # s2 \<and> lookup_job (play s1 d) k = Some j \<and> is_claim (snd ta) \<and>
    lookup_job (play (s1 @ [ta]) d) k = Some j' \<and> status j' = Queued"
  using assms by (rule waiting_job_claimed)

text \<open>C13. Recovery from a crash: a job stranded in flight whose owner is not in the live list is put back by the orphan pass, and then claimed again once the claims that pull for it outweigh what stands before it, whatever statements that do not name the job are interleaved.\<close>

theorem stranded_job_reclaimed:
  assumes "db_inv d" and "lookup_job d k = Some j" and "orphaned q live dur t j" and "q \<in> S"
    and "d1 = play [(t, Reenqueue q live dur)] d"
    and "\<forall>ta \<in> set s. \<not> names_job k (snd ta)"
    and "card (ahead S (set_reenqueued j) d1) + arrivals S (set_reenqueued j) s d1 <
      n * length (filter (pulls S (set_reenqueued j) n) s)"
  shows "\<exists>s1 ta s2 j'. s = s1 @ ta # s2 \<and> lookup_job (play s1 d1) k = Some (set_reenqueued j) \<and>
    is_claim (snd ta) \<and> lookup_job (play (s1 @ [ta]) d1) k = Some j' \<and> status j' = Queued"
proof -
  have d1: "d1 = d\<lparr>jobs := update_where (orphaned q live dur t) set_reenqueued (jobs d)\<rparr>"
    by (simp add: assms(5) after_def committed_def reenqueue_update_stmt_def)
  have "lookup_job d1 k = Some (set_reenqueued j)"
    using assms(2,3) by (simp add: d1 reenqueued.lookup_update)
  moreover have "retryable (set_reenqueued j)" "queue (set_reenqueued j) \<in> S"
    using assms(3,4) by (simp_all add: retryable_def set_reenqueued_def orphaned_def)
  moreover have "db_inv d1" using after_db_inv [OF assms(1)] by (simp add: assms(5))
  ultimately show ?thesis using waiting_job_claimed assms(6,7) by blast
qed

section \<open>Witnesses\<close>

text \<open>Two claims of one job each reach the second job of the line.\<close>

theorem bounded_waiting_witness:
  "\<exists>j'. status j' = Queued \<and> (\<exists>s1. lookup_job (play s1 two_jobs) (StringKey ''01C'') = Some j')"
proof -
  let ?s = "[(late, Claim ''emails'' ''w1'' 1), (late, Claim ''emails'' ''w2'' 1)]"
  have j: "lookup_job two_jobs (StringKey ''01C'') = Some (new_job poison_row)"
    "retryable (new_job poison_row)" "queue (new_job poison_row) \<in> {''emails''}"
    by (code_simp, code_simp, simp add: new_job_def poison_row_def sample_row_def)
  have ns: "\<forall>ta \<in> set ?s. \<not> names_job (StringKey ''01C'') (snd ta)" by simp
  have n: "card (ahead {''emails''} (new_job poison_row) two_jobs) +
      arrivals {''emails''} (new_job poison_row) ?s two_jobs <
    1 * length (filter (pulls {''emails''} (new_job poison_row) 1) ?s)" by code_simp
  from bounded_waiting [OF db_inv_two_jobs j ns n] show ?thesis by blast
qed

theorem stranded_job_reclaimed_witness:
  "\<exists>s1 j'. lookup_job (play s1 (play [(late, Reenqueue ''emails'' [] 1000)] busy_db)) (StringKey ''01A'') = Some j' \<and>
    status j' = Queued"
proof -
  let ?j = "set_reenqueued running_job" and ?s = "[(late, Claim ''emails'' ''w2'' 1)]"
  have j: "lookup_job busy_db (StringKey ''01A'') = Some running_job"
    by (simp add: lookup_job_def busy_db_def running_job_def sample_row_def)
  have o: "orphaned ''emails'' [] 1000 late running_job" by code_simp
  have ns: "\<forall>ta \<in> set ?s. \<not> names_job (StringKey ''01A'') (snd ta)" by simp
  have n: "card (ahead {''emails''} ?j (play [(late, Reenqueue ''emails'' [] 1000)] busy_db)) +
      arrivals {''emails''} ?j ?s (play [(late, Reenqueue ''emails'' [] 1000)] busy_db) <
    1 * length (filter (pulls {''emails''} ?j 1) ?s)" by code_simp
  from stranded_job_reclaimed [OF db_inv_busy j o _ refl ns n] show ?thesis by blast
qed

end
