(* ===== verification/Interleaving.thy ===== *)
theory Interleaving
  imports Middleware Progress
begin

text \<open>
  The middleware among other clients. Between the requests of one worker, and while its task
  runs, other clients may commit any statements of theory System; what one task through the
  layers leaves in its row is then still determined, as long as nobody ends its ownership.
\<close>

section \<open>Other clients as runs of the system\<close>

definition env_runs :: "(action \<Rightarrow> bool) \<Rightarrow> env \<Rightarrow> bool" where
  "env_runs ok env \<longleftrightarrow> (\<forall>i d. \<exists>as. run step d as (others (env i) d) \<and> (\<forall>a \<in> set as. ok a))"

text \<open>What the task's own code does to the tables meanwhile; it may well push further tasks.\<close>

definition service_runs :: "(action \<Rightarrow> bool) \<Rightarrow> ('a, 'r) service \<Rightarrow> bool" where
  "service_runs ok svc \<longleftrightarrow>
     (\<forall>req w. \<exists>as. run step (store w) as (store (snd (svc req w))) \<and> (\<forall>a \<in> set as. ok a))"

section \<open>The two requests of a task\<close>

lemma lock_layer_executes:
  assumes "verdict (env (trips w)) = Executes" and "db_inv d" and "d = others (env (trips w)) (store w)"
    and "lookup_job d (StringKey ident) = Some j" and "lock_guard inst j" and "part_task_id p = Some ident"
    and "w1 = w\<lparr>store := snd (update_record (StringKey ident) (lock_guard inst)
      (set_running inst (clock (env (trips w)))) d), trips := Suc (trips w)\<rparr>"
  shows "lock_layer env inst svc (x, p) w = svc (x, stamped inst p) w1"
proof -
  have "lock_task env ident inst w = (Inr (), w1)"
    using query_executes [of env w "lock_task_stmt (StringKey ident) inst"] assms(1)
      lock_task_stmt_cases [OF assms(2)] assms(3-5,7)
    by (simp add: lock_task_def)
  then show ?thesis
    using assms(6) by (cases "svc (x, stamped inst p) w1"; cases "fst (svc (x, stamped inst p) w1)")
      (simp_all add: lock_layer_def lock_service_call_def stamped_def)
qed

text \<open>An acknowledgement that does not get through changes nothing.\<close>

lemma ack_blocked:
  assumes "\<not> gets_through env (trips w)" and "result_value ser res = Inr v"
  shows "\<exists>e. \<forall>q. part_task_id q = Some ident \<and> ctx_lock_by (part_ctx q) = Some inst \<longrightarrow>
    (\<exists>q'. ack env ser res q w =
      (Inl e, q', w\<lparr>store := others (env (trips w)) (store w), trips := Suc (trips w)\<rparr>))"
proof -
  obtain e where e: "\<exists>resp. take_rows resp = Inl e \<and> query env stmt w =
      (resp, w\<lparr>store := others (env (trips w)) (store w), trips := Suc (trips w)\<rparr>)" for stmt :: "job list stmt"
    using query_blocked [OF assms(1)] by blast
  have "\<exists>q'. ack env ser res q w =
      (Inl e, q', w\<lparr>store := others (env (trips w)) (store w), trips := Suc (trips w)\<rparr>)"
    if "part_task_id q = Some ident" "ctx_lock_by (part_ctx q) = Some inst" for q
    using e [of "ack_task_stmt (StringKey ident) inst (calculate_status q res) (as_i64 (int (part_attempt q))) v"]
      that assms(2) by (auto simp: ack_def ack_task_def Let_def)
  then show ?thesis by blast
qed

text \<open>A task whose lock is granted, through either stack: the acknowledgement ends it.\<close>

lemma stack_runs:
  fixes ack_layer :: "'r acker \<Rightarrow> ('a, 'r) wrap"
  assumes "nests_outward stack_new" and "acknowledges ack_layer"
    and lock: "\<And>svc :: ('a, 'r) service. lock_layer env inst svc (x, p) w = svc (x, stamped inst p) w1"
    and svc: "svc (x, stamped inst p) w1 = (res, w2)"
    and acks: "\<And>q. q = stamped inst p \<or> q = p \<and> ctx_lock_by (part_ctx p) = Some inst \<Longrightarrow>
      \<exists>q'. ack env ser res q w2 = (r, q', w3)"
    and mw: "mw = shared_middleware stack_new ack_layer env ser inst svc \<or>
      mw = middleware_stack stack_new ack_layer env ser inst svc \<and> ctx_lock_by (part_ctx p) = Some inst"
  shows "snd (mw (x, p) w) = w3 \<and> (r = Inr () \<longrightarrow> fst (mw (x, p) w) = res)"
  using mw
proof
  assume mw: "mw = shared_middleware stack_new ack_layer env ser inst svc"
  obtain q where a: "ack env ser res (snd (x, stamped inst p)) w2 = (r, q, w3)"
    using acks [of "stamped inst p"] by auto
  from ack_layer_runs [OF assms(2), where acker = "ack env ser" and svc = svc, OF svc a]
  show ?thesis by (simp add: mw lock middleware_nesting(2) [OF assms(1)])
next
  assume mw: "mw = middleware_stack stack_new ack_layer env ser inst svc \<and> ctx_lock_by (part_ctx p) = Some inst"
  have l: "lock_layer env inst svc (x, p) w = (res, w2)" by (simp add: lock svc)
  obtain q where a: "ack env ser res (snd (x, p)) w2 = (r, q, w3)" using acks [of p] mw by auto
  from ack_layer_runs [OF assms(2), where acker = "ack env ser" and svc = "lock_layer env inst svc", OF l a]
  show ?thesis by (simp add: mw middleware_nesting(1) [OF assms(1)])
qed

section \<open>A locked task keeps its row\<close>

lemma locked_row:
  assumes "db_inv d" and "lookup_job d k = Some j" and "lock_guard inst j"
    and "w1 = w\<lparr>store := snd (update_record k (lock_guard inst) (set_running inst t) d), trips := Suc (trips w)\<rparr>"
  shows "db_inv (store w1) \<and> lookup_job (store w1) k = Some (set_running inst t j) \<and>
    status (set_running inst t j) = Running \<and> lock_by (set_running inst t j) = Some inst"
  using locked.update_record_db_inv [OF assms(1), of "lock_guard inst" inst k t] assms(2-4)
  by (simp add: locked.lookup_update_record set_running_def)

lemma kept_by_service:
  assumes "service_runs (\<lambda>a. \<not> releases k inst a) svc"
    and "db_inv (store w) \<and> lookup_job (store w) k = Some j \<and> status j = Running \<and> lock_by j = Some inst"
  shows "db_inv (store (snd (svc req w))) \<and> lookup_job (store (snd (svc req w))) k = Some j \<and>
    status j = Running \<and> lock_by j = Some inst"
  using assms running.run_keeps unfolding service_runs_def by blast

lemma kept_by_env:
  assumes "env_runs (\<lambda>a. \<not> releases k inst a) env"
    and "db_inv d \<and> lookup_job d k = Some j \<and> status j = Running \<and> lock_by j = Some inst"
  shows "db_inv (others (env i) d) \<and> lookup_job (others (env i) d) k = Some j \<and>
    status j = Running \<and> lock_by j = Some inst"
  using assms running.run_keeps unfolding env_runs_def by blast

lemma env_runs_db_inv: "env_runs ok env \<Longrightarrow> db_inv d \<Longrightarrow> db_inv (others (env i) d)"
  unfolding env_runs_def using inv.run_keeps by blast

section \<open>The outcome of a task\<close>

text \<open>What a row holds after the task ran on it: its outcome if that serialises and its one request takes effect.\<close>

definition outcome_row ::
  "env \<Rightarrow> ('r \<Rightarrow> string + json) \<Rightarrow> parts \<Rightarrow> boxed_error + 'r \<Rightarrow> nat \<Rightarrow> job \<Rightarrow> job" where
  "outcome_row env ser p res i j =
     (case result_value ser res of
        Inl _ \<Rightarrow> j
      | Inr v \<Rightarrow>
          (if gets_through env i
           then set_acked (calculate_status p res) (as_i64 (int (part_attempt p))) v (clock (env i)) j
           else j))"

text \<open>The outcome of a task whatever other clients do meanwhile: if the request for the lock is executed, with other clients and the task's own code committing any statements before, between and during the two requests that do not release the task, the stack takes the lock, runs the task's code, and the row ends with the outcome, or as the lock left it.\<close>

lemma interleaved_outcome:
  fixes ser :: "'r \<Rightarrow> string + json" and svc :: "('a, 'r) service"
  assumes "nests_outward stack_new" and "acknowledges ack_layer" and up: "verdict (env (trips w)) = Executes"
    and "env_runs (\<lambda>a. \<not> releases (StringKey ident) inst a) env"
    and "service_runs (\<lambda>a. \<not> releases (StringKey ident) inst a) svc" and "db_inv (store w)"
    and row: "lookup_job (others (env (trips w)) (store w)) (StringKey ident) = Some j" "lock_guard inst j"
    and p: "part_task_id p = Some ident"
    and mw: "mw = shared_middleware stack_new ack_layer env ser inst svc \<or>
      mw = middleware_stack stack_new ack_layer env ser inst svc \<and> ctx_lock_by (part_ctx p) = Some inst"
    and locked: "locked = set_running inst (clock (env (trips w))) j"
  shows "\<exists>w1 res w2 r w'. trips w1 = Suc (trips w) \<and> lookup_job (store w1) (StringKey ident) = Some locked \<and>
    svc (x, stamped inst p) w1 = (res, w2) \<and> mw (x, p) w = (r, w') \<and>
    lookup_job (store w') (StringKey ident) = Some (outcome_row env ser p res (trips w2) locked) \<and>
    ((\<exists>v. result_value ser res = Inr v) \<and> verdict (env (trips w2)) = Executes \<longrightarrow> r = res)"
proof -
  let ?k = "StringKey ident" and ?t = "clock (env (trips w))" and ?d = "others (env (trips w)) (store w)"
  have inv: "db_inv ?d" using env_runs_db_inv [OF assms(4,6)] .
  define w1 where w1: "w1 = w\<lparr>store := snd (update_record ?k (lock_guard inst) (set_running inst ?t) ?d),
    trips := Suc (trips w)\<rparr>"
  note held = locked_row [OF inv row w1, folded locked]
  note served = kept_by_service [OF assms(5) held, of "(x, stamped inst p)"]
  note lock = lock_layer_executes [where env = env and w = w, OF up inv refl row p w1]
  obtain res w2 where svc: "svc (x, stamped inst p) w1 = (res, w2)" by fastforce
  let ?d2 = "others (env (trips w2)) (store w2)"
  have d2: "db_inv ?d2" "lookup_job ?d2 ?k = Some locked" "lock_by locked = Some inst"
    using kept_by_env [OF assms(4) served, of "trips w2"] by (simp_all add: svc)
  obtain r p' w' where a: "ack env ser res (stamped inst p) w2 = (r, p', w')" by (metis prod_cases3)
  have sp: "part_task_id (stamped inst p) = Some ident" "ctx_lock_by (part_ctx (stamped inst p)) = Some inst"
    using p by simp_all
  have acks: "\<exists>q'. ack env ser res q w2 = (r, q', w')"
    if "q = stamped inst p \<or> q = p \<and> ctx_lock_by (part_ctx p) = Some inst" for q
    using that a stamped_same [of p inst] by metis
  have out: "lookup_job (store w') ?k = Some (outcome_row env ser p res (trips w2) locked) \<and>
    ((\<exists>v. result_value ser res = Inr v) \<and> verdict (env (trips w2)) = Executes \<longrightarrow> r = Inr ())"
  proof (cases "result_value ser res")
    case (Inl e)
    with a sp have "w' = w2" by (auto simp: ack_def Let_def)
    with served svc Inl show ?thesis by (simp add: outcome_row_def)
  next
    case (Inr v)
    from ack_effect [where env = env and w = w2, OF refl d2(1) Inr sp a] d2(2,3) Inr
    show ?thesis by (simp add: outcome_row_def)
  qed
  from stack_runs [OF assms(1,2) lock svc acks mw]
  have "mw (x, p) w = (fst (mw (x, p) w), w')" "r = Inr () \<longrightarrow> fst (mw (x, p) w) = res"
    by (simp_all add: prod_eq_iff)
  with held svc out show ?thesis
    by (intro exI [of _ w1] exI [of _ res] exI [of _ w2] exI [of _ "fst (mw (x, p) w)"] exI [of _ w'])
      (auto simp: w1)
qed

section \<open>From the claim to the lock\<close>

text \<open>A claimed job stays as it is until its owner locks it or gives it up.\<close>

lemma queued_transition:
  assumes "transition j a j'" and "status j = Queued" and "lock_by j = Some w"
    and "\<not> releases (job_id j) w a" and "a \<noteq> Lock (job_id j) w"
  shows "False"
  using assms
  by (induction rule: transition.induct)
     (auto simp: due_def retryable_def lock_guard_def ack_guard_def orphaned_def)

definition claimed_row :: "record_key \<Rightarrow> string \<Rightarrow> job \<Rightarrow> db \<Rightarrow> bool" where
  "claimed_row k w j d \<longleftrightarrow> db_inv d \<and> lookup_job d k = Some j \<and> status j = Queued \<and> lock_by j = Some w"

interpretation queued: kept_by_steps step "\<lambda>a. \<not> releases k w a \<and> a \<noteq> Lock k w" "claimed_row k w j" for k w j
proof unfold_locales
  fix d a d' assume st: "step d a d'" and nr: "\<not> releases k w a \<and> a \<noteq> Lock k w" and "claimed_row k w j d"
  then have inv: "db_inv d" and j: "lookup_job d k = Some j" "status j = Queued" "lock_by j = Some w"
    by (auto simp: claimed_row_def)
  have k: "job_id j = k" using lookup_job_Some [OF j(1)] by simp
  have "\<not> terminal j" using j(2) by (simp add: terminal_def)
  with step_row [OF st inv j(1)] queued_transition [OF _ j(2,3), of a] nr k have "lookup_job d' k = Some j" by blast
  with step_db_inv [OF st inv] j show "claimed_row k w j d'" by (simp add: claimed_row_def)
qed

text \<open>What a client stored stays while no vacuum runs.\<close>

definition stores :: "record_key \<Rightarrow> _ \<Rightarrow> db \<Rightarrow> bool" where
  "stores k pl d \<longleftrightarrow> db_inv d \<and> (\<exists>j. lookup_job d k = Some j \<and> payload j = pl)"

interpretation storing: kept_by_steps step "\<lambda>a. a \<noteq> Vacuum" "stores k pl" for k pl
proof unfold_locales
  fix d a d' assume st: "step d a d'" and nv: "a \<noteq> Vacuum" and "stores k pl d"
  then obtain j where inv: "db_inv d" and j: "lookup_job d k = Some j" "payload j = pl"
    by (auto simp: stores_def)
  from step_row [OF st inv j(1)] nv transition_payload j(2) have "\<exists>j. lookup_job d' k = Some j \<and> payload j = pl"
    using j(1) by metis
  with step_db_inv [OF st inv] show "stores k pl d'" by (simp add: stores_def)
qed

lemma env_runs_keeps:
  assumes "env_runs ok env" and "\<And>d as d'. run step d as d' \<Longrightarrow> \<forall>a \<in> set as. ok a \<Longrightarrow> P d \<Longrightarrow> P d'"
  shows "env_keeps P env"
  using assms unfolding env_runs_def env_keeps_def by blast

lemma env_runs_mono: "env_runs ok env \<Longrightarrow> (\<And>a. ok a \<Longrightarrow> ok' a) \<Longrightarrow> env_runs ok' env"
  unfolding env_runs_def by blast

text \<open>Parking the rows of a batch that do not decode leaves the others alone.\<close>

lemma kill_other_keeps:
  assumes "k' \<noteq> k"
  shows "stmt_keeps (claimed_row k w j) (kill_task_stmt k' reason)"
proof unfold_locales
  fix d t r d' assume "claimed_row k w j d" and st: "kill_task_stmt k' reason t d = Inr (r, d')"
  then have inv: "db_inv d" and j: "lookup_job d k = Some j" "status j = Queued" "lock_by j = Some w"
    by (auto simp: claimed_row_def)
  have "d' = snd (update_record k' (\<lambda>_. True) (set_killed reason t) d)" using st by (simp add: kill_task_stmt_def)
  with j(1) assms have "lookup_job d' k = Some j" by (simp add: killed.lookup_update_record)
  with kill_task_db_inv [OF inv st] j show "claimed_row k w j d'" by (simp add: claimed_row_def)
qed

lemma decode_rows_keeps:
  assumes "env_keeps (claimed_row k inst j) env"
    and "\<And>row. row \<in> set rows \<Longrightarrow> job_id row = k \<Longrightarrow> \<exists>task. decode_row conv row = Inr task"
    and "claimed_row k inst j (store w)"
  shows "claimed_row k inst j (store (snd (decode_rows env conv rows w)))"
  using assms(2,3)
proof (induction rows arbitrary: w)
  case (Cons row rows)
  have rest: "\<exists>task. decode_row conv row' = Inr task" if "row' \<in> set rows" "job_id row' = k" for row'
    using Cons.prems(1) that by simp
  show ?case
  proof (cases "decode_row conv row")
    case (Inr task)
    with Cons.IH [OF rest Cons.prems(2)] show ?thesis by (cases "decode_rows env conv rows w") simp
  next
    case (Inl e)
    with Cons.prems(1) [of row] have ne: "job_id row \<noteq> k" by auto
    obtain r w1 where tx: "tx_loop env (kill_task_stmt (job_id row) (surreal_error_text e)) MAX_TX_RETRIES None w =
        (r, w1)" by fastforce
    have "claimed_row k inst j (store w1)"
      using stmt_keeps.tx_loop_keeps [OF kill_other_keeps [OF ne] assms(1) Cons.prems(2) tx] .
    with Cons.IH [OF rest] Inl tx show ?thesis by (simp add: kill_task_def split: sum.split)
  qed
qed simp

text \<open>A fetch that hands out the task of a stored job: the row it claimed is the stored one, and is still so when the fetch returns.\<close>

lemma fetched_row:
  assumes env: "env_runs (\<lambda>a. \<not> releases k inst a \<and> a \<noteq> Lock k inst \<and> a \<noteq> Vacuum) env" and k: "k = StringKey ident"
    and stored: "stores k pl (store w)"
    and conv: "\<forall>tr task. conv tr = Inr task \<longrightarrow> part_task_id (snd task) = Some (tr_id tr)"
    and fetch: "fetch_next env conv cfg inst w = (Inr tasks, w')"
    and task: "(raw, p) \<in> set tasks" "part_task_id p = Some ident"
  shows "\<exists>j. payload j = pl \<and> decode_row conv j = Inr (raw, p) \<and> claimed_row k inst j (store w')"
proof -
  have stores: "env_keeps (stores k pl) env"
    by (rule env_runs_keeps [OF env], rule storing.run_keeps) auto
  have claims: "env_keeps (claimed_row k inst j) env" for j
    by (rule env_runs_keeps [OF env], rule queued.run_keeps) auto
  from fetch_next_runs [OF fetch] obtain i rows d' where
    st: "fetch_next_stmt (cfg_queue cfg) inst (as_i64 (int (cfg_buffer_size cfg)))
      (clock (env (trips w + i))) (arrives env w i) = Inr (rows, d')"
    and dec: "decode_rows env conv rows (w\<lparr>store := d', trips := Suc (trips w + i)\<rparr>) = (tasks, w')" by blast
  have "stores k pl (arrives env w i)" using arrives_keeps [OF stores stored] .
  then obtain x where inv: "db_inv (arrives env w i)" and x: "lookup_job (arrives env w i) k = Some x" "payload x = pl"
    by (auto simp: stores_def)
  have "tasks = decoded conv rows" using fst_decode_rows dec by (metis fst_conv)
  with task(1) obtain row where row: "row \<in> set rows" "decode_row conv row = Inr (raw, p)"
    by (auto simp: decoded_mem)
  have id: "job_id row = k"
    using row(2) conv task(2) k
    by (auto simp: decode_row_def try_from_row.simps split: sum.splits record_key.splits)
  from fetch_next_ids [OF inv st row(1)] id have r: "lookup_job d' k = Some row" "status row = Queued" "lock_by row = Some inst"
    by auto
  have "payload row = pl"
    using fetch_next_lookup [OF inv st, of k] x r(1)
    by (auto simp: payload_def row_simps split: if_splits)
  moreover have "claimed_row k inst row d'" using r fetch_next_db_inv [OF inv st] by (simp add: claimed_row_def)
  then have c: "claimed_row k inst row (store (w\<lparr>store := d', trips := Suc (trips w + i)\<rparr>))" by simp
  have only: "\<exists>task. decode_row conv row' = Inr task" if "row' \<in> set rows" "job_id row' = k" for row'
    using fetch_next_ids [OF inv st that(1)] that(2) r(1) row(2) by auto
  have "claimed_row k inst row (store w')"
    using decode_rows_keeps [where env = env, OF claims only c] dec by (metis snd_conv)
  ultimately show ?thesis using row(2) by blast
qed

section \<open>An outcome that is not recorded\<close>


text \<open>The same happens when the lock is taken and only its reply is lost: under the shared stack the task's code does not run, and the row stays Running for as long as the instance lives.\<close>

lemma lost_lock_strands:
  assumes "nests_outward stack_new" and "verdict (env (trips w)) = NoReply e True"
    and "db_inv (others (env (trips w)) (store w))"
    and row: "lookup_job (others (env (trips w)) (store w)) (StringKey ident) = Some j" "lock_guard inst j"
    and "part_task_id p = Some ident"
  shows "\<exists>w'. shared_middleware stack_new ack_layer env ser inst svc (x, p) w = (Inl (boxed (Storage (Database e))), w') \<and>
    (\<forall>as d. run step (store w') as d \<and> (\<forall>a \<in> set as. \<not> releases (StringKey ident) inst a) \<longrightarrow>
      lookup_job d (StringKey ident) = Some (set_running inst (clock (env (trips w))) j))"
proof -
  let ?k = "StringKey ident" and ?t = "clock (env (trips w))" and ?d = "others (env (trips w)) (store w)"
  let ?w' = "w\<lparr>store := snd (update_record ?k (lock_guard inst) (set_running inst ?t) ?d), trips := Suc (trips w)\<rparr>"
  have "lock_task env ident inst w = (Inl (Database e), ?w')"
    using assms(2) lock_task_stmt_cases [OF assms(3)] row by (simp add: lock_task_def query_def Let_def)
  then have "shared_middleware stack_new ack_layer env ser inst svc (x, p) w = (Inl (boxed (Storage (Database e))), ?w')"
    using assms(6) by (simp add: middleware_nesting(2) [OF assms(1)] lock_layer_def lock_service_call_def)
  moreover note running.run_keeps [OF _ _ locked_row [OF assms(3) row refl, of w ?t]]
  ultimately show ?thesis by blast
qed

section \<open>A sample environment\<close>

text \<open>An engine where another worker claims from the same queue before every request.\<close>

definition contended :: env where
  "contended =
     (\<lambda>i. \<lparr>others = after (late, Claim ''emails'' ''w2'' 10), clock = late + int i, verdict = Executes\<rparr>)"

lemma contended_runs: "env_runs (\<lambda>a. \<not> releases k inst a) contended"
  unfolding env_runs_def
proof (intro allI)
  fix i d
  have "others (contended i) d = after (late, Claim ''emails'' ''w2'' 10) d" by (simp add: contended_def)
  with after_cases [of "(late, Claim ''emails'' ''w2'' 10)" d]
  show "\<exists>as. run step d as (others (contended i) d) \<and> (\<forall>a \<in> set as. \<not> releases k inst a)"
    using run_single [of step] run_Nil [of step] by (metis releases.simps(5) list.set(1,2) empty_iff singletonD snd_conv)
qed

lemma seven_runs: "service_runs ok seven"
  by (auto simp: service_runs_def seven_def intro: exI [of _ "[]"])

text \<open>The same, but every request after the first loses against a concurrent one.\<close>

definition unlucky :: env where
  "unlucky = (\<lambda>i. (contended i)\<lparr>verdict := if i = 0 then Executes else Rejects (0, conflict_error) []\<rparr>)"

lemma unlucky_runs: "env_runs (\<lambda>a. \<not> releases k inst a) unlucky"
  using contended_runs by (simp add: env_runs_def unlucky_def)

lemma contended_idle: "others (contended i) (store (one_job_world shared_job)) = store (one_job_world shared_job)"
  unfolding contended_def by simp code_simp


end
