(* ===== verification/Shared.thy ===== *)
theory Shared
  imports Storage
begin

text \<open>
  \<open>src/shared.rs\<close>: one connection shared by the workers of several queues. A driver claims
  tasks for all registered queues and hands each to the channel of its queue. The channels
  (\<open>futures::channel::mpsc\<close>) are outside the repository: their state is a type variable, and
  creating, sending and receiving are arguments.
\<close>

section \<open>Registering queues\<close>

datatype shared_error = NamespaceExists string | RegistryLocked

fun shared_error_text :: "shared_error \<Rightarrow> string" where
  "shared_error_text (NamespaceExists q) = ''Namespace '' @ q @ '' already exists''"
| "shared_error_text RegistryLocked = ''Could not acquire registry lock''"

lemma shared_error_text_inj: "shared_error_text e = shared_error_text e' \<longleftrightarrow> e = e'"
  by (cases e; cases e') simp_all

text \<open>The registry, in the order in which the hash map is iterated.\<close>

type_synonym 'c registry = "(string \<times> 'c) list"

text \<open>
  \<open>make_shared_with_config\<close>: \<open>locked\<close> says that \<open>try_lock\<close> fails; the fetcher of the new
  storage is the receiver of the queue's channel, named by the queue.
\<close>

definition make_shared_with_config ::
  "(nat \<Rightarrow> 'c) \<Rightarrow> bool \<Rightarrow> string \<Rightarrow> config \<Rightarrow> 'c registry \<Rightarrow> (shared_error + string storage) \<times> 'c registry"
where
  "make_shared_with_config channel locked ulid cfg reg =
     (if locked then (Inl RegistryLocked, reg)
      else
        (case map_of reg (cfg_queue cfg) of
           Some _ \<Rightarrow> (Inl (NamespaceExists (cfg_queue cfg)), reg)
         | None \<Rightarrow>
             (Inr \<lparr>st_instance = ulid, st_config = cfg, st_sink = sink_new,
                   st_fetcher = cfg_queue cfg\<rparr>,
              reg @ [(cfg_queue cfg, channel (cfg_buffer_size cfg))])))"

definition make_shared ::
  "(nat \<Rightarrow> 'c) \<Rightarrow> bool \<Rightarrow> (string \<Rightarrow> config) \<Rightarrow> string \<Rightarrow> string \<Rightarrow> 'c registry
    \<Rightarrow> (shared_error + string storage) \<times> 'c registry" where
  "make_shared channel locked config_new type_name ulid reg =
     make_shared_with_config channel locked ulid (config_new type_name) reg"

section \<open>The driver\<close>

text \<open>Handing the claimed tasks to the channels; the result of \<open>send\<close> is ignored.\<close>

definition task_queue :: "compact_task \<Rightarrow> string option" where
  "task_queue t = ctx_queue (part_ctx (snd t))"

fun route :: "(compact_task \<Rightarrow> 'c \<Rightarrow> 'c) \<Rightarrow> compact_task list \<Rightarrow> 'c registry \<Rightarrow> 'c registry" where
  "route send [] reg = reg"
| "route send (task # tasks) reg =
     (case task_queue task of
        None \<Rightarrow> route send tasks reg
      | Some q \<Rightarrow>
          route send tasks
            (if map_of reg q = None then reg
             else map (\<lambda>(q', c). if q' = q then (q', send task c) else (q', c)) reg))"

text \<open>One wake-up of \<open>drive_registry\<close>.\<close>

definition drive_wake ::
  "env \<Rightarrow> row_conv \<Rightarrow> (compact_task \<Rightarrow> 'c \<Rightarrow> 'c) \<Rightarrow> 'c registry \<Rightarrow> world \<Rightarrow> 'c registry \<times> world"
where
  "drive_wake env conv send reg w =
     (let queues = map fst reg in
      if queues = [] then (reg, w)
      else
        (let limit = as_i64 (int (max 10 (length queues))) in
         case fetch_next_shared env conv queues limit w of
           (Inr tasks, w') \<Rightarrow> (route send tasks reg, w')
         | (Inl e, w') \<Rightarrow> (reg, w')))"

text \<open>The chunk size the driver gathers wake-ups into, fixed when it starts.\<close>

definition drive_chunk :: "'c registry option \<Rightarrow> nat" where
  "drive_chunk locked_reg = (case locked_reg of None \<Rightarrow> 1 | Some r \<Rightarrow> max (length r) 1)"

fun drive_registry ::
  "env \<Rightarrow> row_conv \<Rightarrow> (compact_task \<Rightarrow> 'c \<Rightarrow> 'c) \<Rightarrow> nat \<Rightarrow> 'c registry \<Rightarrow> world \<Rightarrow> 'c registry \<times> world"
where
  "drive_registry env conv send 0 reg w = (reg, w)"
| "drive_registry env conv send (Suc n) reg w =
     (case drive_wake env conv send reg w of (reg', w') \<Rightarrow> drive_registry env conv send n reg' w')"

section \<open>What the channels promise\<close>

text \<open>
  The documented behaviour of an open channel that the driver relies on: what was sent and not
  yet received, in order.
\<close>

definition fifo_send :: "('c \<Rightarrow> compact_task list) \<Rightarrow> (compact_task \<Rightarrow> 'c \<Rightarrow> 'c) \<Rightarrow> bool" where
  "fifo_send contents send \<longleftrightarrow> (\<forall>t c. contents (send t c) = contents c @ [t])"

lemma map_fst_upd [simp]:
  "map fst (map (\<lambda>(q', c). if q' = q then (q', f c) else (q', c)) reg) = map fst reg"
  by (induction reg) auto

lemma map_of_upd:
  "map_of (map (\<lambda>(q', c). if q' = q then (q', f c) else (q', c)) reg) x =
     (if x = q then map_option f (map_of reg x) else map_of reg x)"
  by (induction reg) auto

lemma map_fst_route: "map fst (route send tasks reg) = map fst reg"
  by (induction send tasks reg rule: route.induct) (auto split: option.splits)

lemma route_contents:
  assumes "fifo_send contents send"
  shows "map_option contents (map_of (route send tasks reg) q) =
    map_option (\<lambda>c. contents c @ filter (\<lambda>t. task_queue t = Some q) tasks) (map_of reg q)"
proof (induction tasks arbitrary: reg)
  case (Cons task tasks)
  have snd: "contents (send t c) = contents c @ [t]" for t c using assms unfolding fifo_send_def by blast
  show ?case
  proof (cases "task_queue task = Some q")
    case True
    with Cons.IH show ?thesis by (cases "map_of reg q") (simp_all add: map_of_upd snd)
  next
    case False
    with Cons.IH show ?thesis by (cases "task_queue task") (auto simp: map_of_upd)
  qed
qed (simp add: option.map_ident)

text \<open>What a claim for several queues hands out is for these queues.\<close>

lemma shared_claim_queues:
  assumes "env_keeps db_inv env" and "db_inv (store w)"
    and conv: "\<forall>tr t. conv tr = Inr t \<longrightarrow> task_queue t = Some (tr_job_type tr)"
    and f: "fetch_next_shared env conv qs limit w = (Inr tasks, w')" and t: "t \<in> set tasks"
  shows "\<exists>q \<in> set qs. task_queue t = Some q"
proof -
  from fetch_next_shared_claims [OF f] obtain k rows d' where
    st: "fetch_next_shared_stmt qs limit (clock (env (trips w + k))) (arrives env w k) =
      Inr (rows, d')" and "tasks = decoded conv rows" by blast
  then obtain row where row: "row \<in> set rows" "decode_row conv row = Inr t"
    using t by (auto simp: decoded_mem)
  have "queue row \<in> set qs"
  proof -
    let ?now = "clock (env (trips w + k))"
    from row(1) fetch_next_shared_rows [OF arrives_keeps [OF assms(1,2)] st] obtain x where
      "x \<in> set (due_batch (\<lambda>x. x \<in> set qs) limit ?now (arrives env w k))"
      "row = set_claimed_shared ?now x"
      by (auto simp del: set_map simp: set_map [of "set_claimed_shared ?now"])
    with due_batch_mem [OF this(1)] show ?thesis by (simp only: claimed_shared.eff_queue)
  qed
  moreover have "task_queue t = Some (queue row)"
    using decode_row_Inr [OF row(2)] conv by metis
  ultimately show ?thesis by blast
qed

section \<open>Properties\<close>

text \<open>Registering is safe against duplicates: a queue that is registered already, or a registry that is locked, is refused with its own error and leaves the registry and every channel in it as they were; otherwise exactly this queue is added with an empty sink and a new channel of the configured size.\<close>

lemma make_shared_never_clobbers:
  "fst (make_shared_with_config channel locked ulid cfg reg) =
     (if locked then Inl RegistryLocked
      else if cfg_queue cfg \<in> set (map fst reg) then Inl (NamespaceExists (cfg_queue cfg))
      else Inr \<lparr>st_instance = ulid, st_config = cfg, st_sink = sink_new, st_fetcher = cfg_queue cfg\<rparr>) \<and>
   (\<forall>q. map_of (snd (make_shared_with_config channel locked ulid cfg reg)) q =
      (if q = cfg_queue cfg \<and> \<not> locked \<and> q \<notin> set (map fst reg)
       then Some (channel (cfg_buffer_size cfg)) else map_of reg q)) \<and>
   (distinct (map fst reg) \<longrightarrow>
      distinct (map fst (snd (make_shared_with_config channel locked ulid cfg reg))))"
proof -
  show ?thesis
  proof (cases "map_of reg (cfg_queue cfg)")
    case None
    then have "cfg_queue cfg \<notin> fst ` set reg" by (simp add: map_of_eq_None_iff)
    with None show ?thesis
      by (auto simp: make_shared_with_config_def map_add_def split: option.splits)
  next
    case (Some c)
    then have "cfg_queue cfg \<in> fst ` set reg" by (metis imageI fst_conv map_of_SomeD)
    with Some show ?thesis by (simp add: make_shared_with_config_def)
  qed
qed

text \<open>The driver hands every task it claims to the channel of its own queue, in claim order, and to no other: whatever other clients do, after a wake-up each registered channel holds what it held plus the tasks of its queue, every claimed task went to some registered channel, and with no queue registered nothing is requested.\<close>

lemma driver_routes_all_tasks:
  assumes "fifo_send contents send" and "env_keeps db_inv env" and "db_inv (store w)"
    and conv: "\<forall>tr t. conv tr = Inr t \<longrightarrow> task_queue t = Some (tr_job_type tr)"
    and "drive_wake env conv send reg w = (reg', w')"
  shows "\<exists>tasks. (\<forall>q. map_option contents (map_of reg' q) =
      map_option (\<lambda>c. contents c @ filter (\<lambda>t. task_queue t = Some q) tasks) (map_of reg q)) \<and>
    (\<forall>t \<in> set tasks. \<exists>q \<in> set (map fst reg). task_queue t = Some q) \<and>
    map fst reg' = map fst reg \<and> (reg = [] \<longrightarrow> w' = w \<and> tasks = [])"
proof (cases "reg = []")
  case True
  with assms(5) have "reg' = reg" "w' = w" by (auto simp: drive_wake_def)
  with True show ?thesis by (intro exI [of _ "[]"]) simp
next
  case False
  let ?qs = "map fst reg" and ?limit = "as_i64 (int (max 10 (length (map fst reg))))"
  obtain res w1 where f: "fetch_next_shared env conv ?qs ?limit w = (res, w1)" by fastforce
  show ?thesis
  proof (cases res)
    case (Inl e)
    with False f assms(5) have "reg' = reg" by (auto simp: drive_wake_def Let_def)
    with False show ?thesis by (intro exI [of _ "[]"]) (simp add: option.map_ident)
  next
    case (Inr tasks)
    with False f assms(5) have r: "reg' = route send tasks reg" by (auto simp: drive_wake_def Let_def)
    have "\<exists>q \<in> set ?qs. task_queue t = Some q" if "t \<in> set tasks" for t
      using shared_claim_queues [OF assms(2,3) conv f [unfolded Inr] that] .
    then show ?thesis
      using False route_contents [OF assms(1)] map_fst_route [of send tasks reg] r
      by (intro exI [of _ tasks]) simp
  qed
qed

text \<open>The iteration order of the registry does not decide what is claimed: for two orders of the same queues the driver's request selects the same jobs and leaves the same tables.\<close>

lemma driver_claim_order_free:
  assumes "mset reg1 = mset reg2"
  shows "fetch_next_shared env conv (map fst reg1) (as_i64 (int (max 10 (length reg1)))) w =
    fetch_next_shared env conv (map fst reg2) (as_i64 (int (max 10 (length reg2)))) w"
proof -
  have s: "set (map fst reg1) = set (map fst reg2)"
    using mset_eq_setD [OF assms] by simp
  have l: "length reg1 = length reg2" using assms by (rule mset_eq_length)
  have "fetch_next_shared_stmt (map fst reg1) n = fetch_next_shared_stmt (map fst reg2) n" for n
    by (rule ext, rule ext) (simp only: fetch_next_shared_stmt_def s)
  with l show ?thesis by (simp add: fetch_next_shared_def)
qed

text \<open>A queue is never unregistered: when the storage of a registered queue is gone, so that its channel swallows what is sent, the driver still claims the queue's due jobs; each is queued in the table and delivered to nobody, and registering the queue again is refused.\<close>

lemma closed_queue_still_claimed:
  assumes "map_of reg q = Some c" and "\<forall>t. send t c = c"
    and "drive_wake env conv send reg w = (reg', w')"
  shows "map_of reg' q = Some c \<and>
    fst (make_shared_with_config channel False ulid (cfg\<lparr>cfg_queue := q\<rparr>) reg') = Inl (NamespaceExists q) \<and>
    w' = snd (fetch_next_shared env conv (map fst reg') (as_i64 (int (max 10 (length reg')))) w)"
proof -
  have keep: "map_of (route send tasks r) q = Some c" if "map_of r q = Some c" for tasks r
    using that
  proof (induction tasks arbitrary: r)
    case (Cons t ts)
    have swallow: "send t c = c" using assms(2) by blast
    have "map_of (map (\<lambda>(q', c). if q' = a then (q', send t c) else (q', c)) r) q = Some c" for a
      using Cons.prems swallow map_of_upd [of a "send t" r q] by auto
    with Cons.IH Cons.prems show ?case by (cases "task_queue t") simp_all
  qed simp
  have ne: "reg \<noteq> []" using assms(1) by auto
  obtain res w1 where f: "fetch_next_shared env conv (map fst reg) (as_i64 (int (max 10 (length reg)))) w =
      (res, w1)" by fastforce
  have "map_of reg' q = Some c" "map fst reg' = map fst reg" "w' = w1"
    using assms(1,3) ne f keep [OF assms(1)]
    by (auto simp: drive_wake_def Let_def map_fst_route split: sum.splits)
  moreover have "length reg' = length reg" using calculation(2) by (metis length_map)
  ultimately show ?thesis using f by (simp add: make_shared_with_config_def)
qed

end
