(* ===== verification/Driver.thy ===== *)
theory Driver
  imports Shared
begin

text \<open>
  The driver of \<open>src/shared.rs\<close> as the state machine its future is: it collects the registered
  queues, claims for them with the registry free, then locks the registry and hands the tasks
  over one by one, waiting where a channel is full. \<open>drive_wake\<close> and \<open>route\<close> (theory Shared) are
  one wake-up that runs to its end within one poll.
\<close>

section \<open>Channels\<close>

text \<open>
  \<open>futures::channel::mpsc\<close> is outside the repository. What \<open>tx.send(task).await\<close> does with a
  channel: wait until it is ready (\<open>False\<close> if the receiver is gone), put the task in, wait until
  it is flushed.
\<close>

record 'c channel_ops =
  ch_ready :: "'c \<Rightarrow> bool poll"
  ch_start :: "compact_task \<Rightarrow> 'c \<Rightarrow> 'c"
  ch_flushed :: "'c \<Rightarrow> bool"
  ch_recv :: "'c \<Rightarrow> compact_task option poll \<times> 'c"

definition upd_channel :: "string \<Rightarrow> ('c \<Rightarrow> 'c) \<Rightarrow> 'c registry \<Rightarrow> 'c registry" where
  "upd_channel q f reg = map (\<lambda>(q', c). if q' = q then (q', f c) else (q', c)) reg"

lemma map_fst_upd_channel [simp]: "map fst (upd_channel q f reg) = map fst reg"
  unfolding upd_channel_def by (rule map_fst_upd)

lemma map_of_upd_channel [simp]:
  "map_of (upd_channel q f reg) x = (if x = q then map_option f (map_of reg x) else map_of reg x)"
  by (simp add: upd_channel_def map_of_upd)

section \<open>The machine\<close>

text \<open>
  Between polls the driver is idle, or waiting for the reply to its claim for the queues it
  collected, or about to send the first of the claimed tasks that are left, or waiting for a send
  to be flushed. Only in the last two states it holds the registry lock, so that queues may be
  registered while a claim is under way. A registration holds the lock within one call only,
  so that the driver's own locking never waits across polls.
\<close>

datatype drive_state =
    DriveIdle
  | Claiming "string list"
  | Sending "compact_task list"
  | Flushing string "compact_task list"

fun holds_registry :: "drive_state \<Rightarrow> bool" where
  "holds_registry DriveIdle \<longleftrightarrow> False"
| "holds_registry (Claiming qs) \<longleftrightarrow> False"
| "holds_registry (Sending ts) \<longleftrightarrow> True"
| "holds_registry (Flushing q ts) \<longleftrightarrow> True"

fun drive_rank :: "drive_state \<Rightarrow> nat" where
  "drive_rank DriveIdle = 0"
| "drive_rank (Claiming qs) = 0"
| "drive_rank (Sending ts) = 2 * length ts + 1"
| "drive_rank (Flushing q ts) = 2 * length ts + 2"

text \<open>
  One poll of the driver's future, with \<open>n\<close> chunks of wake-ups ready and the replies of \<open>m\<close>
  claims arriving before it returns.
\<close>

function drive_poll ::
  "env \<Rightarrow> row_conv \<Rightarrow> 'c channel_ops \<Rightarrow> nat \<Rightarrow> nat \<Rightarrow> drive_state \<Rightarrow> 'c registry \<Rightarrow> world
    \<Rightarrow> drive_state \<times> 'c registry \<times> world" where
  "drive_poll env conv ops n m s reg w =
     (case s of
        DriveIdle \<Rightarrow>
          (case n of
             0 \<Rightarrow> (DriveIdle, reg, w)
           | Suc n' \<Rightarrow>
               (let queues = map fst reg in
                if queues = [] then drive_poll env conv ops n' m DriveIdle reg w
                else drive_poll env conv ops n' m (Claiming queues) reg w))
      | Claiming queues \<Rightarrow>
          (case m of
             0 \<Rightarrow> (Claiming queues, reg, w)
           | Suc m' \<Rightarrow>
               (let limit = as_i64 (int (max 10 (length queues))) in
                case fetch_next_shared env conv queues limit w of
                  (Inr tasks, w') \<Rightarrow> drive_poll env conv ops n m' (Sending tasks) reg w'
                | (Inl e, w') \<Rightarrow> drive_poll env conv ops n m' DriveIdle reg w'))
      | Sending tasks \<Rightarrow>
          (case tasks of
             [] \<Rightarrow> drive_poll env conv ops n m DriveIdle reg w
           | task # rest \<Rightarrow>
               (case task_queue task of
                  None \<Rightarrow> drive_poll env conv ops n m (Sending rest) reg w
                | Some q \<Rightarrow>
                    (case map_of reg q of
                       None \<Rightarrow> drive_poll env conv ops n m (Sending rest) reg w
                     | Some c \<Rightarrow>
                         (case ch_ready ops c of
                            PollPending \<Rightarrow> (Sending (task # rest), reg, w)
                          | PollReady False \<Rightarrow> drive_poll env conv ops n m (Sending rest) reg w
                          | PollReady True \<Rightarrow>
                              drive_poll env conv ops n m (Flushing q rest)
                                (upd_channel q (ch_start ops task) reg) w))))
      | Flushing q rest \<Rightarrow>
          (case map_of reg q of
             None \<Rightarrow> drive_poll env conv ops n m (Sending rest) reg w
           | Some c \<Rightarrow>
               (if ch_flushed ops c then drive_poll env conv ops n m (Sending rest) reg w
                else (Flushing q rest, reg, w))))"
  by pat_completeness auto

termination
  by (relation "measures [\<lambda>(env, conv, ops, n, m, s, reg, w). n, \<lambda>(env, conv, ops, n, m, s, reg, w). m,
        \<lambda>(env, conv, ops, n, m, s, reg, w). drive_rank s]")
     auto

declare drive_poll.simps [simp del]

lemma drive_poll_idle_0 [simp]: "drive_poll env conv ops 0 m DriveIdle reg w = (DriveIdle, reg, w)"
  by (simp add: drive_poll.simps)

lemma drive_poll_idle_Suc:
  "drive_poll env conv ops (Suc n) m DriveIdle reg w =
     (if reg = [] then drive_poll env conv ops n m DriveIdle reg w
      else drive_poll env conv ops n m (Claiming (map fst reg)) reg w)"
  by (subst drive_poll.simps) (simp add: Let_def)

lemma drive_poll_Claiming_0 [simp]:
  "drive_poll env conv ops n 0 (Claiming qs) reg w = (Claiming qs, reg, w)"
  by (simp add: drive_poll.simps)

lemma drive_poll_Sending_Nil [simp]:
  "drive_poll env conv ops n m (Sending []) reg w = drive_poll env conv ops n m DriveIdle reg w"
  by (subst drive_poll.simps) simp

lemma drive_poll_Claiming_Suc:
  "fetch_next_shared env conv qs (as_i64 (int (max 10 (length qs)))) w = (r, w1) \<Longrightarrow>
    drive_poll env conv ops n (Suc m) (Claiming qs) reg w = drive_poll env conv ops n m (Sending (batch r)) reg w1"
  by (subst drive_poll.simps) (cases r; simp add: Let_def)

lemma drive_poll_Sending_Cons:
  "drive_poll env conv ops n m (Sending (task # rest)) reg w =
     (case task_queue task of
        None \<Rightarrow> drive_poll env conv ops n m (Sending rest) reg w
      | Some q \<Rightarrow>
          (case map_of reg q of
             None \<Rightarrow> drive_poll env conv ops n m (Sending rest) reg w
           | Some c \<Rightarrow>
               (case ch_ready ops c of
                  PollPending \<Rightarrow> (Sending (task # rest), reg, w)
                | PollReady False \<Rightarrow> drive_poll env conv ops n m (Sending rest) reg w
                | PollReady True \<Rightarrow>
                    drive_poll env conv ops n m (Flushing q rest)
                      (upd_channel q (ch_start ops task) reg) w)))"
  by (subst drive_poll.simps) simp

lemma drive_poll_Flushing:
  "drive_poll env conv ops n m (Flushing q rest) reg w =
     (case map_of reg q of
        None \<Rightarrow> drive_poll env conv ops n m (Sending rest) reg w
      | Some c \<Rightarrow>
          (if ch_flushed ops c then drive_poll env conv ops n m (Sending rest) reg w
           else (Flushing q rest, reg, w)))"
  by (subst drive_poll.simps) simp

lemmas drive_poll_unfold = drive_poll_idle_Suc drive_poll_Sending_Cons drive_poll_Flushing

section \<open>The shared storage and its streams\<close>

text \<open>
  \<open>SharedSurrealStorage\<close>: the registry and the driver, which every clone and every storage
  made from it share; \<open>new\<close> is \<open>new_with_codec\<close> with the JSON codec.
\<close>

record 'c shared_storage =
  sh_registry :: "'c registry"
  sh_drive :: drive_state

definition new_with_codec :: "'c shared_storage" where
  "new_with_codec = \<lparr>sh_registry = [], sh_drive = DriveIdle\<rparr>"

definition shared_new :: "'c shared_storage" where
  "shared_new = new_with_codec"

definition shared_clone :: "'c shared_storage \<Rightarrow> 'c shared_storage" where
  "shared_clone sh = sh"

text \<open>
  \<open>SharedFetcher::poll_next\<close>: polling the driver lets it handle the wake-ups and replies that are there,
  then the queue's receiver is polled; a poisoned receiver lock ends the stream. The fetcher is
  named by its queue, and its receiver is the other end of the registered channel.
\<close>

definition shared_next ::
  "env \<Rightarrow> row_conv \<Rightarrow> 'c channel_ops \<Rightarrow> nat \<Rightarrow> nat \<Rightarrow> bool \<Rightarrow> string \<Rightarrow> 'c shared_storage \<Rightarrow> world
    \<Rightarrow> compact_task option poll \<times> 'c shared_storage \<times> world" where
  "shared_next env conv ops n m poisoned q sh w =
     (case drive_poll env conv ops n m (sh_drive sh) (sh_registry sh) w of
        (s', reg', w') \<Rightarrow>
          (let sh' = sh\<lparr>sh_registry := reg', sh_drive := s'\<rparr> in
           if poisoned then (PollReady None, sh', w')
           else
             (case map_of reg' q of
                None \<Rightarrow> (PollReady None, sh', w')
              | Some c \<Rightarrow>
                  (case ch_recv ops c of
                     (p, c') \<Rightarrow> (p, sh'\<lparr>sh_registry := upd_channel q (\<lambda>_. c') reg'\<rparr>, w')))))"

text \<open>\<open>SharedFetcher::clone\<close> shares the driver and the receiver.\<close>

definition shared_fetcher_clone :: "string \<Rightarrow> string" where
  "shared_fetcher_clone q = q"

text \<open>
  \<open>poll_shared\<close>: registration first, then the tasks routed to the queue beside those the
  storage's own poll fetcher claims. A schedule says which side \<open>select\<close> takes next; in between,
  the storages of other queues poll the same driver and take from their own channels.
\<close>

record 'c shared_stream =
  ss_shared :: "'c shared_storage"
  ss_eager :: poll_fetcher

datatype shared_turn = RoutedPoll nat nat bool | SharedEager nat "delay_item list" | PeerPoll string nat nat bool

fun shared_turn_step ::
  "env \<Rightarrow> row_conv \<Rightarrow> 'c channel_ops \<Rightarrow> string storage \<Rightarrow> shared_turn \<Rightarrow> 'c shared_stream \<Rightarrow> world
    \<Rightarrow> stream_item poll \<times> 'c shared_stream \<times> world" where
  "shared_turn_step env conv ops st (RoutedPoll n m poisoned) ss w =
     (case shared_next env conv ops n m poisoned (st_fetcher st) (ss_shared ss) w of
        (p, sh, w') \<Rightarrow>
          ((case p of PollReady (Some task) \<Rightarrow> PollReady (Inr (Some task)) | _ \<Rightarrow> PollPending),
           ss\<lparr>ss_shared := sh\<rparr>, w'))"
| "shared_turn_step env conv ops st (SharedEager n ds) ss w =
     (case poll_next env conv (st_config st) (st_instance st) n ds (ss_eager ss) w of
        (p, f, w') \<Rightarrow>
          ((case p of PollReady (Some item) \<Rightarrow> PollReady item | _ \<Rightarrow> PollPending),
           ss\<lparr>ss_eager := f\<rparr>, w'))"
| "shared_turn_step env conv ops st (PeerPoll q n m poisoned) ss w =
     (case shared_next env conv ops n m poisoned q (ss_shared ss) w of
        (p, sh, w') \<Rightarrow> (PollPending, ss\<lparr>ss_shared := sh\<rparr>, w'))"

definition poll_shared ::
  "env \<Rightarrow> row_conv \<Rightarrow> 'c channel_ops \<Rightarrow> worker_context \<Rightarrow> string storage \<Rightarrow> shared_turn list
    \<Rightarrow> 'c shared_storage \<Rightarrow> world \<Rightarrow> stream_item list \<times> 'c shared_stream \<times> world" where
  "poll_shared env conv ops wc st ts sh w =
     (case initial_heartbeat env (st_config st) wc ''SharedSurrealStorage'' (st_instance st) w of
        (res, w') \<Rightarrow>
          (case turns (shared_turn_step env conv ops st) ts
                  \<lparr>ss_shared = sh, ss_eager = poll_fetcher_new\<rparr> w' of
             (items, r) \<Rightarrow> (registration_item res # items, r)))"

text \<open>\<open>BackendExt::poll_compact\<close> and \<open>Backend::poll\<close>.\<close>

definition shared_compact ::
  "env \<Rightarrow> row_conv \<Rightarrow> 'c channel_ops \<Rightarrow> worker_context \<Rightarrow> string storage \<Rightarrow> shared_turn list
    \<Rightarrow> 'c shared_storage \<Rightarrow> world \<Rightarrow> stream_item list \<times> 'c shared_stream \<times> world" where
  "shared_compact env conv ops wc st ts sh w = poll_shared env conv ops wc st ts sh w"

definition shared_poll ::
  "env \<Rightarrow> row_conv \<Rightarrow> (bytes \<Rightarrow> string + 'a) \<Rightarrow> 'c channel_ops \<Rightarrow> worker_context \<Rightarrow> string storage
    \<Rightarrow> shared_turn list \<Rightarrow> 'c shared_storage \<Rightarrow> world
    \<Rightarrow> (surreal_error + 'a surreal_task option) list \<times> 'c shared_stream \<times> world" where
  "shared_poll env conv decode ops wc st ts sh w =
     (case initial_heartbeat env (st_config st) wc ''SharedSurrealStorage'' (st_instance st) w of
        (res, w') \<Rightarrow>
          (case decode_or_kill env decode (registration_item res) w' of
             (first, w1) \<Rightarrow>
               (case turns (then_decode env decode (shared_turn_step env conv ops st)) ts
                       \<lparr>ss_shared = sh, ss_eager = poll_fetcher_new\<rparr> w1 of
                  (items, r) \<Rightarrow> (first # items, r))))"

section \<open>What the driver holds and what it has delivered\<close>

fun held :: "drive_state \<Rightarrow> compact_task list" where
  "held DriveIdle = []"
| "held (Claiming qs) = []"
| "held (Sending ts) = ts"
| "held (Flushing q ts) = ts"

text \<open>The claim the driver waits for, and the claims of the driver in a row, each for the queues collected for it.\<close>

fun asked :: "drive_state \<Rightarrow> string list list" where
  "asked (Claiming qs) = [qs]"
| "asked _ = []"

fun shared_fetches ::
  "env \<Rightarrow> row_conv \<Rightarrow> string list list \<Rightarrow> world \<Rightarrow> (surreal_error + compact_task list) list \<times> world" where
  "shared_fetches env conv [] w = ([], w)"
| "shared_fetches env conv (qs # qss) w =
     (case fetch_next_shared env conv qs (as_i64 (int (max 10 (length qs)))) w of
        (r, w') \<Rightarrow> (case shared_fetches env conv qss w' of (rs, w'') \<Rightarrow> (r # rs, w'')))"

text \<open>The documented behaviour of an open channel: what was put in comes out in order.\<close>

definition open_fifo :: "('c \<Rightarrow> compact_task list) \<Rightarrow> 'c channel_ops \<Rightarrow> bool" where
  "open_fifo contents ops \<longleftrightarrow>
     (\<forall>t c. contents (ch_start ops t c) = contents c @ [t]) \<and>
     (\<forall>c. ch_ready ops c \<noteq> PollReady False) \<and>
     (\<forall>c. fst (ch_recv ops c) = (case contents c of [] \<Rightarrow> PollPending | t # ts \<Rightarrow> PollReady (Some t)) \<and>
          contents (snd (ch_recv ops c)) = tl (contents c))"

fun received :: "compact_task option poll \<Rightarrow> compact_task list" where
  "received (PollReady (Some t)) = [t]"
| "received _ = []"

definition of_queue :: "string \<Rightarrow> compact_task list \<Rightarrow> compact_task list" where
  "of_queue q ts = filter (\<lambda>t. task_queue t = Some q) ts"

lemma of_queue_simps [simp]:
  "of_queue q [] = []"
  "of_queue q (t # ts) = (if task_queue t = Some q then t # of_queue q ts else of_queue q ts)"
  "of_queue q (ts @ ts') = of_queue q ts @ of_queue q ts'"
  by (simp_all add: of_queue_def)

text \<open>
  Everything of a queue on its way to the worker: what is in the channel, then what the driver
  still holds for it.
\<close>

definition in_transit :: "('c \<Rightarrow> compact_task list) \<Rightarrow> 'c registry \<Rightarrow> drive_state \<Rightarrow> string \<Rightarrow> compact_task list option"
where
  "in_transit contents reg s q = map_option (\<lambda>c. contents c @ of_queue q (held s)) (map_of reg q)"

definition transit_step ::
  "env \<Rightarrow> row_conv \<Rightarrow> ('c \<Rightarrow> compact_task list) \<Rightarrow> nat \<Rightarrow> nat \<Rightarrow> drive_state \<Rightarrow> 'c registry \<Rightarrow> world
    \<Rightarrow> drive_state \<Rightarrow> 'c registry \<Rightarrow> world \<Rightarrow> bool" where
  "transit_step env conv contents n m s reg w s' reg' w' \<longleftrightarrow>
     map fst reg' = map fst reg \<and>
     (\<exists>k \<le> m. \<exists>rs. shared_fetches env conv (take k (asked s @ replicate n (map fst reg))) w = (rs, w') \<and>
        (\<forall>q. in_transit contents reg' s' q =
          map_option (\<lambda>ts. ts @ of_queue q (concat (map batch rs))) (in_transit contents reg s q)))"

lemma transit_step_refl: "transit_step env conv contents n m s reg w s reg w"
  unfolding transit_step_def by (auto simp: option.map_ident intro!: exI [of _ 0])

lemma transit_step_same:
  assumes "transit_step env conv contents n1 m s1 reg1 w s' reg' w'"
    and "map fst reg1 = map fst reg" and "\<And>q. in_transit contents reg1 s1 q = in_transit contents reg s q"
    and "asked s1 @ replicate n1 (map fst reg) = asked s @ replicate n (map fst reg)"
  shows "transit_step env conv contents n m s reg w s' reg' w'"
  using assms unfolding transit_step_def by simp

lemma transit_step_idle_less:
  assumes "transit_step env conv contents n m DriveIdle reg w s' reg' w'"
  shows "transit_step env conv contents (Suc n) m DriveIdle reg w s' reg' w'"
proof -
  from assms obtain k rs where k: "k \<le> m" "map fst reg' = map fst reg"
    "shared_fetches env conv (take k (replicate n (map fst reg))) w = (rs, w')"
    and t: "\<forall>q. in_transit contents reg' s' q =
      map_option (\<lambda>ts. ts @ of_queue q (concat (map batch rs))) (in_transit contents reg DriveIdle q)"
    unfolding transit_step_def by auto
  have "take k (replicate n (map fst reg)) = take (min k n) (replicate (Suc n) (map fst reg))"
    by (simp add: take_replicate min_def del: replicate_Suc)
  with k(3) have "shared_fetches env conv (take (min k n) (asked DriveIdle @ replicate (Suc n) (map fst reg))) w = (rs, w')"
    by (simp del: replicate_Suc)
  moreover have "min k n \<le> m" using k(1) by simp
  ultimately show ?thesis unfolding transit_step_def using k(2) t by blast
qed

lemma transit_step_fetch:
  assumes f: "fetch_next_shared env conv qs (as_i64 (int (max 10 (length qs)))) w = (r, w1)"
    and "transit_step env conv contents n m (Sending (batch r)) reg w1 s' reg' w'"
  shows "transit_step env conv contents n (Suc m) (Claiming qs) reg w s' reg' w'"
proof -
  from assms(2) obtain k rs where k: "k \<le> m" "map fst reg' = map fst reg"
    "shared_fetches env conv (take k (replicate n (map fst reg))) w1 = (rs, w')"
    and t: "\<And>q. in_transit contents reg' s' q =
      map_option (\<lambda>ts. ts @ of_queue q (concat (map batch rs))) (in_transit contents reg (Sending (batch r)) q)"
    unfolding transit_step_def by auto
  have "shared_fetches env conv (take (Suc k) (asked (Claiming qs) @ replicate n (map fst reg))) w = (r # rs, w')"
    using f k(3) by simp
  moreover have "in_transit contents reg' s' q =
      map_option (\<lambda>ts. ts @ of_queue q (concat (map batch (r # rs)))) (in_transit contents reg (Claiming qs) q)" for q
    unfolding t by (simp add: in_transit_def option.map_comp o_def)
  ultimately show ?thesis using k(1,2) unfolding transit_step_def by (metis Suc_le_mono)
qed

lemma in_transit_sent:
  assumes "open_fifo contents ops" and "task_queue t = Some q" and "map_of reg q = Some c"
  shows "in_transit contents (upd_channel q (ch_start ops t) reg) (Flushing q ts) x =
    in_transit contents reg (Sending (t # ts)) x"
proof -
  have "contents (ch_start ops t c) = contents c @ [t]" using assms(1) unfolding open_fifo_def by blast
  with assms(2,3) show ?thesis by (simp add: in_transit_def)
qed

lemma sending_transit:
  assumes fifo: "open_fifo contents ops"
    and idle: "\<And>reg. drive_poll env conv ops n m DriveIdle reg w = (s', reg', w') \<Longrightarrow>
      transit_step env conv contents n m DriveIdle reg w s' reg' w'"
  shows "drive_poll env conv ops n m (Sending ts) reg w = (s', reg', w') \<Longrightarrow>
    transit_step env conv contents n m (Sending ts) reg w s' reg' w'"
proof (induction ts arbitrary: reg)
  case Nil
  then have "transit_step env conv contents n m DriveIdle reg w s' reg' w'" by (simp add: idle)
  then show ?case by (rule transit_step_same) (simp_all add: in_transit_def)
next
  case (Cons t ts)
  note step = Cons.prems [unfolded drive_poll_Sending_Cons]
  have skip: ?case if "drive_poll env conv ops n m (Sending ts) reg w = (s', reg', w')"
    "\<And>q. task_queue t = Some q \<Longrightarrow> map_of reg q = None"
    using Cons.IH [OF that(1)] by (rule transit_step_same) (auto simp: in_transit_def that(2))
  show ?case
  proof (cases "task_queue t")
    case None
    with step skip show ?thesis by simp
  next
    case (Some q)
    show ?thesis
    proof (cases "map_of reg q")
      case None
      with step Some skip show ?thesis by simp
    next
      case (Some c)
      note q = \<open>task_queue t = Some q\<close> Some
      show ?thesis
      proof (cases "ch_ready ops c")
        case PollPending
        with step q show ?thesis by (auto intro: transit_step_refl)
      next
        case (PollReady b)
        let ?reg = "upd_channel q (ch_start ops t) reg"
        from PollReady fifo have "b" by (cases b) (auto simp: open_fifo_def)
        with PollReady q step have fl: "drive_poll env conv ops n m (Flushing q ts) ?reg w = (s', reg', w')"
          by simp
        have "transit_step env conv contents n m (Flushing q ts) ?reg w s' reg' w'"
        proof (cases "ch_flushed ops (ch_start ops t c)")
          case True
          with fl q have "drive_poll env conv ops n m (Sending ts) ?reg w = (s', reg', w')"
            by (simp add: drive_poll_Flushing)
          from Cons.IH [OF this] show ?thesis by (rule transit_step_same) (simp_all add: in_transit_def)
        next
          case False
          with fl q show ?thesis by (auto simp: drive_poll_Flushing intro: transit_step_refl)
        qed
        then show ?thesis
          by (rule transit_step_same) (simp_all add: in_transit_sent [OF fifo q])
      qed
    qed
  qed
qed

lemma claiming_transit:
  assumes fifo: "open_fifo contents ops"
    and idle: "\<And>m reg w. drive_poll env conv ops n m DriveIdle reg w = (s', reg', w') \<Longrightarrow>
      transit_step env conv contents n m DriveIdle reg w s' reg' w'"
    and "drive_poll env conv ops n m (Claiming qs) reg w = (s', reg', w')"
  shows "transit_step env conv contents n m (Claiming qs) reg w s' reg' w'"
proof (cases m)
  case 0
  with assms(3) show ?thesis by (auto intro: transit_step_refl)
next
  case (Suc m')
  obtain r w1 where f: "fetch_next_shared env conv qs (as_i64 (int (max 10 (length qs)))) w = (r, w1)" by fastforce
  have "drive_poll env conv ops n m' (Sending (batch r)) reg w1 = (s', reg', w')"
    using assms(3) unfolding Suc drive_poll_Claiming_Suc [OF f] .
  from sending_transit [OF fifo idle this] show ?thesis unfolding Suc by (rule transit_step_fetch [OF f])
qed

lemma idle_transit:
  assumes "open_fifo contents ops"
  shows "drive_poll env conv ops n m DriveIdle reg w = (s', reg', w') \<Longrightarrow>
    transit_step env conv contents n m DriveIdle reg w s' reg' w'"
proof (induction n arbitrary: m reg w)
  case 0
  then show ?case by (auto intro: transit_step_refl)
next
  case (Suc n)
  show ?case
  proof (cases "reg = []")
    case True
    with Suc.prems have "drive_poll env conv ops n m DriveIdle reg w = (s', reg', w')"
      by (simp add: drive_poll_idle_Suc)
    from Suc.IH [OF this] show ?thesis by (rule transit_step_idle_less)
  next
    case False
    with Suc.prems have "drive_poll env conv ops n m (Claiming (map fst reg)) reg w = (s', reg', w')"
      by (simp add: drive_poll_idle_Suc)
    from claiming_transit [OF assms Suc.IH this] show ?thesis
      by (rule transit_step_same) (simp_all add: in_transit_def)
  qed
qed

lemma drive_poll_transit:
  assumes "open_fifo contents ops" and "drive_poll env conv ops n m s reg w = (s', reg', w')"
  shows "transit_step env conv contents n m s reg w s' reg' w'"
proof (cases s)
  case DriveIdle
  from idle_transit [OF assms(1) assms(2) [unfolded DriveIdle]] show ?thesis by (simp add: DriveIdle)
next
  case (Claiming qs)
  from claiming_transit [OF assms(1) idle_transit [OF assms(1)] assms(2) [unfolded Claiming]]
  show ?thesis by (simp add: Claiming)
next
  case (Sending ts)
  from sending_transit [OF assms(1) idle_transit [OF assms(1)] assms(2) [unfolded Sending]]
  show ?thesis by (simp add: Sending)
next
  case (Flushing q ts)
  have "drive_poll env conv ops n m s reg w = drive_poll env conv ops n m (Sending ts) reg w \<or>
      drive_poll env conv ops n m s reg w = (s, reg, w)"
    unfolding Flushing drive_poll_Flushing by (simp split: option.split)
  then show ?thesis
  proof
    assume "drive_poll env conv ops n m s reg w = (s, reg, w)"
    with assms(2) show ?thesis by (simp add: transit_step_refl)
  next
    assume "drive_poll env conv ops n m s reg w = drive_poll env conv ops n m (Sending ts) reg w"
    with assms(2) have "drive_poll env conv ops n m (Sending ts) reg w = (s', reg', w')" by simp
    from sending_transit [OF assms(1) idle_transit [OF assms(1)] this] show ?thesis unfolding Flushing by (rule transit_step_same) (simp_all add: in_transit_def)
  qed
qed

section \<open>Where the driver waits\<close>

definition stalled_on :: "'c channel_ops \<Rightarrow> 'c registry \<Rightarrow> drive_state \<Rightarrow> string \<Rightarrow> bool" where
  "stalled_on ops reg s q \<longleftrightarrow>
     (\<exists>c. map_of reg q = Some c \<and>
        ((\<exists>t ts. s = Sending (t # ts) \<and> task_queue t = Some q \<and> ch_ready ops c = PollPending) \<or>
         (\<exists>ts. s = Flushing q ts \<and> \<not> ch_flushed ops c)))"

lemma stalled_stays:
  "stalled_on ops reg s q \<Longrightarrow> drive_poll env conv ops n m s reg w = (s, reg, w)"
  by (auto simp: stalled_on_def drive_poll_unfold)

lemma flushing_step:
  "drive_poll env conv ops n m (Flushing q ts) reg w = drive_poll env conv ops n m (Sending ts) reg w \<or>
    drive_poll env conv ops n m (Flushing q ts) reg w = (Flushing q ts, reg, w) \<and>
    stalled_on ops reg (Flushing q ts) q"
  by (auto simp: drive_poll_Flushing stalled_on_def split: option.splits)

lemma sending_step:
  obtains (sent) reg1 where
      "drive_poll env conv ops n m (Sending (t # ts)) reg w = drive_poll env conv ops n m (Sending ts) reg1 w"
  | (stalled) s1 reg1 q where "drive_poll env conv ops n m (Sending (t # ts)) reg w = (s1, reg1, w)"
      "stalled_on ops reg1 s1 q"
proof (cases "task_queue t")
  case None
  then show ?thesis using that(1) [of reg] by (simp add: drive_poll_Sending_Cons)
next
  case (Some q)
  show ?thesis
  proof (cases "map_of reg q")
    case None
    with Some show ?thesis using that(1) [of reg] by (simp add: drive_poll_Sending_Cons)
  next
    case c: (Some c)
    show ?thesis
    proof (cases "ch_ready ops c")
      case PollPending
      then have "stalled_on ops reg (Sending (t # ts)) q" using Some c by (simp add: stalled_on_def)
      from that(2) [OF stalled_stays [OF this] this] show ?thesis .
    next
      case (PollReady b)
      note poll = drive_poll_Sending_Cons [of env conv ops n m t ts reg w] Some c PollReady
      show ?thesis
      proof (cases b)
        case True
        with poll have "drive_poll env conv ops n m (Sending (t # ts)) reg w =
            drive_poll env conv ops n m (Flushing q ts) (upd_channel q (ch_start ops t) reg) w" by simp
        with flushing_step [of env conv ops n m q ts "upd_channel q (ch_start ops t) reg" w]
        show ?thesis using that by (elim disjE) auto
      next
        case False
        with poll show ?thesis using that(1) [of reg] by simp
      qed
    qed
  qed
qed

lemma sending_stalls:
  assumes idle: "\<And>reg. drive_poll env conv ops n m DriveIdle reg w = (s', reg', w') \<Longrightarrow>
    \<exists>q. stalled_on ops reg' s' q"
  shows "drive_poll env conv ops n m (Sending ts) reg w = (s', reg', w') \<Longrightarrow>
    \<exists>q. stalled_on ops reg' s' q"
proof (induction ts arbitrary: reg)
  case (Cons t ts)
  show ?case
    by (rule sending_step [of env conv ops n m t ts reg w]) (use Cons in auto)
qed (simp add: idle)

lemma claiming_stalls:
  assumes idle: "\<And>m reg w. drive_poll env conv ops n m DriveIdle reg w = (s', reg', w') \<Longrightarrow>
      \<exists>q. stalled_on ops reg' s' q"
    and "holds_registry s'" and poll: "drive_poll env conv ops n m (Claiming qs) reg w = (s', reg', w')"
  shows "\<exists>q. stalled_on ops reg' s' q"
proof (cases m)
  case 0
  with assms show ?thesis by auto
next
  case (Suc m')
  obtain r w1 where f: "fetch_next_shared env conv qs (as_i64 (int (max 10 (length qs)))) w = (r, w1)" by fastforce
  have "drive_poll env conv ops n m' (Sending (batch r)) reg w1 = (s', reg', w')"
    using poll unfolding Suc drive_poll_Claiming_Suc [OF f] .
  from sending_stalls [OF idle this] show ?thesis .
qed

lemma idle_stalls:
  assumes "holds_registry s'"
  shows "drive_poll env conv ops n m DriveIdle reg w = (s', reg', w') \<Longrightarrow> \<exists>q. stalled_on ops reg' s' q"
proof (induction n arbitrary: m reg w)
  case 0
  with assms show ?case by auto
next
  case (Suc n)
  show ?case
  proof (cases "reg = []")
    case True
    with Suc show ?thesis by (simp add: drive_poll_idle_Suc)
  next
    case False
    with Suc.prems have "drive_poll env conv ops n m (Claiming (map fst reg)) reg w = (s', reg', w')"
      by (simp add: drive_poll_idle_Suc)
    from claiming_stalls [OF Suc.IH assms this] show ?thesis .
  qed
qed

lemma drive_poll_stalls:
  assumes "drive_poll env conv ops n m s reg w = (s', reg', w')" and "holds_registry s'"
  shows "\<exists>q. stalled_on ops reg' s' q"
proof -
  note idle = idle_stalls [OF assms(2)]
  have sending: "\<exists>q. stalled_on ops reg' s' q"
    if "drive_poll env conv ops n m (Sending ts) reg w = (s', reg', w')" for ts
    using that by (rule sending_stalls [rotated]) (rule idle)
  show ?thesis
  proof (cases s)
    case DriveIdle
    from idle [OF assms(1) [unfolded DriveIdle]] show ?thesis .
  next
    case (Claiming qs)
    from claiming_stalls [OF idle assms(2) assms(1) [unfolded Claiming]] show ?thesis .
  next
    case (Sending ts)
    from sending [OF assms(1) [unfolded Sending]] show ?thesis .
  next
    case (Flushing q ts)
    from flushing_step [of env conv ops n m q ts reg w] assms(1) sending [of ts]
    show ?thesis by (auto simp: Flushing)
  qed
qed

section \<open>A poll that runs to its end\<close>

text \<open>
  When a poll of the driver ends idle, every send was complete at once, and the poll did what the
  plain loop of theory Shared does with the channels as they were found: a message goes in when
  the channel is ready for it, and is dropped when its receiver is gone.
\<close>

definition deliver :: "'c channel_ops \<Rightarrow> compact_task \<Rightarrow> 'c \<Rightarrow> 'c" where
  "deliver ops t c = (if ch_ready ops c = PollReady True then ch_start ops t c else c)"

lemma route_simps:
  "route send (t # ts) reg =
     (case task_queue t of
        None \<Rightarrow> route send ts reg
      | Some q \<Rightarrow>
          (case map_of reg q of None \<Rightarrow> route send ts reg
           | Some _ \<Rightarrow> route send ts (upd_channel q (send t) reg)))"
  by (simp add: upd_channel_def split: option.splits)

lemma upd_channel_id: "(\<And>c. (q, c) \<in> set reg \<Longrightarrow> f c = c) \<Longrightarrow> upd_channel q f reg = reg"
  by (auto simp: upd_channel_def intro!: map_idI)

lemma upd_channel_cong: "(\<And>c. (q, c) \<in> set reg \<Longrightarrow> f c = g c) \<Longrightarrow> upd_channel q f reg = upd_channel q g reg"
  by (auto simp: upd_channel_def)

text \<open>The registry has one entry for each queue.\<close>

lemma map_of_unique: "distinct (map fst reg) \<Longrightarrow> map_of reg q = Some c \<Longrightarrow> (q, c') \<in> set reg \<Longrightarrow> c' = c"
  by (metis map_of_eq_Some_iff option.inject)

lemma sending_routes:
  "drive_poll env conv ops n m (Sending ts) reg w = (DriveIdle, reg', w') \<Longrightarrow> distinct (map fst reg) \<Longrightarrow>
    drive_poll env conv ops n m DriveIdle (route (deliver ops) ts reg) w = (DriveIdle, reg', w')"
proof (induction ts arbitrary: reg)
  case (Cons t ts)
  note step = Cons.prems(1) [unfolded drive_poll_Sending_Cons]
  have skip: ?case if "drive_poll env conv ops n m (Sending ts) reg w = (DriveIdle, reg', w')"
    "route (deliver ops) (t # ts) reg = route (deliver ops) ts reg"
    using Cons.IH [OF that(1) Cons.prems(2)] that(2) by simp
  show ?case
  proof (cases "task_queue t")
    case None
    with step skip show ?thesis by (simp add: route_simps)
  next
    case q: (Some q)
    show ?thesis
    proof (cases "map_of reg q")
      case None
      with step q skip show ?thesis by (simp add: route_simps del: route.simps)
    next
      case (Some c)
      have only: "\<And>c'. (q, c') \<in> set reg \<Longrightarrow> c' = c" by (rule map_of_unique [OF Cons.prems(2) Some])
      show ?thesis
      proof (cases "ch_ready ops c")
        case PollPending
        with step q Some show ?thesis by simp
      next
        case (PollReady b)
        show ?thesis
        proof (cases b)
          case False
          have "upd_channel q (deliver ops t) reg = reg"
            by (rule upd_channel_id) (auto dest!: only simp: deliver_def PollReady False)
          with step q Some PollReady False skip show ?thesis by (simp add: route_simps del: route.simps)
        next
          case True
          let ?reg = "upd_channel q (ch_start ops t) reg"
          have "upd_channel q (deliver ops t) reg = ?reg"
            by (rule upd_channel_cong) (auto dest!: only simp: deliver_def PollReady True)
          then have r: "route (deliver ops) (t # ts) reg = route (deliver ops) ts ?reg"
            by (simp add: route_simps q Some del: route.simps)
          from step q Some PollReady True have "drive_poll env conv ops n m (Flushing q ts) ?reg w = (DriveIdle, reg', w')"
            by simp
          with flushing_step [of env conv ops n m q ts ?reg w]
          have "drive_poll env conv ops n m (Sending ts) ?reg w = (DriveIdle, reg', w')" by auto
          from Cons.IH [OF this] Cons.prems(2) r show ?thesis by simp
        qed
      qed
    qed
  qed
qed simp

lemma finished_poll_routes:
  "drive_poll env conv ops n m DriveIdle reg w = (DriveIdle, reg', w') \<Longrightarrow> distinct (map fst reg) \<Longrightarrow>
    drive_registry env conv (deliver ops) n reg w = (reg', w')"
proof (induction n arbitrary: m reg w)
  case (Suc n)
  show ?case
  proof (cases "reg = []")
    case True
    with Suc show ?thesis by (simp add: drive_poll_idle_Suc drive_wake_def)
  next
    case False
    with Suc.prems(1) have claim: "drive_poll env conv ops n m (Claiming (map fst reg)) reg w = (DriveIdle, reg', w')"
      by (simp add: drive_poll_idle_Suc)
    obtain r w1 where f: "fetch_next_shared env conv (map fst reg) (as_i64 (int (max 10 (length (map fst reg))))) w =
        (r, w1)" by fastforce
    from claim obtain m' where "drive_poll env conv ops n m' (Sending (batch r)) reg w1 = (DriveIdle, reg', w')"
      by (cases m) (simp_all add: drive_poll_Claiming_Suc [OF f])
    note rest = sending_routes [OF this Suc.prems(2)]
    have "distinct (map fst (route (deliver ops) (batch r) reg))"
      using Suc.prems(2) by (simp add: map_fst_route)
    from Suc.IH [OF rest this] f False show ?thesis
      by (cases r) (simp_all add: drive_wake_def Let_def)
  qed
qed simp

section \<open>Bounded channels that are read\<close>

text \<open>
  The documented bound: a channel of capacity \<open>cap\<close> (the buffer size it was made with) accepts
  what it is given, and a sender is ready and flushed when at most \<open>cap\<close> messages are in it, so
  that it holds \<open>cap\<close> messages and one more for the sender.
\<close>

definition bounded_fifo :: "('c \<Rightarrow> compact_task list) \<Rightarrow> ('c \<Rightarrow> nat) \<Rightarrow> 'c channel_ops \<Rightarrow> bool" where
  "bounded_fifo contents cap ops \<longleftrightarrow>
     open_fifo contents ops \<and>
     (\<forall>c t. cap (ch_start ops t c) = cap c \<and> cap (snd (ch_recv ops c)) = cap c) \<and>
     (\<forall>c. ch_ready ops c = (if length (contents c) \<le> cap c then PollReady True else PollPending)) \<and>
     (\<forall>c. ch_flushed ops c \<longleftrightarrow> length (contents c) \<le> cap c)"

definition within :: "nat \<Rightarrow> ('c \<Rightarrow> compact_task list) \<Rightarrow> ('c \<Rightarrow> nat) \<Rightarrow> 'c registry \<Rightarrow> bool" where
  "within extra contents cap reg \<longleftrightarrow> (\<forall>c \<in> snd ` set reg. length (contents c) \<le> cap c + extra)"

lemma map_of_within:
  "within extra contents cap reg \<Longrightarrow> map_of reg q = Some c \<Longrightarrow> length (contents c) \<le> cap c + extra"
  by (auto simp: within_def dest!: map_of_SomeD)

lemma sent_within:
  assumes "bounded_fifo contents cap ops" and "within 1 contents cap reg"
    and "map_of reg q = Some c" and "ch_ready ops c = PollReady b" and "distinct (map fst reg)"
  shows "within 1 contents cap (upd_channel q (ch_start ops t) reg)"
proof -
  have len: "length (contents c) \<le> cap c"
    using assms(1,4) by (auto simp: bounded_fifo_def split: if_splits)
  have eq: "c' = c" if "(q, c') \<in> set reg" for c'
    using that assms(3,5) by (metis map_of_eq_Some_iff option.inject)
  have "contents (ch_start ops t x) = contents x @ [t]" "cap (ch_start ops t x) = cap x" for x
    using assms(1) unfolding bounded_fifo_def open_fifo_def by blast+
  moreover have "length (contents x) \<le> cap x + 1" if "(q', x) \<in> set reg" for q' x
    using assms(2) that by (force simp: within_def)
  ultimately show ?thesis
    using len eq by (fastforce simp: within_def upd_channel_def split: if_splits)
qed

text \<open>What a poll without wake-ups keeps, and how far the driver gets.\<close>

definition settles :: "('c \<Rightarrow> compact_task list) \<Rightarrow> ('c \<Rightarrow> nat) \<Rightarrow> 'c registry \<Rightarrow> nat
    \<Rightarrow> drive_state \<times> 'c registry \<times> world \<Rightarrow> world \<Rightarrow> bool" where
  "settles contents cap reg r res w \<longleftrightarrow>
     (case res of (s', reg', w') \<Rightarrow>
        w' = w \<and> map fst reg' = map fst reg \<and> within 1 contents cap reg' \<and> asked s' = [] \<and> drive_rank s' \<le> r)"

lemma settles_mono: "settles contents cap reg r res w \<Longrightarrow> r \<le> r' \<Longrightarrow> settles contents cap reg r' res w"
  by (auto simp: settles_def)

lemma flushing_settles:
  assumes "within 1 contents cap reg"
    and "settles contents cap reg (2 * length ts + 1) (drive_poll env conv ops 0 m (Sending ts) reg w) w"
  shows "settles contents cap reg (2 * length ts + 2) (drive_poll env conv ops 0 m (Flushing q ts) reg w) w"
  using flushing_step [of env conv ops 0 m q ts reg w]
proof
  assume "drive_poll env conv ops 0 m (Flushing q ts) reg w = drive_poll env conv ops 0 m (Sending ts) reg w"
  with settles_mono [OF assms(2), of "2 * length ts + 2"] show ?thesis by simp
qed (use assms(1) in \<open>simp add: settles_def\<close>)

lemma sending_settles:
  assumes "bounded_fifo contents cap ops"
  shows "within 1 contents cap reg \<Longrightarrow> distinct (map fst reg) \<Longrightarrow>
    settles contents cap reg (2 * length ts + 1) (drive_poll env conv ops 0 m (Sending ts) reg w) w"
proof (induction ts arbitrary: reg)
  case Nil
  then show ?case by (simp add: settles_def)
next
  case (Cons t ts)
  have skip: "settles contents cap reg (2 * length (t # ts) + 1) (drive_poll env conv ops 0 m (Sending ts) reg w) w"
    using Cons.IH [OF Cons.prems] by (rule settles_mono) simp
  have send: "settles contents cap reg (2 * length (t # ts) + 1)
      (drive_poll env conv ops 0 m (Flushing q ts) (upd_channel q (ch_start ops t) reg) w) w"
    if "map_of reg q = Some c" "ch_ready ops c = PollReady b" for q c b
  proof -
    let ?reg = "upd_channel q (ch_start ops t) reg"
    have room: "within 1 contents cap ?reg"
      using sent_within [OF assms Cons.prems(1) that Cons.prems(2)] .
    from settles_mono [OF flushing_settles [OF room Cons.IH [OF room], where q = q]] Cons.prems(2)
    show ?thesis by (simp add: settles_def split: prod.splits)
  qed
  show ?case
    using skip send Cons.prems(1)
    by (auto simp: drive_poll_Sending_Cons settles_def split: option.split poll.split bool.split)
qed

lemma poll_settles:
  assumes "bounded_fifo contents cap ops" and "within 1 contents cap reg" and "distinct (map fst reg)"
    and "asked s = []"
  shows "settles contents cap reg (drive_rank s) (drive_poll env conv ops 0 m s reg w) w"
  using assms sending_settles [OF assms(1-3)] flushing_settles [OF assms(2)]
  by (cases s) (simp_all add: settles_def)

text \<open>Taking a message from the channel the driver waits for lets it go on.\<close>

lemma unblocked_settles:
  assumes bounded: "bounded_fifo contents cap ops" and reg: "within 1 contents cap reg" "distinct (map fst reg)"
    and "stalled_on ops reg s q" and "length (contents c) \<le> cap c" and reg1: "reg1 = upd_channel q (\<lambda>_. c) reg"
  shows "settles contents cap reg (drive_rank s - 1) (drive_poll env conv ops 0 m s reg1 w) w"
proof -
  have c: "map_of reg1 q = Some c" using assms(4) by (auto simp: stalled_on_def reg1)
  have in1: "within 1 contents cap reg1"
    using reg(1) assms(5) by (fastforce simp: within_def reg1 upd_channel_def split: if_splits)
  have dist: "distinct (map fst reg1)" and keys: "map fst reg1 = map fst reg" using reg(2) by (simp_all add: reg1)
  have room: "ch_ready ops c = PollReady True" "ch_flushed ops c"
    using bounded assms(5) by (simp_all add: bounded_fifo_def)
  from assms(4) consider t ts where "s = Sending (t # ts)" "task_queue t = Some q" | ts where "s = Flushing q ts"
    by (auto simp: stalled_on_def)
  then have "settles contents cap reg1 (drive_rank s - 1) (drive_poll env conv ops 0 m s reg1 w) w"
  proof cases
    case 1
    let ?reg = "upd_channel q (ch_start ops t) reg1"
    have "within 1 contents cap ?reg" "distinct (map fst ?reg)"
      using sent_within [OF bounded in1 c room(1) dist] dist by simp_all
    from flushing_settles [OF this(1) sending_settles [OF bounded this]] 1 c room(1) show ?thesis
      by (simp add: drive_poll_Sending_Cons settles_def)
  next
    case 2
    with sending_settles [OF bounded in1 dist] c room(2) show ?thesis
      by (simp add: drive_poll_Flushing)
  qed
  with keys show ?thesis by (simp add: settles_def)
qed

section \<open>The fetchers' polls in a row\<close>

lemma shared_next_runs:
  assumes "drive_poll env conv ops n m (sh_drive sh) (sh_registry sh) w = (s1, reg1, w1)"
    and "map_of reg1 q = Some c" and "ch_recv ops c = (p, c')"
  shows "shared_next env conv ops n m False q sh w =
    (p, sh\<lparr>sh_registry := upd_channel q (\<lambda>_. c') reg1, sh_drive := s1\<rparr>, w1)"
  using assms by (simp add: shared_next_def Let_def)

lemma shared_next_transit:
  assumes fifo: "open_fifo contents ops" and some: "map_of (sh_registry sh) q \<noteq> None"
    and poll: "shared_next env conv ops n m False q sh w = (p, sh', w')"
  shows "map fst (sh_registry sh') = map fst (sh_registry sh) \<and>
    (\<exists>k \<le> m. \<exists>rs. shared_fetches env conv
         (take k (asked (sh_drive sh) @ replicate n (map fst (sh_registry sh)))) w = (rs, w') \<and>
       (\<forall>x. map_option (\<lambda>ts. (if x = q then received p else []) @ ts)
            (in_transit contents (sh_registry sh') (sh_drive sh') x) =
          map_option (\<lambda>ts. ts @ of_queue x (concat (map batch rs)))
            (in_transit contents (sh_registry sh) (sh_drive sh) x)))"
proof -
  obtain s1 reg1 w1 where d: "drive_poll env conv ops n m (sh_drive sh) (sh_registry sh) w = (s1, reg1, w1)"
    by (metis prod_cases3)
  from drive_poll_transit [OF fifo d] obtain k rs where keys: "map fst reg1 = map fst (sh_registry sh)"
    and k: "k \<le> m" "shared_fetches env conv
      (take k (asked (sh_drive sh) @ replicate n (map fst (sh_registry sh)))) w = (rs, w1)"
    and t: "\<And>x. in_transit contents reg1 s1 x =
      map_option (\<lambda>ts. ts @ of_queue x (concat (map batch rs))) (in_transit contents (sh_registry sh) (sh_drive sh) x)"
    unfolding transit_step_def by blast
  obtain c where c: "map_of reg1 q = Some c"
    using some keys by (metis map_of_eq_None_iff list.set_map not_Some_eq)
  obtain r c' where r: "ch_recv ops c = (r, c')" by fastforce
  have sh': "p = r" "sh_drive sh' = s1" "sh_registry sh' = upd_channel q (\<lambda>_. c') reg1" "w' = w1"
    using poll shared_next_runs [OF d c r] by auto
  have "r = (case contents c of [] \<Rightarrow> PollPending | t # ts \<Rightarrow> PollReady (Some t))" "contents c' = tl (contents c)"
    using fifo r unfolding open_fifo_def by (metis fst_conv, metis snd_conv)
  then have "received p @ contents c' = contents c"
    by (cases "contents c") (simp_all add: sh')
  then have "map_option (\<lambda>ts. (if x = q then received p else []) @ ts)
      (in_transit contents (sh_registry sh') (sh_drive sh') x) = in_transit contents reg1 s1 x" for x
    using c by (cases "x = q") (simp_all add: in_transit_def sh' option.map_comp o_def option.map_ident)
  with t k keys sh' show ?thesis by auto
qed

text \<open>
  Polls of the fetchers of these queues, one after the other, while no wake-up arrives; every
  task handed out is listed with the queue whose fetcher handed it out.
\<close>

fun fetcher_polls ::
  "env \<Rightarrow> row_conv \<Rightarrow> 'c channel_ops \<Rightarrow> string list \<Rightarrow> 'c shared_storage \<Rightarrow> world
    \<Rightarrow> (string \<times> compact_task) list \<times> 'c shared_storage \<times> world" where
  "fetcher_polls env conv ops [] sh w = ([], sh, w)"
| "fetcher_polls env conv ops (q # qs) sh w =
     (case shared_next env conv ops 0 0 False q sh w of
        (p, sh1, w1) \<Rightarrow>
          (case fetcher_polls env conv ops qs sh1 w1 of
             (rs, r) \<Rightarrow> (map (Pair q) (received p) @ rs, r)))"

definition handed :: "string \<Rightarrow> (string \<times> compact_task) list \<Rightarrow> compact_task list" where
  "handed q rs = map snd (filter (\<lambda>r. fst r = q) rs)"

lemma handed_simps [simp]:
  "handed q [] = []" "handed q (rs @ rs') = handed q rs @ handed q rs'"
  "handed q (map (Pair x) ts) = (if x = q then ts else [])"
  by (simp_all add: handed_def filter_map o_def)

lemma fetcher_polls_append:
  "fetcher_polls env conv ops (qs @ qs') sh w =
     (case fetcher_polls env conv ops qs sh w of
        (rs, sh1, w1) \<Rightarrow> (case fetcher_polls env conv ops qs' sh1 w1 of (rs', r) \<Rightarrow> (rs @ rs', r)))"
  by (induction qs arbitrary: sh w) (auto split: prod.split)

lemma fetcher_polls_transit:
  assumes "open_fifo contents ops"
  shows "fetcher_polls env conv ops qs sh w = (rs, sh', w') \<Longrightarrow> set qs \<subseteq> set (map fst (sh_registry sh)) \<Longrightarrow>
    map fst (sh_registry sh') = map fst (sh_registry sh) \<and> w' = w \<and>
    (\<forall>x. map_option (\<lambda>ts. handed x rs @ ts) (in_transit contents (sh_registry sh') (sh_drive sh') x) =
      in_transit contents (sh_registry sh) (sh_drive sh) x)"
proof (induction qs arbitrary: sh w rs)
  case Nil
  then show ?case by (simp add: option.map_ident)
next
  case (Cons q qs)
  obtain p sh1 w1 where p: "shared_next env conv ops 0 0 False q sh w = (p, sh1, w1)" by (metis prod_cases3)
  obtain rs1 where rest: "fetcher_polls env conv ops qs sh1 w1 = (rs1, sh', w')"
    "rs = map (Pair q) (received p) @ rs1"
    using Cons.prems(1) p by (auto split: prod.splits)
  have "map_of (sh_registry sh) q \<noteq> None" using Cons.prems(2) by (auto simp: map_of_eq_None_iff)
  from shared_next_transit [OF assms this p]
  have keys: "map fst (sh_registry sh1) = map fst (sh_registry sh)" and "w1 = w"
    and t: "\<And>x. map_option (\<lambda>ts. (if x = q then received p else []) @ ts)
        (in_transit contents (sh_registry sh1) (sh_drive sh1) x) = in_transit contents (sh_registry sh) (sh_drive sh) x"
    by (auto simp: option.map_ident)
  from Cons.IH [OF rest(1)] Cons.prems(2) keys
  have ih: "map fst (sh_registry sh') = map fst (sh_registry sh)" "w' = w"
    "\<And>x. map_option (\<lambda>ts. handed x rs1 @ ts) (in_transit contents (sh_registry sh') (sh_drive sh') x) =
      in_transit contents (sh_registry sh1) (sh_drive sh1) x"
    by (simp_all add: \<open>w1 = w\<close>)
  have "map_option (\<lambda>ts. handed x rs @ ts) (in_transit contents (sh_registry sh') (sh_drive sh') x) =
      in_transit contents (sh_registry sh) (sh_drive sh) x" for x
    unfolding t [of x, symmetric] ih(3) [of x, symmetric] by (simp add: rest(2) option.map_comp o_def)
  with ih show ?case by simp
qed

text \<open>Where the next poll of the driver takes it, and how far that is from the end.\<close>

definition settled :: "env \<Rightarrow> row_conv \<Rightarrow> 'c channel_ops \<Rightarrow> 'c shared_storage \<Rightarrow> world
    \<Rightarrow> drive_state \<times> 'c registry \<times> world" where
  "settled env conv ops sh w = drive_poll env conv ops 0 0 (sh_drive sh) (sh_registry sh) w"

definition waits_on :: "env \<Rightarrow> row_conv \<Rightarrow> 'c channel_ops \<Rightarrow> 'c shared_storage \<Rightarrow> world \<Rightarrow> string \<Rightarrow> bool" where
  "waits_on env conv ops sh w q \<longleftrightarrow>
     stalled_on ops (fst (snd (settled env conv ops sh w))) (fst (settled env conv ops sh w)) q"

definition rank_of :: "env \<Rightarrow> row_conv \<Rightarrow> 'c channel_ops \<Rightarrow> 'c shared_storage \<Rightarrow> world \<Rightarrow> nat" where
  "rank_of env conv ops sh w = drive_rank (fst (settled env conv ops sh w))"

definition regular :: "('c \<Rightarrow> compact_task list) \<Rightarrow> ('c \<Rightarrow> nat) \<Rightarrow> 'c shared_storage \<Rightarrow> bool" where
  "regular contents cap sh \<longleftrightarrow>
     within 1 contents cap (sh_registry sh) \<and> distinct (map fst (sh_registry sh)) \<and> asked (sh_drive sh) = []"

lemma shared_next_ranks:
  assumes bounded: "bounded_fifo contents cap ops" and "regular contents cap sh"
    and "q \<in> set (map fst (sh_registry sh))" and poll: "shared_next env conv ops 0 0 False q sh w = (p, sh', w')"
  shows "w' = w \<and> regular contents cap sh' \<and> map fst (sh_registry sh') = map fst (sh_registry sh) \<and>
    drive_rank (sh_drive sh') \<le> rank_of env conv ops sh w \<and>
    rank_of env conv ops sh' w \<le> rank_of env conv ops sh w \<and>
    (\<forall>x. waits_on env conv ops sh w x \<longrightarrow>
      (if x = q then rank_of env conv ops sh' w < rank_of env conv ops sh w else waits_on env conv ops sh' w x))"
proof -
  have sh: "within 1 contents cap (sh_registry sh)" "distinct (map fst (sh_registry sh))" "asked (sh_drive sh) = []"
    using assms(2) by (simp_all add: regular_def)
  obtain s1 reg1 w1 where d: "drive_poll env conv ops 0 0 (sh_drive sh) (sh_registry sh) w = (s1, reg1, w1)"
    by (metis prod_cases3)
  from poll_settles [OF bounded sh, of env conv 0 w] have s1: "w1 = w" "map fst reg1 = map fst (sh_registry sh)"
    "within 1 contents cap reg1" "asked s1 = []"
    unfolding d by (simp_all add: settles_def)
  have dist: "distinct (map fst reg1)" using sh(2) s1(2) by simp
  obtain c where c: "map_of reg1 q = Some c"
    using assms(3) s1(2) by (metis map_of_eq_None_iff list.set_map not_Some_eq)
  obtain r c' where r: "ch_recv ops c = (r, c')" by fastforce
  let ?reg = "upd_channel q (\<lambda>_. c') reg1"
  have sh': "sh_drive sh' = s1" "sh_registry sh' = ?reg" "w' = w"
    using poll shared_next_runs [OF d c r] s1(1) by auto
  have "contents c' = tl (contents c)" "cap c' = cap c"
    using bounded r unfolding bounded_fifo_def open_fifo_def by (metis snd_conv, metis snd_conv)
  then have room: "length (contents c') \<le> cap c'" using map_of_within [OF s1(3) c] by simp
  then have in1: "within 1 contents cap ?reg"
    using s1(3) by (fastforce simp: within_def upd_channel_def split: if_splits)
  have reg': "regular contents cap sh'" using in1 dist s1(4) by (simp add: regular_def sh')
  have w: "settled env conv ops sh w = (s1, reg1, w)" by (simp add: settled_def d s1(1))
  have w': "settled env conv ops sh' w = drive_poll env conv ops 0 0 s1 ?reg w" by (simp add: settled_def sh')
  from poll_settles [OF bounded in1 _ s1(4), of env conv 0 w] dist
  have "rank_of env conv ops sh' w \<le> rank_of env conv ops sh w"
    by (auto simp: rank_of_def w w' settles_def split: prod.splits)
  moreover have "rank_of env conv ops sh' w < rank_of env conv ops sh w" if "waits_on env conv ops sh w q"
  proof -
    have st: "stalled_on ops reg1 s1 q" using that by (simp add: waits_on_def w)
    then have "0 < drive_rank s1" by (auto simp: stalled_on_def)
    with unblocked_settles [OF bounded s1(3) dist st room refl, of env conv 0 w] show ?thesis
      by (auto simp: rank_of_def w w' settles_def split: prod.splits)
  qed
  moreover have "waits_on env conv ops sh' w x" if "waits_on env conv ops sh w x" "x \<noteq> q" for x
  proof -
    have "stalled_on ops ?reg s1 x" using that by (auto simp: waits_on_def w stalled_on_def)
    with stalled_stays [OF this] show ?thesis by (simp add: waits_on_def w')
  qed
  moreover have "drive_rank (sh_drive sh') = rank_of env conv ops sh w" by (simp add: sh' rank_of_def w)
  ultimately show ?thesis using reg' s1(2) by (auto simp: sh')
qed

lemma fetcher_polls_rank:
  assumes bounded: "bounded_fifo contents cap ops"
  shows "regular contents cap sh \<Longrightarrow> set qs \<subseteq> set (map fst (sh_registry sh)) \<Longrightarrow>
    fetcher_polls env conv ops qs sh w = (rs, sh', w') \<Longrightarrow>
    regular contents cap sh' \<and> w' = w \<and> map fst (sh_registry sh') = map fst (sh_registry sh) \<and>
    rank_of env conv ops sh' w \<le> rank_of env conv ops sh w \<and>
    (qs \<noteq> [] \<longrightarrow> drive_rank (sh_drive sh') \<le> rank_of env conv ops sh w) \<and>
    (\<forall>x \<in> set qs. waits_on env conv ops sh w x \<longrightarrow> rank_of env conv ops sh' w < rank_of env conv ops sh w)"
proof (induction qs arbitrary: sh rs)
  case (Cons q qs)
  obtain p sh1 w1 where p: "shared_next env conv ops 0 0 False q sh w = (p, sh1, w1)" by (metis prod_cases3)
  have q: "q \<in> set (map fst (sh_registry sh))" using Cons.prems(2) by simp
  note one = shared_next_ranks [OF bounded Cons.prems(1) q p]
  then have keys: "map fst (sh_registry sh1) = map fst (sh_registry sh)" and "w1 = w"
    and reg: "regular contents cap sh1"
    and le: "drive_rank (sh_drive sh1) \<le> rank_of env conv ops sh w"
      "rank_of env conv ops sh1 w \<le> rank_of env conv ops sh w"
    and wait: "\<And>x. waits_on env conv ops sh w x \<Longrightarrow>
      if x = q then rank_of env conv ops sh1 w < rank_of env conv ops sh w else waits_on env conv ops sh1 w x"
    by simp_all
  obtain rs1 where rest: "fetcher_polls env conv ops qs sh1 w = (rs1, sh', w')"
    using Cons.prems(3) p \<open>w1 = w\<close> by (auto split: prod.splits)
  have "set qs \<subseteq> set (map fst (sh_registry sh1))" using Cons.prems(2) by (simp add: keys del: set_map)
  note ih = Cons.IH [OF reg this rest]
  have mono: "rank_of env conv ops sh' w \<le> rank_of env conv ops sh w" using ih le(2) by simp
  have "rank_of env conv ops sh' w < rank_of env conv ops sh w" if x: "x \<in> set (q # qs)" "waits_on env conv ops sh w x" for x
  proof (cases "x = q")
    case True
    with wait [OF x(2)] have "rank_of env conv ops sh1 w < rank_of env conv ops sh w" by simp
    moreover have "rank_of env conv ops sh' w \<le> rank_of env conv ops sh1 w" using ih by blast
    ultimately show ?thesis by simp
  next
    case False
    with wait [OF x(2)] x(1) have "waits_on env conv ops sh1 w x" "x \<in> set qs" by simp_all
    with ih have "rank_of env conv ops sh' w < rank_of env conv ops sh1 w" by blast
    with le(2) show ?thesis by simp
  qed
  moreover have "drive_rank (sh_drive sh') \<le> rank_of env conv ops sh w"
  proof (cases "qs = []")
    case True
    with rest le(1) show ?thesis by simp
  next
    case False
    with ih have "drive_rank (sh_drive sh') \<le> rank_of env conv ops sh1 w" by blast
    with le(2) show ?thesis by simp
  qed
  moreover have "map fst (sh_registry sh') = map fst (sh_registry sh)" using ih keys by simp
  ultimately show ?case using ih mono by blast
qed simp

text \<open>A round polls every queue's fetcher, in any order and possibly several times.\<close>

definition full_round :: "'c registry \<Rightarrow> string list \<Rightarrow> bool" where
  "full_round reg qs \<longleftrightarrow> set qs = set (map fst reg)"

lemma rank_waits:
  assumes bounded: "bounded_fifo contents cap ops" and sh: "regular contents cap sh"
    and "rank_of env conv ops sh w \<noteq> 0"
  shows "\<exists>x \<in> set (map fst (sh_registry sh)). waits_on env conv ops sh w x"
proof -
  obtain s1 reg1 w1 where d: "drive_poll env conv ops 0 0 (sh_drive sh) (sh_registry sh) w = (s1, reg1, w1)"
    by (metis prod_cases3)
  have keys: "map fst reg1 = map fst (sh_registry sh)"
    using poll_settles [OF bounded, of "sh_registry sh" "sh_drive sh" env conv 0 w] sh d
    by (simp add: regular_def settles_def)
  have s1: "settled env conv ops sh w = (s1, reg1, w1)" by (simp add: settled_def d)
  with assms(3) have "holds_registry s1" by (cases s1) (simp_all add: rank_of_def)
  from drive_poll_stalls [OF d this] obtain q where q: "stalled_on ops reg1 s1 q" by blast
  then have "q \<in> set (map fst reg1)" by (auto simp: stalled_on_def dest!: map_of_SomeD intro: rev_image_eqI)
  with q show ?thesis by (auto simp: waits_on_def s1 keys simp del: set_map)
qed

lemma round_ranks:
  assumes bounded: "bounded_fifo contents cap ops" and sh: "regular contents cap sh"
    and "full_round (sh_registry sh) qs" and polls: "fetcher_polls env conv ops qs sh w = (rs, sh', w')"
  shows "regular contents cap sh' \<and> w' = w \<and> map fst (sh_registry sh') = map fst (sh_registry sh) \<and>
    rank_of env conv ops sh' w \<le> rank_of env conv ops sh w - 1 \<and>
    (qs \<noteq> [] \<longrightarrow> drive_rank (sh_drive sh') \<le> rank_of env conv ops sh w)"
proof -
  have qs: "set qs = set (map fst (sh_registry sh))" using assms(3) by (simp add: full_round_def)
  note r = fetcher_polls_rank [OF bounded sh _ polls] qs
  have "rank_of env conv ops sh' w \<le> rank_of env conv ops sh w - 1"
  proof (cases "rank_of env conv ops sh w = 0")
    case True
    with r show ?thesis by simp
  next
    case False
    from rank_waits [OF bounded sh False] r have "rank_of env conv ops sh' w < rank_of env conv ops sh w" by blast
    then show ?thesis by simp
  qed
  with r show ?thesis by simp
qed

lemma rounds_rank:
  assumes bounded: "bounded_fifo contents cap ops"
  shows "regular contents cap sh \<Longrightarrow> sh_registry sh \<noteq> [] \<Longrightarrow> \<forall>r \<in> set rounds. full_round (sh_registry sh) r \<Longrightarrow>
    rank_of env conv ops sh w < length rounds \<Longrightarrow> fetcher_polls env conv ops (concat rounds) sh w = (rs, sh', w') \<Longrightarrow>
    sh_drive sh' = DriveIdle"
proof (induction rounds arbitrary: sh rs)
  case (Cons r rounds)
  obtain rs1 sh1 w1 where p: "fetcher_polls env conv ops r sh w = (rs1, sh1, w1)" by (metis prod_cases3)
  have r: "full_round (sh_registry sh) r" using Cons.prems(3) by simp
  have ne: "r \<noteq> []" using r Cons.prems(2) by (auto simp: full_round_def)
  note one = round_ranks [OF bounded Cons.prems(1) r p]
  then have keys: "map fst (sh_registry sh1) = map fst (sh_registry sh)" and "w1 = w" and reg: "regular contents cap sh1"
    and le: "rank_of env conv ops sh1 w \<le> rank_of env conv ops sh w - 1"
      "drive_rank (sh_drive sh1) \<le> rank_of env conv ops sh w"
    using ne by simp_all
  obtain rs2 where rest: "fetcher_polls env conv ops (concat rounds) sh1 w = (rs2, sh', w')"
    using Cons.prems(5) p \<open>w1 = w\<close> by (auto simp: fetcher_polls_append split: prod.splits)
  show ?case
  proof (cases rounds)
    case Nil
    with rest Cons.prems(4) le(2) have "drive_rank (sh_drive sh') = 0" "sh' = sh1" by simp_all
    with reg show ?thesis by (cases "sh_drive sh'") (simp_all add: regular_def)
  next
    case more: (Cons r' rounds')
    have "sh_registry sh1 \<noteq> []" using keys Cons.prems(2) by (metis map_is_Nil_conv)
    moreover have "\<forall>r \<in> set rounds. full_round (sh_registry sh1) r"
      using Cons.prems(3) keys by (simp add: full_round_def del: set_map)
    moreover have "rank_of env conv ops sh1 w < length rounds" using le(1) Cons.prems(4) more by simp
    ultimately show ?thesis using Cons.IH [OF reg _ _ _ rest] by blast
  qed
qed simp

section \<open>Properties\<close>

text \<open>C26. A shared storage hands out each queue's tasks in order, none lost, duplicated or misdelivered, while the channels are open: in a poll of a queue's fetcher, however many wake-ups and replies arrive and wherever the driver stops to wait, what is handed out followed by what remains on its way for the queue is what was on its way before followed by the queue's tasks of the claims that completed in between; for every other queue only these are added, and the registered queues stay. The claims are those under way and those made in this poll: the first may be for the queues that were registered when it was sent, every other is for the queues registered now.\<close>

theorem shared_fetcher_fifo:
  assumes fifo: "open_fifo contents ops"
    and reg: "reg = sh_registry sh" "reg' = sh_registry sh'" "map_of reg q \<noteq> None"
    and poll: "shared_next env conv ops n m False q sh w = (p, sh', w')"
  shows "map fst reg' = map fst reg \<and>
    (\<exists>k \<le> m. \<exists>rs. shared_fetches env conv (take k (asked (sh_drive sh) @ replicate n (map fst reg))) w = (rs, w') \<and>
       (\<forall>x. map_option (\<lambda>ts. (if x = q then received p else []) @ ts)
            (in_transit contents reg' (sh_drive sh') x) =
          map_option (\<lambda>ts. ts @ of_queue x (concat (map batch rs)))
            (in_transit contents reg (sh_drive sh) x)))"
  unfolding reg(1,2) by (rule shared_next_transit [OF fifo reg(3) [unfolded reg(1)] poll])

text \<open>C27. One full channel stops the driver for every queue: a poll of the driver ends idle, or waiting for the reply to a claim with the registry free, or waiting for some queue's channel; and while it waits for a channel, further polls with any number of wake-ups and replies claim nothing and deliver nothing to any queue, and every attempt to register a queue is refused with RegistryLocked, because the registry lock is held across the send.\<close>

theorem full_channel_stops_driver:
  assumes "drive_poll env conv ops n m s reg w = (s', reg', w')"
  shows "s' = DriveIdle \<or> (\<exists>qs. s' = Claiming qs \<and> \<not> holds_registry s') \<or>
    (\<exists>q. stalled_on ops reg' s' q \<and> (\<forall>n m. drive_poll env conv ops n m s' reg' w' = (s', reg', w')) \<and>
      (\<forall>channel ulid cfg. make_shared_with_config channel (holds_registry s') ulid cfg reg' =
        (Inl RegistryLocked, reg')))"
proof (cases "holds_registry s'")
  case True
  from drive_poll_stalls [OF assms True] stalled_stays show ?thesis
    using True by (fastforce simp: make_shared_with_config_def)
next
  case False
  then show ?thesis by (cases s') simp_all
qed

text \<open>C28. The wait ends when the workers read, and everything held is handed over: with bounded channels, if no further wake-up arrives and every registered queue's fetcher is polled in each round, in any order, then a driver that holds claimed tasks has released the registry after more rounds than its rank, which is two for each task it holds and one or two more. It claims nothing meanwhile, and for every queue, what its fetchers handed out followed by what is left in its channel is what was in the channel followed by the queue's tasks the driver held, in this order.\<close>

theorem reading_releases_driver:
  assumes "bounded_fifo contents cap ops" and "within 1 contents cap (sh_registry sh)"
    and "distinct (map fst (sh_registry sh))" and "sh_registry sh \<noteq> []" and "holds_registry (sh_drive sh)"
    and "\<forall>r \<in> set rounds. full_round (sh_registry sh) r" and "drive_rank (sh_drive sh) < length rounds"
    and "fetcher_polls env conv ops (concat rounds) sh w = (rs, sh', w')"
  shows "sh_drive sh' = DriveIdle \<and> w' = w \<and> map fst (sh_registry sh') = map fst (sh_registry sh) \<and>
    (\<forall>q c. map_of (sh_registry sh) q = Some c \<longrightarrow>
      (\<exists>c'. map_of (sh_registry sh') q = Some c' \<and>
        handed q rs @ contents c' = contents c @ of_queue q (held (sh_drive sh))))"
proof -
  have reg: "regular contents cap sh" using assms(2,3,5) by (cases "sh_drive sh") (simp_all add: regular_def)
  have "rank_of env conv ops sh w \<le> drive_rank (sh_drive sh)"
    using poll_settles [OF assms(1-3), of "sh_drive sh" env conv 0 w] reg
    by (auto simp: rank_of_def settled_def settles_def regular_def split: prod.splits)
  with assms(7) have "rank_of env conv ops sh w < length rounds" by simp
  from rounds_rank [OF assms(1) reg assms(4,6) this assms(8)] have idle: "sh_drive sh' = DriveIdle" .
  have fifo: "open_fifo contents ops" using assms(1) by (simp add: bounded_fifo_def)
  have "set (concat rounds) \<subseteq> set (map fst (sh_registry sh))"
    using assms(6) by (auto simp: full_round_def simp del: set_map)
  note transit = fetcher_polls_transit [OF fifo assms(8) this]
  have "\<exists>c'. map_of (sh_registry sh') q = Some c' \<and>
      handed q rs @ contents c' = contents c @ of_queue q (held (sh_drive sh))"
    if "map_of (sh_registry sh) q = Some c" for q c
    using transit [THEN conjunct2, THEN conjunct2, THEN spec, of q] that by (auto simp: in_transit_def idle)
  with idle transit show ?thesis by blast
qed

text \<open>C29. A queue can be registered while the driver waits for the reply to a claim: the registry is free then. The reply may be for tasks of the queues that were registered when the claim was sent, and for no others: each of these queues gets its own tasks of the claim, in order, and nothing is on its way to the new queue before a further wake-up.\<close>

theorem registered_while_claiming:
  assumes "open_fifo contents ops" and "env_keeps db_inv env" and "db_inv (store w)"
    and conv: "\<forall>tr t. conv tr = Inr t \<longrightarrow> task_queue t = Some (tr_job_type tr)"
    and new: "cfg_queue cfg \<notin> set (map fst reg)" "contents (channel (cfg_buffer_size cfg)) = []"
    and made: "make_shared_with_config channel (holds_registry (Claiming (map fst reg))) ulid cfg reg = (res, reg1)"
    and poll: "drive_poll env conv ops 0 m (Claiming (map fst reg)) reg1 w = (s', reg', w')"
  shows "(\<exists>st. res = Inr st \<and> st_fetcher st = cfg_queue cfg) \<and>
    in_transit contents reg' s' (cfg_queue cfg) = Some [] \<and>
    (\<exists>k \<le> m. \<exists>rs. shared_fetches env conv (take k [map fst reg]) w = (rs, w') \<and>
      (\<forall>q c. map_of reg q = Some c \<longrightarrow>
        in_transit contents reg' s' q = Some (contents c @ of_queue q (concat (map batch rs)))))"
proof -
  let ?q = "cfg_queue cfg" and ?qs = "map fst reg"
  have none: "map_of reg ?q = None" using new(1) by (simp add: map_of_eq_None_iff)
  with made have reg1: "reg1 = reg @ [(?q, channel (cfg_buffer_size cfg))]"
    and res: "\<exists>st. res = Inr st \<and> st_fetcher st = ?q"
    by (auto simp: make_shared_with_config_def)
  from drive_poll_transit [OF assms(1) poll] obtain k rs where k: "k \<le> m"
    "shared_fetches env conv (take k [?qs]) w = (rs, w')"
    and t: "\<And>x. in_transit contents reg' s' x =
      map_option (\<lambda>ts. ts @ of_queue x (concat (map batch rs))) (in_transit contents reg1 (Claiming ?qs) x)"
    unfolding transit_step_def by auto
  have "\<exists>x \<in> set ?qs. task_queue task = Some x" if "task \<in> set (concat (map batch rs))" for task
  proof -
    obtain r w1 where f: "fetch_next_shared env conv ?qs (as_i64 (int (max 10 (length ?qs)))) w = (r, w1)"
      by fastforce
    with k(2) that have "task \<in> set (batch r)" by (cases k) auto
    then obtain tasks where "r = Inr tasks" "task \<in> set tasks" by (cases r) auto
    from shared_claim_queues [OF assms(2,3) conv f [unfolded this(1)] this(2)] show ?thesis .
  qed
  with new(1) have "of_queue ?q (concat (map batch rs)) = []" unfolding of_queue_def filter_empty_conv by force
  then have "in_transit contents reg' s' ?q = Some []"
    unfolding t by (simp add: in_transit_def reg1 none new(2) map_add_def)
  moreover have "in_transit contents reg' s' x = Some (contents c @ of_queue x (concat (map batch rs)))"
    if "map_of reg x = Some c" for x c
    unfolding t using that none by (auto simp: in_transit_def reg1 map_add_def)
  ultimately show ?thesis using res k by blast
qed

section \<open>Witnesses\<close>

text \<open>A channel as its capacity and the messages in it, and one without a bound.\<close>

definition list_ops :: "(nat \<times> compact_task list) channel_ops" where
  "list_ops =
     \<lparr>ch_ready = (\<lambda>(cap, ms). if length ms \<le> cap then PollReady True else PollPending),
      ch_start = (\<lambda>t (cap, ms). (cap, ms @ [t])),
      ch_flushed = (\<lambda>(cap, ms). length ms \<le> cap),
      ch_recv = (\<lambda>(cap, ms). case ms of [] \<Rightarrow> (PollPending, (cap, [])) | m # ms' \<Rightarrow> (PollReady (Some m), (cap, ms')))\<rparr>"

lemma bounded_list_ops: "bounded_fifo snd fst list_ops"
  by (auto simp: bounded_fifo_def open_fifo_def list_ops_def split: list.splits)

lemma open_list_ops: "open_fifo snd list_ops"
  using bounded_list_ops by (simp add: bounded_fifo_def)

definition one_channel :: "nat \<Rightarrow> compact_task list \<Rightarrow> (nat \<times> compact_task list) registry" where
  "one_channel cap ms = [(''emails'', (cap, ms))]"

lemma handed_queue: "task_queue handed_task = Some ''emails''"
  by (simp add: task_queue_def handed_task_def)

theorem shared_fetcher_fifo_witness:
  "\<exists>sh'. shared_next stormy sample_conv list_ops 0 0 False ''emails''
      \<lparr>sh_registry = one_channel 1 [], sh_drive = Sending [handed_task]\<rparr> start_world =
    (PollReady (Some handed_task), sh', start_world) \<and>
    in_transit snd (sh_registry sh') (sh_drive sh') ''emails'' = Some []"
proof -
  let ?sh = "\<lparr>sh_registry = one_channel 1 [], sh_drive = Sending [handed_task]\<rparr>"
  let ?sh' = "\<lparr>sh_registry = one_channel 1 [], sh_drive = DriveIdle\<rparr>"
  have poll: "shared_next stormy sample_conv list_ops 0 0 False ''emails'' ?sh start_world =
      (PollReady (Some handed_task), ?sh', start_world)"
    by (simp add: shared_next_def drive_poll_unfold handed_queue one_channel_def list_ops_def upd_channel_def)
  have some: "map_of (sh_registry ?sh) ''emails'' \<noteq> None" by (simp add: one_channel_def)
  from shared_fetcher_fifo [OF open_list_ops refl refl this poll] obtain k rs where k: "k \<le> 0"
    "shared_fetches stormy sample_conv (take k (asked (sh_drive ?sh) @ replicate 0 (map fst (sh_registry ?sh)))) start_world =
      (rs, start_world)"
    and all: "\<forall>x. map_option (\<lambda>ts. (if x = ''emails'' then received (PollReady (Some handed_task)) else []) @ ts)
        (in_transit snd (sh_registry ?sh') (sh_drive ?sh') x) =
      map_option (\<lambda>ts. ts @ of_queue x (concat (map batch rs)))
        (in_transit snd (sh_registry ?sh) (sh_drive ?sh) x)"
    by (elim conjE exE) blast
  from k have "rs = []" by simp
  with all [THEN spec, of "''emails''"]
  have "in_transit snd (sh_registry ?sh') (sh_drive ?sh') ''emails'' = Some []"
    by (auto simp: in_transit_def one_channel_def handed_queue)
  with poll show ?thesis by blast
qed

theorem full_channel_stops_driver_witness:
  "\<exists>q. stalled_on list_ops (one_channel 0 [handed_task]) (Sending [handed_task]) q \<and>
    fst (make_shared_with_config (\<lambda>n. (n, [])) True ''w2'' sample_config (one_channel 0 [handed_task])) =
      Inl RegistryLocked"
proof -
  have "drive_poll stormy sample_conv list_ops 3 2 (Sending [handed_task]) (one_channel 0 [handed_task]) start_world =
      (Sending [handed_task], one_channel 0 [handed_task], start_world)"
    by (simp add: drive_poll_unfold handed_queue one_channel_def list_ops_def)
  from full_channel_stops_driver [OF this] show ?thesis by auto
qed

definition second_config :: config where
  "second_config = sample_config\<lparr>cfg_queue := ''reports''\<rparr>"

lemma sample_conv_queue: "sample_conv tr = Inr t \<Longrightarrow> task_queue t = Some (tr_job_type tr)"
  by (auto simp: sample_conv_def task_queue_def split: if_splits)

theorem registered_while_claiming_witness:
  "\<exists>s' reg' w'. drive_poll (calm late) sample_conv list_ops 0 1 (Claiming [''emails''])
      [(''emails'', 1, []), (''reports'', 10, [])] two_jobs_world = (s', reg', w') \<and>
    in_transit snd reg' s' ''reports'' = Some []"
proof -
  let ?reg = "one_channel 1 []" and ?reg1 = "[(''emails'', 1, []), (''reports'', 10, [])] :: (nat \<times> compact_task list) registry"
  let ?st = "\<lparr>st_instance = ''w2'', st_config = second_config, st_sink = sink_new, st_fetcher = ''reports''\<rparr>"
  have keep: "env_keeps db_inv (calm late)" by (simp add: env_keeps_def calm_def)
  have inv: "db_inv (store two_jobs_world)"
    by (simp add: two_jobs_world_def db_inv_two_jobs)
  have conv: "\<forall>tr t. sample_conv tr = Inr t \<longrightarrow> task_queue t = Some (tr_job_type tr)"
    using sample_conv_queue by blast
  have new: "cfg_queue second_config \<notin> set (map fst ?reg)" "snd ((\<lambda>n. (n, [])) (cfg_buffer_size second_config)) = []"
    by (simp_all add: second_config_def one_channel_def)
  have made: "make_shared_with_config (\<lambda>n. (n, [])) (holds_registry (Claiming (map fst ?reg))) ''w2'' second_config ?reg =
      (Inr ?st, ?reg1)"
    by (simp add: make_shared_with_config_def second_config_def one_channel_def sample_config_def)
  obtain s' reg' w' where poll: "drive_poll (calm late) sample_conv list_ops 0 1 (Claiming (map fst ?reg)) ?reg1
      two_jobs_world = (s', reg', w')" by (metis prod_cases3)
  from registered_while_claiming [where env = "calm late" and w = two_jobs_world and conv = sample_conv,
      OF open_list_ops keep inv conv new made poll] poll
  show ?thesis by (simp add: one_channel_def second_config_def)
qed

theorem reading_releases_driver_witness:
  "\<exists>rs sh'. fetcher_polls stormy sample_conv list_ops (concat (replicate 4 [''emails'']))
      \<lparr>sh_registry = one_channel 0 [([42], failed_parts)], sh_drive = Sending [handed_task]\<rparr> start_world =
        (rs, sh', start_world) \<and>
    sh_drive sh' = DriveIdle \<and>
    (\<exists>c'. handed ''emails'' rs @ snd c' = [([42], failed_parts), handed_task])"
proof -
  let ?sh = "\<lparr>sh_registry = one_channel 0 [([42], failed_parts)], sh_drive = Sending [handed_task]\<rparr>"
  let ?rounds = "replicate 4 [''emails'']"
  have sh: "within 1 snd fst (sh_registry ?sh)" "distinct (map fst (sh_registry ?sh))" "sh_registry ?sh \<noteq> []"
    "holds_registry (sh_drive ?sh)" "\<forall>r \<in> set ?rounds. full_round (sh_registry ?sh) r"
    "drive_rank (sh_drive ?sh) < length ?rounds"
    by (simp_all add: within_def one_channel_def full_round_def)
  obtain rs sh' w' where polls: "fetcher_polls stormy sample_conv list_ops (concat ?rounds) ?sh start_world =
      (rs, sh', w')" by (metis prod_cases3)
  note idle = reading_releases_driver [OF bounded_list_ops sh polls]
  have "map_of (sh_registry ?sh) ''emails'' = Some (0, [([42], failed_parts)])" by (simp add: one_channel_def)
  with idle polls show ?thesis by (fastforce simp: handed_queue)
qed

end
