(* ===== verification/Backend.thy ===== *)
theory Backend
  imports Interleaving Driver
begin

text \<open>
  The three backends as a worker sees them: the \<open>Backend\<close> and \<open>BackendExt\<close> instances of
  \<open>src/lib.rs\<close> and \<open>src/shared.rs\<close> as records of their methods, and what ties the stream of a
  backend to its middleware. The worker of \<open>apalis_core\<close> that calls the methods is outside the
  repository.
\<close>

section \<open>The instances\<close>

record ('turn, 'st, 'a, 'r) backend =
  bk_heartbeat :: "env \<Rightarrow> worker_context \<Rightarrow> bool list \<Rightarrow> world \<Rightarrow> (surreal_error + unit) list \<times> world"
  bk_middleware :: "env \<Rightarrow> ('r \<Rightarrow> string + json) \<Rightarrow> ('a, 'r) wrap"
  bk_poll :: "env \<Rightarrow> worker_context \<Rightarrow> 'turn list \<Rightarrow> world
    \<Rightarrow> (surreal_error + 'a surreal_task option) list \<times> 'st \<times> world"

record ('turn, 'st) backend_ext =
  be_get_queue :: string
  be_poll_compact :: "env \<Rightarrow> worker_context \<Rightarrow> 'turn list \<Rightarrow> world \<Rightarrow> stream_item list \<times> 'st \<times> world"

text \<open>What one poll of a stream hands out; its end hands out nothing.\<close>

fun handed_out :: "'i option poll \<times> 's \<times> world \<Rightarrow> 'i poll \<times> 's \<times> world" where
  "handed_out (PollReady (Some item), r) = (PollReady item, r)"
| "handed_out (_, r) = (PollPending, r)"

definition polling_backend ::
  "(('a, 'r) wrap \<Rightarrow> ('a, 'r) wrap \<Rightarrow> ('a, 'r) wrap) \<Rightarrow> ('r acker \<Rightarrow> ('a, 'r) wrap) \<Rightarrow> row_conv
    \<Rightarrow> (bytes \<Rightarrow> string + 'a) \<Rightarrow> unit storage
    \<Rightarrow> (bool \<times> nat \<times> delay_item list, default_stream, 'a, 'r) backend" where
  "polling_backend stack_new ack_layer conv decode st =
     \<lparr>bk_heartbeat = (\<lambda>env wc. heartbeat_stream env wc st),
      bk_middleware = (\<lambda>env ser. middleware_stack stack_new ack_layer env ser (st_instance st)),
      bk_poll = (\<lambda>env wc ts w.
        turns (\<lambda>(ready, n, ds) s w. handed_out (backend_next env conv decode wc st ready n ds s w))
          ts poll_default w)\<rparr>"

definition polling_backend_ext ::
  "row_conv \<Rightarrow> unit storage \<Rightarrow> (bool \<times> nat \<times> delay_item list, default_stream) backend_ext" where
  "polling_backend_ext conv st =
     \<lparr>be_get_queue = get_queue st,
      be_poll_compact = (\<lambda>env wc ts w.
        turns (\<lambda>(ready, n, ds) s w. handed_out (poll_compact env conv wc st ready n ds s w))
          ts poll_default w)\<rparr>"

definition listening_backend ::
  "(('a, 'r) wrap \<Rightarrow> ('a, 'r) wrap \<Rightarrow> ('a, 'r) wrap) \<Rightarrow> ('r acker \<Rightarrow> ('a, 'r) wrap) \<Rightarrow> row_conv
    \<Rightarrow> (bytes \<Rightarrow> string + 'a) \<Rightarrow> live_fetcher storage \<Rightarrow> (turn, listener, 'a, 'r) backend" where
  "listening_backend stack_new ack_layer conv decode st =
     \<lparr>bk_heartbeat = (\<lambda>env wc. heartbeat_stream env wc st),
      bk_middleware = (\<lambda>env ser. middleware_stack stack_new ack_layer env ser (st_instance st)),
      bk_poll = (\<lambda>env wc. listener_poll env conv decode wc st)\<rparr>"

definition listening_backend_ext ::
  "row_conv \<Rightarrow> live_fetcher storage \<Rightarrow> (turn, listener) backend_ext" where
  "listening_backend_ext conv st =
     \<lparr>be_get_queue = get_queue st,
      be_poll_compact = (\<lambda>env wc. listener_compact env conv wc st)\<rparr>"

text \<open>A shared storage's stream starts from what the shared registry and driver hold.\<close>

definition shared_backend ::
  "(('a, 'r) wrap \<Rightarrow> ('a, 'r) wrap \<Rightarrow> ('a, 'r) wrap) \<Rightarrow> ('r acker \<Rightarrow> ('a, 'r) wrap) \<Rightarrow> row_conv
    \<Rightarrow> (bytes \<Rightarrow> string + 'a) \<Rightarrow> 'c channel_ops \<Rightarrow> 'c shared_storage \<Rightarrow> string storage
    \<Rightarrow> (shared_turn, 'c shared_stream, 'a, 'r) backend" where
  "shared_backend stack_new ack_layer conv decode ops sh st =
     \<lparr>bk_heartbeat = (\<lambda>env wc. heartbeat_stream env wc st),
      bk_middleware = (\<lambda>env ser. shared_middleware stack_new ack_layer env ser (st_instance st)),
      bk_poll = (\<lambda>env wc ts. shared_poll env conv decode ops wc st ts sh)\<rparr>"

definition shared_backend_ext ::
  "row_conv \<Rightarrow> 'c channel_ops \<Rightarrow> 'c shared_storage \<Rightarrow> string storage
    \<Rightarrow> (shared_turn, 'c shared_stream) backend_ext" where
  "shared_backend_ext conv ops sh st =
     \<lparr>be_get_queue = get_queue st,
      be_poll_compact = (\<lambda>env wc ts. shared_compact env conv ops wc st ts sh)\<rparr>"

lemma bk_middleware_simps [simp]:
  "bk_middleware (polling_backend stack_new ack_layer conv decode st1) env ser =
     middleware_stack stack_new ack_layer env ser (st_instance st1)"
  "bk_middleware (listening_backend stack_new ack_layer conv decode st2) env ser =
     middleware_stack stack_new ack_layer env ser (st_instance st2)"
  "bk_middleware (shared_backend stack_new ack_layer conv decode ops sh st3) env ser =
     shared_middleware stack_new ack_layer env ser (st_instance st3)"
  by (simp_all add: polling_backend_def listening_backend_def shared_backend_def)

section \<open>What a stream hands out\<close>

text \<open>
  The contract of a stream's turns: an invariant of its state under which every item handed out
  is as promised. It then holds of the whole stream, and survives decoding.
\<close>

locale stream_turns =
  fixes take_turn :: "'t \<Rightarrow> 's \<Rightarrow> world \<Rightarrow> 'i poll \<times> 's \<times> world"
    and holds :: "'s \<Rightarrow> bool" and promised :: "'i \<Rightarrow> bool"
  assumes turn_promises: "take_turn t s w = (p, s', w') \<Longrightarrow> holds s \<Longrightarrow>
    holds s' \<and> (\<forall>item. p = PollReady item \<longrightarrow> promised item)"
begin

lemma turns_promise:
  "turns take_turn ts s w = (items, s', w') \<Longrightarrow> holds s \<Longrightarrow>
    holds s' \<and> (\<forall>item \<in> set items. promised item)"
proof (induction ts arbitrary: s w items)
  case (Cons t ts)
  obtain p s1 w1 where t: "take_turn t s w = (p, s1, w1)" by (metis prod_cases3)
  obtain items1 where rest: "turns take_turn ts s1 w1 = (items1, s', w')"
    "items = (case p of PollReady item \<Rightarrow> item # items1 | PollPending \<Rightarrow> items1)"
    using Cons.prems(1) t by (auto split: prod.splits)
  from turn_promises [OF t Cons.prems(2)] Cons.IH [OF rest(1)] rest(2) show ?case
    by (auto split: poll.splits)
qed simp

end

text \<open>A task claimed for an instance: it has an id and carries the instance as its lock.\<close>

definition claimed_for :: "string \<Rightarrow> 'a surreal_task \<Rightarrow> bool" where
  "claimed_for inst task \<longleftrightarrow> part_task_id (snd task) \<noteq> None \<and> ctx_lock_by (part_ctx (snd task)) = Some inst"

fun item_for :: "string \<Rightarrow> surreal_error + 'a surreal_task option \<Rightarrow> bool" where
  "item_for inst (Inr (Some task)) \<longleftrightarrow> claimed_for inst task"
| "item_for inst _ \<longleftrightarrow> True"

text \<open>What is documented of the row conversion: the id and the lock owner go into the task's parts.\<close>

definition conv_keeps :: "row_conv \<Rightarrow> bool" where
  "conv_keeps conv \<longleftrightarrow> (\<forall>tr task. conv tr = Inr task \<longrightarrow>
     part_task_id (snd task) = Some (tr_id tr) \<and> ctx_lock_by (part_ctx (snd task)) = tr_lock_by tr)"

lemma decoded_row_parts:
  "conv_keeps conv \<Longrightarrow> decode_row conv row = Inr task \<Longrightarrow>
    part_task_id (snd task) \<noteq> None \<and> ctx_lock_by (part_ctx (snd task)) = lock_by row"
  by (auto simp: conv_keeps_def decode_row_def try_from_row.simps split: sum.splits record_key.splits)

lemma fetch_next_claimed_for:
  assumes "conv_keeps conv" and "fetch_next env conv cfg inst w = (Inr tasks, w')" and "task \<in> set tasks"
  shows "claimed_for inst task"
proof -
  from fetch_next_claims [OF assms(2)] obtain q n t d rows d' where
    st: "fetch_next_stmt q inst n t d = Inr (rows, d')" and "tasks = decoded conv rows" by blast
  with assms(3) obtain row where "row \<in> set rows" "decode_row conv row = Inr task"
    by (auto simp: decoded_mem)
  moreover have "\<forall>row \<in> set rows. lock_by row = Some inst"
    using st by (auto simp: fetch_next_stmt_def update_records_def set_claimed_def)
  ultimately show ?thesis using decoded_row_parts [OF assms(1)] by (simp add: claimed_for_def)
qed

lemma fetches_claimed_for:
  assumes "conv_keeps conv" and "fetches env conv cfg inst m w = (rs, w')"
  shows "\<forall>task \<in> set (concat (map batch rs)). claimed_for inst task"
  using assms(2)
proof (induction m arbitrary: w rs)
  case (Suc m)
  obtain r w1 rs1 where "fetch_next env conv cfg inst w = (r, w1)" "rs = r # rs1"
    "fetches env conv cfg inst m w1 = (rs1, w')"
    using Suc.prems by (auto split: prod.splits)
  with Suc.IH fetch_next_claimed_for [OF assms(1)] show ?case by (cases r) auto
qed simp

definition fetcher_for :: "row_conv \<Rightarrow> string \<Rightarrow> poll_fetcher \<Rightarrow> bool" where
  "fetcher_for conv inst f \<longleftrightarrow>
     conv_keeps conv \<and> (\<forall>task \<in> set (buffered (pf_state f)). claimed_for inst task)"

lemma fetcher_for_new: "fetcher_for conv inst poll_fetcher_new \<longleftrightarrow> conv_keeps conv"
  by (simp add: fetcher_for_def poll_fetcher_new_def)

lemma poll_next_for:
  assumes "poll_next env conv cfg inst n ds f w = (p, f', w')" and "fetcher_for conv inst f"
  shows "fetcher_for conv inst f' \<and> (\<forall>item. p = PollReady (Some item) \<longrightarrow> item_for inst item)"
proof -
  from poll_loop_conserves [OF assms(1) [unfolded poll_next_def]] obtain m rs where
    m: "fetches env conv cfg inst m w = (rs, w')"
      "buffered (pf_state f) @ concat (map batch rs) = yielded p @ buffered (pf_state f')" by auto
  have "\<forall>task \<in> set (buffered (pf_state f) @ concat (map batch rs)). claimed_for inst task"
    using assms(2) fetches_claimed_for [OF _ m(1)] unfolding fetcher_for_def set_append by blast
  then have all: "\<forall>task \<in> set (yielded p) \<union> set (buffered (pf_state f')). claimed_for inst task"
    unfolding m(2) by simp
  moreover have "item_for inst item" if "p = PollReady (Some item)" for item
    using all that by (cases item rule: item_tasks.cases) auto
  ultimately show ?thesis using assms(2) by (simp add: fetcher_for_def)
qed

lemma decode_or_kill_for:
  "decode_or_kill env decode item w = (item', w') \<Longrightarrow> item_for inst item \<Longrightarrow> item_for inst item'"
  by (auto simp: decode_or_kill_def claimed_for_def split: sum.splits option.splits)

lemma registration_for: "item_for inst (registration_item res)"
  by (simp add: registration_item_def split: sum.split)

interpretation polling: stream_turns
  "\<lambda>(ready, n, ds) s w. handed_out (backend_next env conv decode wc st ready n ds s w)"
  "\<lambda>s. fetcher_for conv (st_instance st) (ds_fetcher s)" "item_for (st_instance st)"
  for env conv decode wc st
proof
  fix t s w p s' w'
  assume turn: "(case t of (ready, n, ds) \<Rightarrow> \<lambda>s w. handed_out (backend_next env conv decode wc st ready n ds s w)) s w =
      (p, s', w')"
    and holds: "fetcher_for conv (st_instance st) (ds_fetcher s)"
  obtain ready n ds where t: "t = (ready, n, ds)" by (cases t)
  obtain q s1 w1 where d: "default_next env conv wc st ready n ds s w = (q, s1, w1)" by (metis prod_cases3)
  have "fetcher_for conv (st_instance st) (ds_fetcher s1) \<and>
      (\<forall>item. q = PollReady (Some item) \<longrightarrow> item_for (st_instance st) item)"
    using d holds poll_next_for [of env conv "st_config st" "st_instance st" n ds "ds_fetcher s" w]
    by (auto simp: default_next_def split: if_splits prod.splits sum.splits)
  then show "fetcher_for conv (st_instance st) (ds_fetcher s') \<and>
      (\<forall>item. p = PollReady item \<longrightarrow> item_for (st_instance st) item)"
    using turn d decode_or_kill_for
    by (fastforce simp: t backend_next_def split: poll.splits option.splits prod.splits)
qed

definition listener_for :: "row_conv \<Rightarrow> string \<Rightarrow> listener \<Rightarrow> bool" where
  "listener_for conv inst l \<longleftrightarrow> fetcher_for conv inst (ls_eager l) \<and> (\<forall>item \<in> set (ls_lazy l). item_for inst item)"

lemma lazy_items_for:
  "(\<forall>item \<in> set items. item_for inst item) \<longleftrightarrow>
    (\<forall>task \<in> set (concat (map item_tasks items)). claimed_for inst task)"
proof (induction items)
  case (Cons item items)
  then show ?case by (cases item rule: item_tasks.cases) auto
qed simp

lemma listener_turn_for:
  assumes "listener_turn env conv cfg inst t l w = (p, l', w')" and "listener_for conv inst l"
  shows "listener_for conv inst l' \<and> (\<forall>item. p = PollReady item \<longrightarrow> item_for inst item)"
proof (cases t)
  case (LazyPoll n)
  obtain items where n: "lazy_next env conv cfg inst n (ls_lazy l) w = (p, items, w')" "l' = l\<lparr>ls_lazy := items\<rparr>"
    using assms(1) LazyPoll by (auto split: prod.splits)
  from lazy_next_conserves [OF n(1)] obtain m rs where
    m: "fetches env conv cfg inst m w = (rs, w')"
      "concat (map item_tasks (ls_lazy l)) @ concat (map batch rs) = turn_tasks p @ concat (map item_tasks items)"
    by blast
  have "\<forall>task \<in> set (concat (map item_tasks (ls_lazy l)) @ concat (map batch rs)). claimed_for inst task"
    using assms(2) fetches_claimed_for [OF _ m(1)]
    unfolding listener_for_def fetcher_for_def lazy_items_for set_append by blast
  then have all: "\<forall>task \<in> set (turn_tasks p) \<union> set (concat (map item_tasks items)). claimed_for inst task"
    unfolding m(2) by simp
  moreover have "item_for inst item" if "p = PollReady item" for item
    using all that by (cases item rule: item_tasks.cases) auto
  ultimately show ?thesis using assms(2) n(2) by (auto simp: listener_for_def lazy_items_for)
next
  case (EagerPoll n ds)
  obtain q f w1 where q: "poll_next env conv cfg inst n ds (ls_eager l) w = (q, f, w1)" by (metis prod_cases3)
  from poll_next_for [OF q] assms EagerPoll q show ?thesis
    by (auto simp: listener_for_def split: poll.splits option.splits)
qed

interpretation listening: stream_turns
  "then_decode env decode (listener_turn env conv cfg inst)" "listener_for conv inst" "item_for inst"
  for env decode conv cfg inst
proof
  fix t s w p s' w'
  assume turn: "then_decode env decode (listener_turn env conv cfg inst) t s w = (p, s', w')"
    and holds: "listener_for conv inst s"
  obtain q s1 w1 where q: "listener_turn env conv cfg inst t s w = (q, s1, w1)" by (metis prod_cases3)
  from listener_turn_for [OF q holds] turn q decode_or_kill_for
  show "listener_for conv inst s' \<and> (\<forall>item. p = PollReady item \<longrightarrow> item_for inst item)"
    by (fastforce split: poll.splits prod.splits)
qed

section \<open>Properties\<close>

definition hands :: "('turn, 'st, 'a, 'r) backend \<Rightarrow> 'a surreal_task \<Rightarrow> bool" where
  "hands b task \<longleftrightarrow> (\<exists>env wc ts w. Inr (Some task) \<in> set (fst (bk_poll b env wc ts w)))"

lemma polling_hands_claimed:
  assumes "conv_keeps conv" and "hands (polling_backend stack_new ack_layer conv decode st) task"
  shows "claimed_for (st_instance st) task"
proof -
  obtain env wc ts w items s' w' where
    "turns (\<lambda>(ready, n, ds) s w. handed_out (backend_next env conv decode wc st ready n ds s w))
      ts poll_default w = (items, s', w')" "Inr (Some task) \<in> set items"
    using assms(2) by (auto simp: hands_def polling_backend_def) (metis prod_cases3 fst_conv)
  from polling.turns_promise [OF this(1)] this(2) assms(1) show ?thesis
    by (auto simp: poll_default_def fetcher_for_new)
qed

lemma listening_hands_claimed:
  assumes "conv_keeps conv" and "hands (listening_backend stack_new ack_layer conv decode st) task"
  shows "claimed_for (st_instance st) task"
proof -
  obtain env wc ts w items s' w' where
    poll: "listener_poll env conv decode wc st ts w = (items, s', w')" "Inr (Some task) \<in> set items"
    using assms(2) by (auto simp: hands_def listening_backend_def) (metis prod_cases3 fst_conv)
  obtain res w0 first w1 items1 where
    reg: "decode_or_kill env decode (registration_item res) w0 = (first, w1)"
    and rest: "turns (then_decode env decode (listener_turn env conv (st_config st) (st_instance st)))
      ts listener_new w1 = (items1, s', w')"
    and items: "items = first # items1"
    using poll(1) by (auto simp: listener_poll_def split: prod.splits)
  have "listener_for conv (st_instance st) listener_new"
    using assms(1) by (simp add: listener_for_def listener_new_def fetcher_for_new)
  from listening.turns_promise [OF rest this] decode_or_kill_for [OF reg registration_for] poll(2)
  show ?thesis by (auto simp: items)
qed

text \<open>C14. Every task a polling or a listening backend hands out, whatever the engine and the executor do, decoded or not, in whichever order the sides of the stream are taken, was claimed for the storage's own instance: it has an id and carries the instance as its lock owner, so that the acknowledgement around the lock never fails for want of either.\<close>

theorem handed_tasks_carry_owner:
  assumes "conv_keeps conv"
  shows "(hands (polling_backend stack_new ack_layer conv decode st) task \<longrightarrow> claimed_for (st_instance st) task) \<and>
    (hands (listening_backend stack_new ack_layer conv decode st') task \<longrightarrow> claimed_for (st_instance st') task)"
  using polling_hands_claimed [OF assms] listening_hands_claimed [OF assms] by blast

text \<open>C12. From the stream to the stored outcome, for each of the three backends, for any task code and any engine that executes the request for the lock: a task the backend's stream hands out and whose row the instance may lock is run, once its row is Running under that instance, by the backend's own middleware. Whatever other clients and the task's own code commit meanwhile, short of ending the instance's ownership (an acknowledgement in its name, a parking of the job, or an orphan pass that takes it for dead), the row ends as outcome_row says: with the outcome computed from the result the code returned, if that serialises and the one acknowledgement takes effect, and otherwise as the lock left it. When the acknowledgement is executed the middleware hands back the code's own result.\<close>

theorem backend_task_outcome:
  assumes "nests_outward stack_new" and "acknowledges ack_layer" and "conv_keeps conv" and "verdict (env (trips w)) = Executes"
    and "env_runs (\<lambda>a. \<not> releases (StringKey ident) inst a) env"
    and "service_runs (\<lambda>a. \<not> releases (StringKey ident) inst a) svc"
    and "db_inv (store w)" and "lookup_job (others (env (trips w)) (store w)) (StringKey ident) = Some j" and "lock_guard inst j"
    and "part_task_id p = Some ident" and "locked = set_running inst (clock (env (trips w))) j"
    and b: "hands (polling_backend stack_new ack_layer conv decode st1) (x, p) \<and> inst = st_instance st1 \<and>
        mw = bk_middleware (polling_backend stack_new ack_layer conv decode st1) \<or>
      hands (listening_backend stack_new ack_layer conv decode st2) (x, p) \<and> inst = st_instance st2 \<and>
        mw = bk_middleware (listening_backend stack_new ack_layer conv decode st2) \<or>
      hands (shared_backend stack_new ack_layer conv decode ops sh st3) (x, p) \<and> inst = st_instance st3 \<and>
        mw = bk_middleware (shared_backend stack_new ack_layer conv decode ops sh st3)"
  shows "\<exists>w1 res w2 r w'. trips w1 = Suc (trips w) \<and> lookup_job (store w1) (StringKey ident) = Some locked \<and>
    svc (x, stamped inst p) w1 = (res, w2) \<and> mw env ser svc (x, p) w = (r, w') \<and>
    lookup_job (store w') (StringKey ident) = Some (outcome_row env ser p res (trips w2) locked) \<and>
    ((\<exists>v. result_value ser res = Inr v) \<and> verdict (env (trips w2)) = Executes \<longrightarrow> r = res)"
proof -
  have "ctx_lock_by (part_ctx p) = Some inst"
    if "hands (polling_backend stack_new ack_layer conv decode st1) (x, p)" "inst = st_instance st1"
    using polling_hands_claimed [OF assms(3) that(1)] that(2) by (simp add: claimed_for_def)
  moreover have "ctx_lock_by (part_ctx p) = Some inst"
    if "hands (listening_backend stack_new ack_layer conv decode st2) (x, p)" "inst = st_instance st2"
    using listening_hands_claimed [OF assms(3) that(1)] that(2) by (simp add: claimed_for_def)
  ultimately have "mw env ser svc = shared_middleware stack_new ack_layer env ser inst svc \<or>
      mw env ser svc = middleware_stack stack_new ack_layer env ser inst svc \<and> ctx_lock_by (part_ctx p) = Some inst"
    using b by (elim disjE conjE) simp_all
  from interleaved_outcome [where env = env and w = w, OF assms(1,2,4-10) this assms(11)] show ?thesis .
qed

section \<open>Witnesses\<close>

definition sample_storage :: "'f \<Rightarrow> 'f storage" where
  "sample_storage f = \<lparr>st_instance = ''w1'', st_config = sample_config, st_sink = sink_new, st_fetcher = f\<rparr>"

definition sample_shared :: "(nat \<times> compact_task list) shared_storage" where
  "sample_shared = \<lparr>sh_registry = one_channel 1 [([42], failed_parts)], sh_drive = DriveIdle\<rparr>"

lemma conv_keeps_sample: "conv_keeps sample_conv"
  by (simp add: conv_keeps_def sample_conv_def)

definition mailer :: worker_context where
  "mailer = \<lparr>ctx_name = ''mailer'', ctx_service = ''stack''\<rparr>"

text \<open>A poll registers the worker, the next one claims the sample jobs and hands out the first.\<close>

lemma sample_registration:
  "\<exists>ws. initial_heartbeat (calm late) sample_config mailer ''SurrealStorage'' ''w1'' two_jobs_world =
    (Inr (), \<lparr>store = two_jobs\<lparr>workers := ws\<rparr>, trips = 4\<rparr>)"
proof -
  have keep: "update_where (orphaned q live dur late) set_reenqueued (jobs two_jobs) = jobs two_jobs" for q live dur
    by (simp add: two_jobs_def update_where_def orphaned_def new_job_def)
  have "\<exists>n. reenqueue_orphaned (calm late) sample_config two_jobs_world = (Inr n, \<lparr>store = two_jobs, trips = 3\<rparr>)"
    by (simp add: reenqueue_orphaned_calm Let_def two_jobs_world_def keep) (simp add: two_jobs_def)
  moreover have "\<exists>ws. register_worker (calm late) sample_config mailer ''SurrealStorage'' ''w1''
      \<lparr>store = two_jobs, trips = 3\<rparr> = (Inr (), \<lparr>store = two_jobs\<lparr>workers := ws\<rparr>, trips = 4\<rparr>)"
    by (simp add: register_worker_def query_def calm_def register_worker_stmt_def Let_def two_jobs_def)
  ultimately show ?thesis by (auto simp: initial_heartbeat_def)
qed

lemma sample_claim_workers:
  "fetch_next_stmt ''emails'' ''w1'' 10 late (two_jobs\<lparr>workers := ws\<rparr>) =
     Inr (claimed_rows ''w1'', two_jobs\<lparr>jobs := claimed_rows ''w1'', workers := ws\<rparr>)"
  using sample_claim
  by (simp add: fetch_next_stmt_def update_records_def due_ids_def due_batch_def lookup_job_def [abs_def]
      two_jobs_def)

lemma sample_polling:
  "hands (polling_backend stack_new ack_layer sample_conv Inr (sample_storage ())) handed_task"
proof -
  obtain ws where reg: "initial_heartbeat (calm late) sample_config mailer ''SurrealStorage'' ''w1'' two_jobs_world =
      (Inr (), \<lparr>store = two_jobs\<lparr>workers := ws\<rparr>, trips = 4\<rparr>)"
    using sample_registration by blast
  have n: "as_i64 (int (cfg_buffer_size sample_config)) = 10"
    by (simp add: sample_config_def as_i64_id)
  have "fetch_next_stmt (cfg_queue sample_config) ''w1'' (as_i64 (int (cfg_buffer_size sample_config))) late
      (store \<lparr>store = two_jobs\<lparr>workers := ws\<rparr>, trips = 4\<rparr>) =
    Inr (claimed_rows ''w1'', two_jobs\<lparr>jobs := claimed_rows ''w1'', workers := ws\<rparr>)"
    unfolding n using sample_claim_workers by (simp add: sample_config_def)
  note fetch = fetch_next_calm [OF this]
  obtain tasks w1 where d: "decode_rows (calm late) sample_conv (claimed_rows ''w1'')
      \<lparr>store = two_jobs\<lparr>jobs := claimed_rows ''w1'', workers := ws\<rparr>, trips = 5\<rparr> = (tasks, w1)"
    by fastforce
  then have "tasks = [handed_task]"
    using fst_decode_rows [of "calm late" sample_conv "claimed_rows ''w1''"] sample_decoded by (metis fst_conv)
  with fetch d have f: "fetch_next (calm late) sample_conv sample_config ''w1''
      \<lparr>store = two_jobs\<lparr>workers := ws\<rparr>, trips = 4\<rparr> = (Inr [handed_task], w1)"
    by simp
  have "fst (bk_poll (polling_backend stack_new ack_layer sample_conv Inr (sample_storage ())) (calm late) mailer
      [(True, 0, []), (True, 1, [])] two_jobs_world) = [Inr None, Inr (Some handed_task)]"
    by (simp add: polling_backend_def backend_next_def default_next_def poll_default_def sample_storage_def reg
        decode_or_kill_def poll_next_def poll_fetcher_new_def poll_loop.simps f)
  then show ?thesis unfolding hands_def by (metis list.set_intros)
qed

theorem handed_tasks_carry_owner_witness:
  "claimed_for ''w1'' handed_task"
  using handed_tasks_carry_owner [OF conv_keeps_sample, THEN conjunct1, THEN mp, OF sample_polling]
  by (simp add: sample_storage_def)

lemma sample_routed:
  "hands (shared_backend stack_new ack_layer sample_conv Inr list_ops sample_shared (sample_storage ''emails''))
    ([42], failed_parts)"
proof -
  have "Inr (Some ([42], failed_parts)) \<in> set (fst (bk_poll (shared_backend stack_new ack_layer sample_conv Inr
      list_ops sample_shared (sample_storage ''emails'')) (calm late) mailer [RoutedPoll 0 0 False] start_world))"
    by (simp add: shared_backend_def shared_poll_def decode_or_kill_def sample_storage_def shared_next_def
        sample_shared_def one_channel_def list_ops_def split: prod.splits)
  then show ?thesis unfolding hands_def by blast
qed

theorem backend_task_outcome_witness:
  "\<exists>w' j. bk_middleware (shared_backend tower_stack plain_ack_layer sample_conv Inr list_ops sample_shared
      (sample_storage ''emails'')) contended (\<lambda>n. Inr (JNumber n)) seven ([42], failed_parts)
      (one_job_world shared_job) = (Inr 7, w') \<and>
    lookup_job (store w') (StringKey ''01A'') = Some j \<and> status j = Done"
proof -
  have r: "verdict (contended (trips (one_job_world shared_job))) = Executes" by (simp add: contended_def)
  have row: "lookup_job (others (contended (trips (one_job_world shared_job))) (store (one_job_world shared_job)))
      (StringKey ''01A'') = Some shared_job"
    unfolding contended_idle by (rule sample_rows(3))
  have inst: "''w1'' = st_instance (sample_storage ''emails'')" by (simp add: sample_storage_def)
  let ?ser = "\<lambda>n. Inr (JNumber n) :: string + json"
  from backend_task_outcome [where ser = ?ser, OF sample_layers conv_keeps_sample r contended_runs seven_runs sample_rows(1) row
      sample_rows(5) sample_parts(1) refl disjI2 [OF disjI2 [OF conjI [OF sample_routed conjI [OF inst refl]]]]]
  obtain w1 res w2 r w' where res: "seven ([42], stamped ''w1'' failed_parts) w1 = (res, w2)"
    and out: "bk_middleware (shared_backend tower_stack plain_ack_layer sample_conv Inr list_ops sample_shared
        (sample_storage ''emails'')) contended ?ser seven ([42], failed_parts) (one_job_world shared_job) = (r, w')"
      "(\<exists>v. result_value ?ser res = Inr v) \<and> verdict (contended (trips w2)) = Executes \<longrightarrow> r = res"
      "lookup_job (store w') (StringKey ''01A'') = Some (outcome_row contended ?ser failed_parts res (trips w2)
        (set_running ''w1'' (clock (contended (trips (one_job_world shared_job)))) shared_job))"
    by (elim exE conjE) (erule that)
  from res have v: "res = Inr 7" by (simp add: seven_def)
  have g: "verdict (contended i) = Executes" "gets_through contended i" for i
    by (simp_all add: contended_def gets_through_def)
  have "r = Inr 7" using out(2) by (simp add: v g result_value_def)
  moreover have "status (outcome_row contended ?ser failed_parts res (trips w2) l) = Done" for l
    by (simp add: outcome_row_def v g result_value_def set_acked_def calculate_status_def)
  ultimately show ?thesis using out(1,3) by blast
qed

end
