(* ===== verification/Examples.thy ===== *)
theory Examples
  imports Driver
begin

text \<open>
  The programs under \<open>examples/\<close>: set up, build a storage, push, and run a worker. What they
  call of \<open>apalis_core\<close> is outside the repository and passed in: pushing through a storage
  (\<open>TaskSink\<close>), the task builders, and the worker's run. \<open>connect\<close> yields the world they start in.
\<close>

section \<open>What the programs call\<close>

text \<open>A program ends with its last statement or panics in an \<open>unwrap\<close>.\<close>

datatype 'e exit = Finished | DbPanic surreal_error | SharedPanic shared_error | WorkerPanic 'e

type_synonym 'f pusher = "'f storage \<Rightarrow> nat surreal_task \<Rightarrow> world
  \<Rightarrow> (surreal_error + unit) \<times> 'f storage \<times> world"

text \<open>A task's code; \<open>None\<close> is a failed assertion.\<close>

type_synonym task_fn = "nat \<Rightarrow> world \<Rightarrow> ((boxed_error + unit) \<times> world) option"

type_synonym ('f, 'e) runner = "string \<Rightarrow> 'f storage \<Rightarrow> task_fn \<Rightarrow> world \<Rightarrow> ('e + unit) \<times> world"

fun unwrap_run :: "('e + unit) \<times> world \<Rightarrow> 'e exit \<times> world" where
  "unwrap_run (Inl e, w) = (WorkerPanic e, w)"
| "unwrap_run (Inr _, w) = (Finished, w)"

text \<open>\<open>task\<close> of the programs: \<open>worker.stop()?\<close> is the argument \<open>stop\<close>.\<close>

definition expect_42 :: "(world \<Rightarrow> (boxed_error + unit) \<times> world) \<Rightarrow> task_fn" where
  "expect_42 stop job w =
     (if job = 42 then Some (case stop w of (Inl e, w') \<Rightarrow> (Inl e, w') | (Inr _, w') \<Rightarrow> (Inr (), w'))
      else None)"

section \<open>The programs\<close>

text \<open>\<open>push\<close> builds the plain task of its argument, \<open>task_new\<close>, and pushes it.\<close>

definition push_and_run ::
  "'f pusher \<Rightarrow> (nat \<Rightarrow> nat surreal_task) \<Rightarrow> ('f, 'e) runner \<Rightarrow> task_fn \<Rightarrow> 'f storage \<Rightarrow> world
    \<Rightarrow> 'e exit \<times> world" where
  "push_and_run push task_new run_worker task st w =
     (case push st (task_new 42) w of
        (Inl e, _, w') \<Rightarrow> (DbPanic e, w')
      | (Inr _, st', w') \<Rightarrow> unwrap_run (run_worker ''worker-1'' st' task w'))"

definition basic_main ::
  "env \<Rightarrow> (string \<Rightarrow> config) \<Rightarrow> string \<Rightarrow> unit pusher \<Rightarrow> (nat \<Rightarrow> nat surreal_task) \<Rightarrow> (unit, 'e) runner
    \<Rightarrow> (world \<Rightarrow> (boxed_error + unit) \<times> world) \<Rightarrow> world \<Rightarrow> 'e exit \<times> world" where
  "basic_main env config_new ulid push task_new run_worker stop w =
     (case setup_schema env w of
        (Inl e, w1) \<Rightarrow> (DbPanic e, w1)
      | (Inr _, w1) \<Rightarrow>
          push_and_run push task_new run_worker (expect_42 stop) (storage_new config_new ulid ''u32'') w1)"

text \<open>The codec decides how \<open>push\<close> and the worker encode; the storage is built by \<open>with_codec\<close>.\<close>

definition codec_main ::
  "env \<Rightarrow> (string \<Rightarrow> config) \<Rightarrow> string \<Rightarrow> unit pusher \<Rightarrow> (nat \<Rightarrow> nat surreal_task) \<Rightarrow> (unit, 'e) runner
    \<Rightarrow> (world \<Rightarrow> (boxed_error + unit) \<times> world) \<Rightarrow> world \<Rightarrow> 'e exit \<times> world" where
  "codec_main env config_new ulid push task_new run_worker stop w =
     (case setup_schema env w of
        (Inl e, w1) \<Rightarrow> (DbPanic e, w1)
      | (Inr _, w1) \<Rightarrow>
          push_and_run push task_new run_worker (expect_42 stop)
            (with_codec (storage_new config_new ulid ''u32'')) w1)"

definition realtime_main ::
  "env \<Rightarrow> (string \<Rightarrow> config) \<Rightarrow> string \<Rightarrow> live_fetcher pusher \<Rightarrow> (nat \<Rightarrow> nat surreal_task)
    \<Rightarrow> (live_fetcher, 'e) runner \<Rightarrow> (world \<Rightarrow> (boxed_error + unit) \<times> world) \<Rightarrow> world \<Rightarrow> 'e exit \<times> world" where
  "realtime_main env config_new ulid push task_new run_worker stop w =
     (case setup_schema env w of
        (Inl e, w1) \<Rightarrow> (DbPanic e, w1)
      | (Inr _, w1) \<Rightarrow>
          push_and_run push task_new run_worker (expect_42 stop)
            (new_with_events ulid (config_new ''realtime'')) w1)"

text \<open>\<open>run_after x n\<close> is the builder's task for \<open>x\<close>, to run \<open>n\<close> seconds from now.\<close>

definition scheduled_main ::
  "env \<Rightarrow> (string \<Rightarrow> config) \<Rightarrow> string \<Rightarrow> unit pusher \<Rightarrow> (nat \<Rightarrow> nat \<Rightarrow> nat surreal_task)
    \<Rightarrow> (unit, 'e) runner \<Rightarrow> (world \<Rightarrow> (boxed_error + unit) \<times> world) \<Rightarrow> world \<Rightarrow> 'e exit \<times> world" where
  "scheduled_main env config_new ulid push_task run_after run_worker stop w =
     (case setup_schema env w of
        (Inl e, w1) \<Rightarrow> (DbPanic e, w1)
      | (Inr _, w1) \<Rightarrow>
          (let backend = storage_new config_new ulid ''u32'';
               delayed = run_after 42 2
           in case push_task backend delayed w1 of
                (Inl e, _, w2) \<Rightarrow> (DbPanic e, w2)
              | (Inr _, backend', w2) \<Rightarrow> unwrap_run (run_worker ''worker-1'' backend' (expect_42 stop) w2)))"

definition unique_jobs_main ::
  "env \<Rightarrow> (string \<Rightarrow> config) \<Rightarrow> string \<Rightarrow> unit pusher \<Rightarrow> (nat \<Rightarrow> string \<Rightarrow> nat surreal_task)
    \<Rightarrow> (unit, 'e) runner \<Rightarrow> (world \<Rightarrow> (boxed_error + unit) \<times> world) \<Rightarrow> world \<Rightarrow> 'e exit \<times> world" where
  "unique_jobs_main env config_new ulid push_task with_key run_worker stop w =
     (let dedupe_key = ''a5bc4337-7789-4feb-b421-89c7231bac10'' in
      case setup_schema env w of
        (Inl e, w1) \<Rightarrow> (DbPanic e, w1)
      | (Inr _, w1) \<Rightarrow>
          (let backend = storage_new config_new ulid ''u32'';
               task_1 = with_key 42 dedupe_key;
               task_2 = with_key 43 dedupe_key
           in case push_task backend task_1 w1 of
                (Inl e, _, w2) \<Rightarrow> (DbPanic e, w2)
              | (Inr _, backend1, w2) \<Rightarrow>
                  (case push_task backend1 task_2 w2 of
                     (Inl e, _, w3) \<Rightarrow> (DbPanic e, w3)
                   | (Inr _, backend2, w3) \<Rightarrow>
                       unwrap_run (run_worker ''worker-1'' backend2 (expect_42 stop) w3))))"

text \<open>
  \<open>push_string\<close> and \<open>push_int\<close> push the two payloads; \<open>try_join\<close> runs the two workers
  together on the shared registry, driver and world.
\<close>

definition shared_main ::
  "env \<Rightarrow> (nat \<Rightarrow> 'c) \<Rightarrow> (string \<Rightarrow> config) \<Rightarrow> (nat \<Rightarrow> string)
    \<Rightarrow> (string storage \<Rightarrow> string \<Rightarrow> world \<Rightarrow> (surreal_error + unit) \<times> string storage \<times> world)
    \<Rightarrow> (string storage \<Rightarrow> nat \<Rightarrow> world \<Rightarrow> (surreal_error + unit) \<times> string storage \<times> world)
    \<Rightarrow> ((string \<times> string storage) \<Rightarrow> (string \<times> string storage) \<Rightarrow> 'c shared_storage \<Rightarrow> world
        \<Rightarrow> ('e + unit) \<times> world)
    \<Rightarrow> world \<Rightarrow> 'e exit \<times> world" where
  "shared_main env channel config_new inst_of push_string push_int try_join w =
     (case setup_schema env w of
        (Inl e, w1) \<Rightarrow> (DbPanic e, w1)
      | (Inr _, w1) \<Rightarrow>
     (let shared = (shared_new :: 'c shared_storage) in
      case make_shared channel (holds_registry (sh_drive shared)) config_new ''alloc::string::String''
          (inst_of 0) (sh_registry shared) of
        (Inl e, _) \<Rightarrow> (SharedPanic e, w1)
      | (Inr string_store, reg1) \<Rightarrow>
     (case make_shared channel (holds_registry (sh_drive shared)) config_new ''u32'' (inst_of 1) reg1 of
        (Inl e, _) \<Rightarrow> (SharedPanic e, w1)
      | (Inr int_store, reg2) \<Rightarrow>
     (case push_string string_store ''hello'' w1 of
        (Inl e, _, w2) \<Rightarrow> (DbPanic e, w2)
      | (Inr _, string_store', w2) \<Rightarrow>
     (case push_int int_store 99 w2 of
        (Inl e, _, w3) \<Rightarrow> (DbPanic e, w3)
      | (Inr _, int_store', w3) \<Rightarrow>
          unwrap_run (try_join (''ints'', int_store') (''strings'', string_store')
            (shared\<lparr>sh_registry := reg2\<rparr>) w3))))))"

section \<open>Pushing through a storage\<close>

text \<open>
  What is documented of \<open>TaskSink\<close>, which is outside the repository: pushing a task whose
  arguments the codec encodes sends it into the storage's sink and waits for the flush, whose
  result it returns. Nothing is said of arguments that do not encode. The flush is done once two
  of its batches are (\<open>flush_progress\<close>).
\<close>

definition sends_and_flushes ::
  "env \<Rightarrow> (nat \<Rightarrow> client) \<Rightarrow> (nat \<Rightarrow> string + bytes) \<Rightarrow> 'f pusher \<Rightarrow> bool" where
  "sends_and_flushes env cl encode push \<longleftrightarrow>
     (\<forall>st task w b r s w'. encode (fst task) = Inr b \<and>
        poll_flush env cl (st_config st) 2 (snd (start_send (b, snd task) (st_sink st))) w = (PollReady r, s, w') \<longrightarrow>
      push st task w = (r, st\<lparr>st_sink := s\<rparr>, w'))"

lemma sends_and_flushes_calm:
  assumes "sends_and_flushes (calm t) cl encode push" and "encode (fst task) = Inr b" and "st_sink st = sink_new"
    and "push_loop [to_push_row (cl (trips w)) (cfg_queue (st_config st)) 0 (b, snd task)] (store w) = Inr d'"
  shows "push st task w = (Inr (), st, w\<lparr>store := d', trips := Suc (trips w)\<rparr>)"
proof -
  let ?w' = "w\<lparr>store := d', trips := Suc (trips w)\<rparr>"
  have "push_tasks (calm t) (cl (trips w)) (st_config st) [(b, snd task)] w = (Inr (), ?w')"
    using push_tasks_calm [of "cl (trips w)" "st_config st" "[(b, snd task)]" w d' t] assms(4)
    by (simp add: to_push_rows_def)
  then have "poll_flush (calm t) cl (st_config st) 2 (snd (start_send (b, snd task) (st_sink st))) w =
      (PollReady (Inr ()), sink_new, ?w')"
    using assms(3) by (simp add: poll_flush.simps start_send_def sink_new_def numeral_2_eq_2)
  with assms(1,2) have "push st task w = (Inr (), st\<lparr>st_sink := sink_new\<rparr>, ?w')"
    unfolding sends_and_flushes_def by blast
  then show ?thesis using assms(3) by (cases st) simp
qed

text \<open>What the setup leaves on an undisturbed engine.\<close>

lemma setup_calm:
  "setup_schema (calm t) w = (Inr (), w\<lparr>store := (store w)\<lparr>meta_version := Some 1\<rparr>, trips := trips w + 2\<rparr>)"
  by (simp add: setup_schema_def query_def calm_def schema_stmt_def set_version_stmt_def SCHEMA_VERSION_def)

section \<open>Properties\<close>

text \<open>C38. The example on unique jobs does what its comment says: with two tasks built with the same key, arguments that the codec encodes, and any push that sends into the sink and flushes it, on an undisturbed engine and from tables where neither the key nor the first task's id is in use, the second push is skipped without an error, and the worker starts with exactly the first task added to the jobs, with the first task's arguments.\<close>

theorem unique_jobs_example:
  assumes push: "sends_and_flushes (calm t) cl encode push" and codec: "encode 42 = Inr b" "encode 43 = Inr b'"
    and key: "\<forall>x k. fst (with_key x k) = x \<and> part_idempotency_key (snd (with_key x k)) = Some k"
    and row: "r = to_push_row (cl (trips w + 2)) (cfg_queue (config_new ''u32'')) 0
      (b, snd (with_key 42 ''a5bc4337-7789-4feb-b421-89c7231bac10''))"
    and fresh: "lookup_job (store w) (pr_id r) = None" "\<not> key_taken r (store w)"
  shows "\<exists>w'. unique_jobs_main (calm t) config_new ulid push with_key run_worker stop w =
      unwrap_run (run_worker ''worker-1'' (storage_new config_new ulid ''u32'') (expect_42 stop) w') \<and>
    jobs (store w') = jobs (store w) @ [new_job r] \<and> args (new_job r) = b"
proof -
  let ?key = "''a5bc4337-7789-4feb-b421-89c7231bac10''" and ?st = "storage_new config_new ulid ''u32''"
  let ?w1 = "w\<lparr>store := (store w)\<lparr>meta_version := Some 1\<rparr>, trips := trips w + 2\<rparr>"
  let ?d = "store ?w1"
  let ?d2 = "?d\<lparr>jobs := jobs ?d @ [new_job r]\<rparr>"
  let ?w2 = "?w1\<lparr>store := ?d2, trips := Suc (trips ?w1)\<rparr>"
  let ?r2 = "to_push_row (cl (trips ?w2)) (cfg_queue (config_new ''u32'')) 0 (b', snd (with_key 43 ?key))"
  have st: "st_sink ?st = sink_new" "st_config ?st = config_new ''u32''"
    by (simp_all add: storage_new_def new_with_config_def)
  have "lookup_job ?d (pr_id r) = None" using fresh(1) by (simp add: lookup_job_def)
  moreover have "\<not> key_taken r ?d" using fresh(2) by (simp add: key_taken_def)
  ultimately have "push_loop [r] ?d = Inr ?d2" by simp
  then have push1: "push ?st (with_key 42 ?key) ?w1 = (Inr (), ?st, ?w2)"
    using sends_and_flushes_calm [OF push _ st(1), of "with_key 42 ?key" b ?w1 ?d2] key codec(1)
    by (simp add: st(2) row)
  have "pr_queue ?r2 = queue (new_job r)" "pr_idempotency_key ?r2 = idempotency_key (new_job r)"
    "pr_idempotency_key ?r2 = Some ?key"
    using key by (simp_all add: row new_job_def to_push_row_def Let_def)
  then have "push_loop [?r2] ?d2 = Inr ?d2" by (simp add: key_taken_def)
  then have push2: "push ?st (with_key 43 ?key) ?w2 = (Inr (), ?st, ?w2\<lparr>store := ?d2, trips := Suc (trips ?w2)\<rparr>)"
    using sends_and_flushes_calm [OF push _ st(1), of "with_key 43 ?key" b' ?w2 ?d2] key codec(2)
    by (simp add: st(2))
  have "args (new_job r) = b" by (simp add: row new_job_def to_push_row_def Let_def)
  with push1 push2 show ?thesis
    by (intro exI [of _ "?w2\<lparr>store := ?d2, trips := Suc (trips ?w2)\<rparr>"])
      (simp add: unique_jobs_main_def setup_calm Let_def)
qed

text \<open>The scheduled example: its task is due exactly from the two seconds on for which it was built; before, no claim of its queue can hand it out.\<close>

lemma scheduled_example:
  assumes push: "sends_and_flushes (calm t) cl encode push" and codec: "encode (fst (run_after 42 2)) = Inr b"
    and after: "part_idempotency_key (snd (run_after 42 2)) = None" "part_run_at (snd (run_after 42 2)) = now + 2"
    and clock: "from_timestamp (cl (trips w + 2)) (as_i64 (int (now + 2))) = Some (int (now + 2) * nanos_per_sec)"
    and row: "r = to_push_row (cl (trips w + 2)) (cfg_queue (config_new ''u32'')) 0 (b, snd (run_after 42 2))"
    and fresh: "lookup_job (store w) (pr_id r) = None"
  shows "\<exists>w'. scheduled_main (calm t) config_new ulid push run_after run_worker stop w =
      unwrap_run (run_worker ''worker-1'' (storage_new config_new ulid ''u32'') (expect_42 stop) w') \<and>
    jobs (store w') = jobs (store w) @ [new_job r] \<and>
    (\<forall>t'. due t' (new_job r) \<longleftrightarrow> int (now + 2) * nanos_per_sec \<le> t')"
proof -
  let ?st = "storage_new config_new ulid ''u32''"
  let ?w1 = "w\<lparr>store := (store w)\<lparr>meta_version := Some 1\<rparr>, trips := trips w + 2\<rparr>"
  let ?d = "store ?w1"
  let ?d2 = "?d\<lparr>jobs := jobs ?d @ [new_job r]\<rparr>"
  have st: "st_sink ?st = sink_new" "st_config ?st = config_new ''u32''"
    by (simp_all add: storage_new_def new_with_config_def)
  have "lookup_job ?d (pr_id r) = None" using fresh by (simp add: lookup_job_def)
  moreover have "pr_idempotency_key r = None" using after by (simp add: row to_push_row_def Let_def)
  ultimately have "push_loop [r] ?d = Inr ?d2" by simp
  then have "push ?st (run_after 42 2) ?w1 = (Inr (), ?st, ?w1\<lparr>store := ?d2, trips := Suc (trips ?w1)\<rparr>)"
    using sends_and_flushes_calm [OF push codec st(1), of ?w1 ?d2]
    by (simp add: st(2) row)
  moreover have "pr_run_at r = int (now + 2) * nanos_per_sec"
    using clock after(2) by (simp add: row to_push_row_def Let_def)
  ultimately show ?thesis
    by (intro exI [of _ "?w1\<lparr>store := ?d2, trips := Suc (trips ?w1)\<rparr>"])
      (simp add: scheduled_main_def setup_calm Let_def new_job_def due_def retryable_def)
qed

section \<open>Witness\<close>

definition keyed :: "nat \<Rightarrow> string \<Rightarrow> nat surreal_task" where
  "keyed x k = (x, (snd (sample_task (Some k)))\<lparr>part_task_id := Some ''01A''\<rparr>)"

definition direct_push :: "env \<Rightarrow> (nat \<Rightarrow> client) \<Rightarrow> (nat \<Rightarrow> string + bytes) \<Rightarrow> 'f pusher" where
  "direct_push env cl encode st task w =
     (case encode (fst task) of
        Inl e \<Rightarrow> (Inl (Row e), st, w)
      | Inr b \<Rightarrow>
          (case poll_flush env cl (st_config st) 2 (snd (start_send (b, snd task) (st_sink st))) w of
             (PollReady r, s, w') \<Rightarrow> (r, st\<lparr>st_sink := s\<rparr>, w')
           | (PollPending, s, w') \<Rightarrow> (Inl (Row ''pending''), st\<lparr>st_sink := s\<rparr>, w')))"

lemma direct_push_sends: "sends_and_flushes env cl encode (direct_push env cl encode)"
  by (simp add: sends_and_flushes_def direct_push_def)

definition byte_codec :: "nat \<Rightarrow> string + bytes" where
  "byte_codec n = (if n < 256 then Inr [of_nat n] else Inl ''out of range'')"

theorem unique_jobs_example_witness:
  "\<exists>w' j. unique_jobs_main (calm late) (\<lambda>q. sample_config\<lparr>cfg_queue := q\<rparr>) ''w1''
      (direct_push (calm late) (\<lambda>_. sample_client) byte_codec) keyed
      (\<lambda>name st task w. (Inr () :: unit + unit, w)) (\<lambda>w. (Inr (), w)) start_world = (Finished, w') \<and>
    jobs (store w') = [j] \<and> args j = [42]"
proof -
  have codec: "byte_codec 42 = Inr [42]" "byte_codec 43 = Inr [43]" by (simp_all add: byte_codec_def)
  have key: "\<forall>x k. fst (keyed x k) = x \<and> part_idempotency_key (snd (keyed x k)) = Some k"
    by (simp add: keyed_def sample_task_def)
  have none: "jobs (store start_world) = []" by (simp add: start_world_def empty_db_def)
  then have fresh: "lookup_job (store start_world) k = None" "\<not> key_taken r (store start_world)" for k r
    by (simp_all add: lookup_job_def key_taken_def)
  from unique_jobs_example [OF direct_push_sends codec key refl fresh, where cl = "\<lambda>_. sample_client"
      and config_new = "\<lambda>q. sample_config\<lparr>cfg_queue := q\<rparr>" and t = late and ulid = "''w1''"
      and run_worker = "\<lambda>name st task w. (Inr () :: unit + unit, w)" and stop = "\<lambda>w. (Inr (), w)"]
  show ?thesis unfolding none by (simp only: unwrap_run.simps append_Nil) auto
qed

end
