(* ===== verification/Wait_For.thy ===== *)
theory Wait_For
  imports Claim
begin

text \<open>
  \<open>src/queries/wait_for.rs\<close>: reporting the results of tasks that reached a terminal state,
  once (\<open>check_status\<close>) or as a stream that polls until all have (\<open>wait_for\<close>).
\<close>

section \<open>Result rows\<close>

record result_row =
  rr_id :: string
  rr_status :: string
  rr_result :: "json option"

record 'o task_result =
  res_id :: string
  res_status :: status
  res_value :: "string + 'o"

text \<open>
  \<open>record::id\<close>: the requested ids are string keys, and so are the ids of the rows read by
  them; the value for other keys is not used.
\<close>

fun key_text :: "record_key \<Rightarrow> string" where
  "key_text (StringKey s) = s"
| "key_text (OtherKey _) = ''''"

definition to_result_row :: "job \<Rightarrow> result_row" where
  "to_result_row j =
     \<lparr>rr_id = key_text (job_id j), rr_status = status_text (status j), rr_result = last_result j\<rparr>"

definition completed_stmt :: "record_key list \<Rightarrow> result_row list stmt" where
  "completed_stmt ks now d =
     Inr (map to_result_row (filter terminal (List.map_filter (lookup_job d) ks)), d)"

text \<open>
  Parsing an id and a status and deserialising a result belong to other crates: arguments,
  with the texts of their errors.
\<close>

record 'o result_codec =
  parse_id :: "string \<Rightarrow> string + string"
  parse_status :: "string \<Rightarrow> string + status"
  parse_result :: "json \<Rightarrow> string + (string + 'o)"

definition into_task_result :: "'o result_codec \<Rightarrow> result_row \<Rightarrow> surreal_error + 'o task_result" where
  "into_task_result c row =
     (case parse_id c (rr_id row) of
        Inl e \<Rightarrow> Inl (Decode e)
      | Inr ident \<Rightarrow>
          (case parse_status c (rr_status row) of
             Inl e \<Rightarrow> Inl (Decode e)
           | Inr s \<Rightarrow>
               (case parse_result c (case rr_result row of Some v \<Rightarrow> v | None \<Rightarrow> JNull) of
                  Inl e \<Rightarrow> Inl (Decode e)
                | Inr r \<Rightarrow> Inr \<lparr>res_id = ident, res_status = s, res_value = r\<rparr>)))"

section \<open>The stream\<close>

text \<open>The record keys of the ids asked for.\<close>

definition record_ids :: "string list \<Rightarrow> record_key list" where
  "record_ids ids = map StringKey ids"

declare record_ids_def [simp]

text \<open>
  One step of \<open>stream::unfold\<close>: \<open>None\<close> ends the stream, otherwise the items to yield and the
  ids still awaited. The set of ids is a list without duplicates.
\<close>

definition wait_step ::
  "env \<Rightarrow> 'o result_codec \<Rightarrow> string list \<Rightarrow> world
    \<Rightarrow> ((surreal_error + 'o task_result) list \<times> string list) option \<times> world" where
  "wait_step env c remaining w =
     (if remaining = [] then (None, w)
      else
        (case query env (completed_stmt (record_ids remaining)) w of
           (resp, w') \<Rightarrow>
             (case take_rows resp of
                Inl e \<Rightarrow> (Some ([Inl e], []), w')
              | Inr rows \<Rightarrow>
                  (if rows = [] then (Some ([], remaining), w')
                   else (Some (map (into_task_result c) rows,
                               fold (\<lambda>row. removeAll (rr_id row)) rows remaining), w')))))"

text \<open>
  The first \<open>n\<close> steps: the items in order, and the ids still awaited, \<open>None\<close> when the stream
  has ended.
\<close>

fun wait_steps ::
  "env \<Rightarrow> 'o result_codec \<Rightarrow> nat \<Rightarrow> string list \<Rightarrow> world
    \<Rightarrow> (surreal_error + 'o task_result) list \<times> string list option \<times> world" where
  "wait_steps env c 0 remaining w = ([], Some remaining, w)"
| "wait_steps env c (Suc n) remaining w =
     (case wait_step env c remaining w of
        (None, w') \<Rightarrow> ([], None, w')
      | (Some (items, remaining'), w') \<Rightarrow>
          (case wait_steps env c n remaining' w' of (items', r) \<Rightarrow> (items @ items', r)))"

definition wait_for ::
  "env \<Rightarrow> 'o result_codec \<Rightarrow> nat \<Rightarrow> string list \<Rightarrow> world
    \<Rightarrow> (surreal_error + 'o task_result) list \<times> string list option \<times> world" where
  "wait_for env c n task_ids w = wait_steps env c n (remdups task_ids) w"

section \<open>The single check\<close>

text \<open>\<open>collect\<close> of results into a result: the first error, or all values.\<close>

fun collect_results :: "('e + 'a) list \<Rightarrow> 'e + 'a list" where
  "collect_results [] = Inr []"
| "collect_results (Inl e # xs) = Inl e"
| "collect_results (Inr x # xs) =
     (case collect_results xs of Inl e \<Rightarrow> Inl e | Inr ys \<Rightarrow> Inr (x # ys))"

lemma collect_results_map: "collect_results (map Inr ys) = Inr ys"
  by (induction ys) simp_all

lemma collect_results_Inr: "collect_results xs = Inr ys \<longleftrightarrow> xs = map Inr ys"
proof
  show "collect_results xs = Inr ys \<Longrightarrow> xs = map Inr ys"
    by (induction xs arbitrary: ys rule: collect_results.induct) (auto split: sum.splits)
qed (simp add: collect_results_map)

definition check_status ::
  "env \<Rightarrow> 'o result_codec \<Rightarrow> string list \<Rightarrow> world
    \<Rightarrow> (surreal_error + 'o task_result list) \<times> world" where
  "check_status env c task_ids w =
     (case query env (completed_stmt (record_ids task_ids)) w of
        (resp, w') \<Rightarrow>
          (case take_rows resp of
             Inl e \<Rightarrow> (Inl e, w')
           | Inr rows \<Rightarrow> (collect_results (map (into_task_result c) rows), w')))"

section \<open>What a step reports\<close>

definition finished :: "db \<Rightarrow> string \<Rightarrow> bool" where
  "finished d i \<longleftrightarrow> (case lookup_job d (StringKey i) of Some j \<Rightarrow> terminal j | None \<Rightarrow> False)"

definition completed_rows :: "db \<Rightarrow> string list \<Rightarrow> result_row list" where
  "completed_rows d is =
     map to_result_row (filter terminal (List.map_filter (lookup_job d) (map StringKey is)))"

lemma lookup_job_key: "lookup_job d (StringKey i) = Some j \<Longrightarrow> job_id j = StringKey i"
  using lookup_job_Some by blast

lemma completed_rows_ids: "map rr_id (completed_rows d is) = filter (finished d) is"
  by (induction "is")
     (auto simp: completed_rows_def List.map_filter_simps finished_def to_result_row_def
       dest: lookup_job_key split: option.splits)

lemma fold_removeAll: "fold (\<lambda>row. removeAll (rr_id row)) rows xs = filter (\<lambda>x. x \<notin> rr_id ` set rows) xs"
proof (induction rows arbitrary: xs)
  case (Cons r rows)
  have "fold (\<lambda>row. removeAll (rr_id row)) (r # rows) xs =
      filter (\<lambda>x. x \<notin> rr_id ` set rows) (removeAll (rr_id r) xs)"
    by (simp only: fold_simps Cons.IH)
  also have "\<dots> = filter (\<lambda>x. x \<notin> rr_id ` set (r # rows)) xs"
    unfolding removeAll_filter_not_eq filter_filter by (rule filter_cong) auto
  finally show ?case .
qed simp

text \<open>A step with a clean reply reports the finished ids and keeps the others.\<close>

lemma wait_step_Rows:
  assumes "remaining \<noteq> []"
    and "query env (completed_stmt (map StringKey remaining)) w = (Rows rows, w')"
  shows "wait_step env c remaining w =
    (Some (map (into_task_result c) (completed_rows (arrives env w 0) remaining),
           filter (\<lambda>i. \<not> finished (arrives env w 0) i) remaining), w') \<and>
    store w' = arrives env w 0 \<and> trips w' = Suc (trips w)"
proof -
  let ?d = "arrives env w 0"
  have rows: "rows = completed_rows ?d remaining" and w': "store w' = ?d"
    using query_Rows [OF assms(2)] by (auto simp: completed_stmt_def completed_rows_def)
  have ids: "rr_id ` set rows = set (filter (finished ?d) remaining)"
    by (metis rows completed_rows_ids set_map)
  have rest: "fold (\<lambda>row. removeAll (rr_id row)) rows remaining =
      filter (\<lambda>i. \<not> finished ?d i) remaining"
    unfolding fold_removeAll ids by (rule filter_cong) auto
  have "filter (\<lambda>i. \<not> finished ?d i) remaining = remaining" if "rows = []"
  proof -
    have "filter (finished ?d) remaining = []"
      using that completed_rows_ids [of ?d remaining] rows by simp
    then show ?thesis by (simp add: filter_empty_conv filter_id_conv)
  qed
  with assms rest rows w' query_trips [OF assms(2)] show ?thesis
    by (auto simp: wait_step_def)
qed

lemma wait_step_Nil: "wait_step env c [] w = (None, w)"
  by (simp add: wait_step_def)

lemma wait_step_cases:
  assumes "remaining \<noteq> []"
  obtains (report) w' where "wait_step env c remaining w =
      (Some (map (into_task_result c) (completed_rows (arrives env w 0) remaining),
             filter (\<lambda>i. \<not> finished (arrives env w 0) i) remaining), w')"
      "store w' = arrives env w 0" "trips w' = Suc (trips w)"
  | (failure) e w' where "wait_step env c remaining w = (Some ([Inl e], []), w')"
proof (cases "query env (completed_stmt (map StringKey remaining)) w")
  case (Pair resp w')
  show ?thesis
  proof (cases resp)
    case (Rows rows)
    with wait_step_Rows [OF assms, of env w rows w' c] Pair show ?thesis by (intro report) auto
  next
    case (Errors e es)
    with assms Pair show ?thesis
      by (intro failure [of "Database (snd e)" w']) (cases e, simp add: wait_step_def)
  next
    case (Transport e)
    with assms Pair show ?thesis by (intro failure [of "Database e" w']) (simp add: wait_step_def)
  qed
qed

text \<open>The ids a list of items reports, for a codec that reads an id as itself.\<close>

fun reported :: "surreal_error + 'o task_result \<Rightarrow> string list" where
  "reported (Inr r) = [res_id r]"
| "reported (Inl _) = []"

text \<open>
  The ids asked for are the texts of task ids: one that the parser accepts reads back as itself.
  Nothing is said of other strings, which it may reject.
\<close>

definition canonical_ids :: "'o result_codec \<Rightarrow> string list \<Rightarrow> bool" where
  "canonical_ids c ids \<longleftrightarrow> (\<forall>i \<in> set ids. \<forall>i'. parse_id c i = Inr i' \<longrightarrow> i' = i)"

lemma reported_row:
  "canonical_ids c ids \<Longrightarrow> rr_id row \<in> set ids \<Longrightarrow> set (reported (into_task_result c row)) \<subseteq> {rr_id row}"
  by (auto simp: into_task_result_def canonical_ids_def split: sum.splits)

lemma reported_distinct:
  assumes "canonical_ids c ids" and "distinct (map rr_id rows)" and "set (map rr_id rows) \<subseteq> set ids"
  shows "distinct (concat (map reported (map (into_task_result c) rows))) \<and>
    set (concat (map reported (map (into_task_result c) rows))) \<subseteq> set (map rr_id rows)"
  using assms(2,3)
proof (induction rows)
  case (Cons row rows)
  have "distinct (reported x)" for x :: "surreal_error + 'a task_result" by (cases x) simp_all
  with Cons reported_row [OF assms(1), of row] show ?case by auto
qed simp

section \<open>Properties\<close>

text \<open>Distinct ids among those asked for, none of which is still awaited.\<close>

definition once_among :: "string list \<Rightarrow> string list \<Rightarrow> string list option \<Rightarrow> bool" where
  "once_among ids rs rest \<longleftrightarrow> distinct rs \<and> set rs \<subseteq> set ids \<and>
     (\<forall>r. rest = Some r \<longrightarrow> set r \<subseteq> set ids \<and> set rs \<inter> set r = {})"

lemma once_among_append:
  "distinct rs \<Longrightarrow> set rs \<subseteq> set (filter P ids) \<Longrightarrow> once_among (filter (\<lambda>i. \<not> P i) ids) rs' rest \<Longrightarrow>
    once_among ids (rs @ rs') rest"
  by (auto simp: once_among_def)

lemma wait_steps_Nil: "wait_steps env c n [] w = (items, rest, w') \<Longrightarrow> items = [] \<and> (\<forall>r. rest = Some r \<longrightarrow> r = [])"
  by (cases n) (auto simp: wait_step_Nil)

lemma wait_steps_report_once:
  "wait_steps env c n ids w = (items, rest, w') \<Longrightarrow> distinct ids \<Longrightarrow> canonical_ids c ids \<Longrightarrow>
    once_among ids (concat (map reported items)) rest"
proof (induction n arbitrary: ids w items)
  case (Suc n)
  show ?case
  proof (cases "ids = []")
    case True
    with Suc.prems(1) show ?thesis by (auto simp: wait_step_Nil once_among_def)
  next
    case False
    then show ?thesis
    proof (cases rule: wait_step_cases [where env = env and c = c and w = w])
      case (report w1)
      let ?d = "arrives env w 0"
      let ?new = "map (into_task_result c) (completed_rows ?d ids)"
      obtain items' where r: "wait_steps env c n (filter (\<lambda>i. \<not> finished ?d i) ids) w1 = (items', rest, w')"
        "items = ?new @ items'"
        using Suc.prems(1) report(1) by (auto split: prod.splits)
      have "distinct (map rr_id (completed_rows ?d ids))" using Suc.prems(2) by (simp add: completed_rows_ids)
      moreover have "set (map rr_id (completed_rows ?d ids)) \<subseteq> set ids" by (auto simp: completed_rows_ids)
      moreover note reported_distinct [OF Suc.prems(3), of "completed_rows ?d ids"]
      ultimately
      have "distinct (concat (map reported ?new))" "set (concat (map reported ?new)) \<subseteq> set (filter (finished ?d) ids)"
        by (simp_all only: completed_rows_ids)
      moreover have "canonical_ids c (filter (\<lambda>i. \<not> finished ?d i) ids)"
        using Suc.prems(3) by (simp add: canonical_ids_def)
      ultimately show ?thesis
        using once_among_append [OF _ _ Suc.IH [OF r(1)]] Suc.prems(2) by (simp add: r(2))
    next
      case (failure e w1)
      with Suc.prems(1) wait_steps_Nil [of env c n w1] show ?thesis
        by (fastforce simp: once_among_def split: prod.splits)
    qed
  qed
qed (auto simp: once_among_def)

text \<open>C35. Each task is reported at most once: over any number of steps and whatever the engine and the other clients do, if the ids asked for are canonical (an id among them that the parser of task ids accepts reads back as itself, as the text of a task id does), the ids of the results handed out are distinct, were asked for, and are not awaited any more.\<close>

theorem wait_for_reports_once:
  assumes "canonical_ids c ids" and "wait_for env c n ids w = (items, rest, w')"
  shows "distinct (concat (map reported items)) \<and> set (concat (map reported items)) \<subseteq> set ids \<and>
    (\<forall>r. rest = Some r \<longrightarrow> set (concat (map reported items)) \<inter> set r = {})"
  using wait_steps_report_once [OF assms(2) [unfolded wait_for_def]] assms(1)
  by (auto simp: once_among_def canonical_ids_def)

lemma wait_step_responsive:
  assumes "responsive env" and "remaining \<noteq> []"
  shows "\<exists>w'. wait_step env c remaining w =
      (Some (map (into_task_result c) (completed_rows (arrives env w 0) remaining),
             filter (\<lambda>i. \<not> finished (arrives env w 0) i) remaining), w') \<and>
    store w' = arrives env w 0 \<and> trips w' = Suc (trips w)"
proof -
  have "\<exists>rows w'. query env (completed_stmt (map StringKey remaining)) w = (Rows rows, w')"
    using assms(1) by (auto simp: query_def Let_def responsive_def completed_stmt_def)
  with wait_step_Rows [OF assms(2)] show ?thesis by blast
qed

lemma wait_steps_end:
  assumes "responsive env" and "\<forall>k \<ge> K. \<forall>i \<in> set is. finished (arrives env w k) i"
  shows "\<exists>items w'. wait_steps env c (Suc (Suc K)) is w = (items, None, w') \<and> length items = length is"
  using assms(2)
proof (induction K arbitrary: "is" w)
  case 0
  show ?case
  proof (cases "is = []")
    case False
    obtain w1 where st: "wait_step env c is w =
        (Some (map (into_task_result c) (completed_rows (arrives env w 0) is),
           filter (\<lambda>i. \<not> finished (arrives env w 0) i) is), w1)"
      using wait_step_responsive [OF assms(1) False, of c w] by blast
    have all: "\<forall>i \<in> set is. finished (arrives env w 0) i" using 0 by blast
    then have "filter (\<lambda>i. \<not> finished (arrives env w 0) i) is = []" by (simp add: filter_empty_conv)
    moreover have "length (completed_rows (arrives env w 0) is) = length is"
      using completed_rows_ids [of "arrives env w 0" "is"] all
      by (metis filter_True length_map)
    ultimately show ?thesis using st by (simp add: wait_step_Nil)
  qed (simp add: wait_step_Nil)
next
  case (Suc K)
  show ?case
  proof (cases "is = []")
    case False
    let ?d = "arrives env w 0" and ?rest = "filter (\<lambda>i. \<not> finished (arrives env w 0) i) is"
    obtain w1 where st: "wait_step env c is w =
        (Some (map (into_task_result c) (completed_rows ?d is), ?rest), w1)"
      and w1: "store w1 = ?d" "trips w1 = Suc (trips w)"
      using wait_step_responsive [OF assms(1) False, of c w] by blast
    have "arrives env w1 k = arrives env w (Suc k)" for k
      using w1 by (intro arrives_Suc) simp_all
    with Suc.prems have "\<forall>k \<ge> K. \<forall>i \<in> set ?rest. finished (arrives env w1 k) i" by simp
    from Suc.IH [OF this] obtain items w' where
      r: "wait_steps env c (Suc (Suc K)) ?rest w1 = (items, None, w')" "length items = length ?rest"
      by blast
    have "length (completed_rows ?d is) = length (filter (finished ?d) is)"
      by (metis completed_rows_ids length_map)
    moreover have "length (filter (finished ?d) is) + length ?rest = length is"
      by (rule sum_length_filter_compl)
    ultimately show ?thesis using st r by simp
  qed (simp add: wait_step_Nil)
qed

text \<open>C34. Waiting ends: on an engine that answers, when every awaited task is finished from the K-th request on, the stream is over after K+2 steps, with exactly one item per awaited task.\<close>

theorem wait_for_ends:
  assumes "responsive env" and "\<forall>k \<ge> K. \<forall>i \<in> set ids. finished (arrives env w k) i"
  shows "\<exists>items w'. wait_for env c (Suc (Suc K)) ids w = (items, None, w') \<and>
    length items = card (set ids)"
  using wait_steps_end [OF assms(1), of K "remdups ids" w c] assms(2)
  by (simp only: wait_for_def set_remdups length_remdups_card_conv)

text \<open>Waiting for a task that is not in the table (never pushed, or purged by a vacuum) does not end: on an engine that answers, after any number of steps the stream is still waiting for it and has reported nothing of it.\<close>

lemma wait_for_unknown_waits_forever:
  assumes "responsive env" and "\<forall>k. lookup_job (arrives env w k) (StringKey i) = None"
    and "i \<in> set ids"
  shows "\<exists>items rest w'. wait_for env c n ids w = (items, Some rest, w') \<and> i \<in> set rest"
proof -
  have "\<exists>items rest w'. wait_steps env c n is w = (items, Some rest, w') \<and> i \<in> set rest"
    if "i \<in> set is" "\<forall>k. lookup_job (arrives env w k) (StringKey i) = None" for "is" w
    using that
  proof (induction n arbitrary: "is" w)
    case (Suc n)
    let ?rest = "filter (\<lambda>i. \<not> finished (arrives env w 0) i) is"
    from Suc.prems(1) have "is \<noteq> []" by auto
    then obtain w1 where st: "wait_step env c is w =
        (Some (map (into_task_result c) (completed_rows (arrives env w 0) is), ?rest), w1)"
      and w1: "store w1 = arrives env w 0" "trips w1 = Suc (trips w)"
      using wait_step_responsive [OF assms(1), of "is" c w] by blast
    have "arrives env w1 k = arrives env w (Suc k)" for k
      using w1 by (intro arrives_Suc) simp_all
    then have "\<forall>k. lookup_job (arrives env w1 k) (StringKey i) = None" using Suc.prems(2) by simp
    moreover have "i \<in> set ?rest"
      using Suc.prems(1) spec [OF Suc.prems(2), of 0] by (simp add: finished_def)
    ultimately obtain items rest w' where
      "wait_steps env c n ?rest w1 = (items, Some rest, w')" "i \<in> set rest"
      using Suc.IH by blast
    with st show ?case by simp
  qed simp
  from this [of "remdups ids" w] assms(2,3) show ?thesis by (simp add: wait_for_def)
qed

text \<open>A single status check reports, for the finished tasks among the ids and in the order asked, their status and stored result, and nothing for the others: on an undisturbed engine and with results the codec reads it succeeds without changing any table.\<close>

lemma check_status_reports_finished:
  assumes "\<forall>i \<in> set ids. parse_id c i = Inr i" and "\<forall>s. parse_status c (status_text s) = Inr s"
    and "\<forall>v. parse_result c v = Inr (val v)"
  shows "check_status (calm now) c ids w =
    (Inr (map (\<lambda>i. let j = the (lookup_job (store w) (StringKey i)) in
              \<lparr>res_id = i, res_status = status j,
               res_value = val (case last_result j of Some v \<Rightarrow> v | None \<Rightarrow> JNull)\<rparr>)
            (filter (finished (store w)) ids)),
     w\<lparr>trips := Suc (trips w)\<rparr>)"
proof -
  let ?d = "store w"
  let ?f = "\<lambda>i. let j = the (lookup_job ?d (StringKey i)) in
      \<lparr>res_id = i, res_status = status j,
       res_value = val (case last_result j of Some v \<Rightarrow> v | None \<Rightarrow> JNull)\<rparr>"
  have rows: "map (into_task_result c) (completed_rows ?d ids) =
      map Inr (map ?f (filter (finished ?d) ids))"
    using assms
    by (induction ids)
       (auto simp: completed_rows_def List.map_filter_simps finished_def to_result_row_def
         into_task_result_def Let_def dest: lookup_job_key split: option.splits)
  have "query (calm now) (completed_stmt (map StringKey ids)) w =
      (Rows (completed_rows ?d ids), w\<lparr>store := ?d, trips := Suc (trips w)\<rparr>)"
    by (rule query_calm) (simp add: completed_stmt_def completed_rows_def)
  then show ?thesis unfolding check_status_def record_ids_def by (simp only: prod.case take_rows.simps sum.case rows collect_results_map) simp
qed

section \<open>Witnesses\<close>

text \<open>The texts of ULIDs: 26 digits of base 32, read in either case, the first at most 7.\<close>

definition ulid_digits :: string where
  "ulid_digits = ''0123456789ABCDEFGHJKMNPQRSTVWXYZ''"

definition upper :: "char \<Rightarrow> char" where
  "upper c = (if of_char c \<ge> (97 :: nat) \<and> of_char c \<le> (122 :: nat) then char_of (of_char c - 32 :: nat) else c)"

definition parse_ulid :: "string \<Rightarrow> string + string" where
  "parse_ulid s =
     (let u = map upper s in
      if length u = 26 \<and> list_all (\<lambda>c. c \<in> set ulid_digits) u \<and> hd u \<in> set (take 8 ulid_digits)
      then Inr u else Inl ''invalid id'')"

definition sample_codec :: "json result_codec" where
  "sample_codec =
     \<lparr>parse_id = parse_ulid,
      parse_status = (\<lambda>s. if s = ''Pending'' then Inr Pending else if s = ''Queued'' then Inr Queued
        else if s = ''Running'' then Inr Running else if s = ''Done'' then Inr Done
        else if s = ''Failed'' then Inr Failed else if s = ''Killed'' then Inr Killed
        else Inl ''unknown status''),
      parse_result = (\<lambda>v. Inr (Inr v))\<rparr>"

definition done_job :: job where
  "done_job =
     (new_job sample_row)\<lparr>job_id := StringKey ''01ARZ3NDEKTSV4RRFFQ69G5FAV'', status := Done, attempts := 1, lock_by := Some ''w1'',
       lock_at := Some 6000000000, done_at := Some 7000000000, last_result := Some (ok_object JNull)\<rparr>"

definition done_world :: world where
  "done_world =
     \<lparr>store = \<lparr>jobs = [done_job, new_job poison_row], workers = [], meta_version = None\<rparr>, trips = 0\<rparr>"

lemma responsive_calm: "responsive (calm now)"
  by (simp add: responsive_def calm_def)

lemma done_finished: "finished (store done_world) ''01ARZ3NDEKTSV4RRFFQ69G5FAV''"
  by (simp add: finished_def done_world_def lookup_job_def done_job_def sample_row_def terminal_def)

text \<open>Two canonical ids and a string that is no id.\<close>

definition sample_ids :: "string list" where
  "sample_ids = [''01ARZ3NDEKTSV4RRFFQ69G5FAV'', ''01ARZ3NDEKTSV4RRFFQ69G5FAW'', ''01A'']"

lemma sample_canonical: "canonical_ids sample_codec sample_ids"
proof -
  have "parse_ulid ''01ARZ3NDEKTSV4RRFFQ69G5FAV'' = Inr ''01ARZ3NDEKTSV4RRFFQ69G5FAV''"
    "parse_ulid ''01ARZ3NDEKTSV4RRFFQ69G5FAW'' = Inr ''01ARZ3NDEKTSV4RRFFQ69G5FAW''"
    "parse_ulid ''01A'' = Inl ''invalid id''" by code_simp+
  then show ?thesis by (simp add: canonical_ids_def sample_codec_def sample_ids_def)
qed

theorem wait_for_reports_once_witness:
  "\<exists>items rest w'. wait_for (calm 0) sample_codec 3 sample_ids done_world = (items, rest, w') \<and>
    items = [Inr \<lparr>res_id = ''01ARZ3NDEKTSV4RRFFQ69G5FAV'', res_status = Done, res_value = Inr (ok_object JNull)\<rparr>] \<and>
    distinct (concat (map reported items)) \<and>
    (\<forall>r. rest = Some r \<longrightarrow> ''01ARZ3NDEKTSV4RRFFQ69G5FAV'' \<notin> set r)"
proof -
  obtain items rest w' where w: "wait_for (calm 0) sample_codec 3 sample_ids done_world = (items, rest, w')"
    by (metis prod_cases3)
  have "fst (wait_for (calm 0) sample_codec 3 sample_ids done_world) = [Inr \<lparr>res_id = ''01ARZ3NDEKTSV4RRFFQ69G5FAV'', res_status = Done,
      res_value = Inr (ok_object JNull)\<rparr>]"
    by code_simp
  with w wait_for_reports_once [OF sample_canonical w] show ?thesis by auto
qed

theorem wait_for_ends_witness:
  "\<exists>items w'. wait_for (calm 0) sample_codec 2 [''01ARZ3NDEKTSV4RRFFQ69G5FAV'', ''01ARZ3NDEKTSV4RRFFQ69G5FAV''] done_world =
      (items, None, w') \<and> length items = 1"
  using wait_for_ends [OF responsive_calm, of 0 "[''01ARZ3NDEKTSV4RRFFQ69G5FAV'', ''01ARZ3NDEKTSV4RRFFQ69G5FAV'']" 0
      done_world sample_codec] done_finished
  by (simp add: arrives_calm numeral_2_eq_2)

end
