(* ===== verification/Metrics.thy ===== *)
theory Metrics
  imports Wait_For
begin

text \<open>
  Statistics for the dashboard: \<open>src/queries/metrics.rs\<close> and \<open>src/queries/list_queues.rs\<close>.
  Arithmetic on \<open>f64\<close>, the interpretation of a statistic's type and the engine's difference of
  two instants in seconds are arguments.
\<close>

section \<open>The aggregates\<close>

record overview_row =
  ov_total :: int
  ov_pending :: int
  ov_running :: int
  ov_failed :: int
  ov_done :: int
  ov_killed :: int
  ov_backlog :: int
  ov_past_hour :: int
  ov_finished :: int
  ov_dur_secs :: int

definition overview_default :: overview_row where
  "overview_default =
     \<lparr>ov_total = 0, ov_pending = 0, ov_running = 0, ov_failed = 0, ov_done = 0, ov_killed = 0,
      ov_backlog = 0, ov_past_hour = 0, ov_finished = 0, ov_dur_secs = 0\<rparr>"

definition count_where :: "(job \<Rightarrow> bool) \<Rightarrow> job list \<Rightarrow> int" where
  "count_where P js = int (length (filter P js))"

definition is_finished :: "job \<Rightarrow> bool" where
  "is_finished j \<longleftrightarrow> status j \<in> {Done, Failed, Killed} \<and> done_at j \<noteq> None \<and> lock_at j \<noteq> None"

definition aggregate :: "(time \<Rightarrow> time \<Rightarrow> int) \<Rightarrow> time \<Rightarrow> job list \<Rightarrow> overview_row" where
  "aggregate secs_between now js =
     \<lparr>ov_total = count_where (\<lambda>_. True) js,
      ov_pending = count_where (\<lambda>j. status j = Pending) js,
      ov_running = count_where (\<lambda>j. status j = Running) js,
      ov_failed = count_where (\<lambda>j. status j = Failed) js,
      ov_done = count_where (\<lambda>j. status j = Done) js,
      ov_killed = count_where (\<lambda>j. status j = Killed) js,
      ov_backlog = count_where (\<lambda>j. status j = Pending \<and> run_at j \<le> now) js,
      ov_past_hour = count_where (\<lambda>j. run_at j \<ge> now - 3600 * nanos_per_sec) js,
      ov_finished = count_where is_finished js,
      ov_dur_secs = sum_list (map (\<lambda>j. if is_finished j
          then secs_between (the (lock_at j)) (the (done_at j)) else 0) js)\<rparr>"

text \<open>\<open>math::min(time::unix(run_at))\<close> over the due pending jobs; over no job it is no integer.\<close>

definition oldest_of :: "time \<Rightarrow> job list \<Rightarrow> int option" where
  "oldest_of now js =
     (case map (\<lambda>j. run_at j div nanos_per_sec)
             (filter (\<lambda>j. status j = Pending \<and> run_at j \<le> now) js) of
        [] \<Rightarrow> None
      | x # xs \<Rightarrow> Some (fold min xs x))"

text \<open>\<open>GROUP ALL\<close>: one row, or none when nothing is selected.\<close>

definition overview_stmt :: "(time \<Rightarrow> time \<Rightarrow> int) \<Rightarrow> (job \<Rightarrow> bool) \<Rightarrow> overview_row list stmt" where
  "overview_stmt secs_between P now d =
     Inr (if filter P (jobs d) = [] then [] else [aggregate secs_between now (filter P (jobs d))], d)"

definition oldest_stmt :: "(job \<Rightarrow> bool) \<Rightarrow> int option list stmt" where
  "oldest_stmt P now d = Inr ([oldest_of now (filter P (jobs d))], d)"

section \<open>Statistics\<close>

record 't statistic =
  st_title :: string
  st_type :: 't
  st_value :: string
  st_priority :: "nat option"

record 'f float_ops =
  f_of_int :: "int \<Rightarrow> 'f"
  f_mul :: "'f \<Rightarrow> 'f \<Rightarrow> 'f"
  f_div :: "'f \<Rightarrow> 'f \<Rightarrow> 'f"
  f_round :: "'f \<Rightarrow> 'f"
  f_text :: "'f \<Rightarrow> string"

fun nat_text :: "nat \<Rightarrow> string" where
  "nat_text n =
     (if n < 10 then [char_of (48 + n)] else nat_text (n div 10) @ [char_of (48 + n mod 10)])"

declare nat_text.simps [simp del]

definition int_text :: "int \<Rightarrow> string" where
  "int_text i = (if i < 0 then ''-'' @ nat_text (nat (- i)) else nat_text (nat i))"

definition stat :: "(string \<Rightarrow> 't) \<Rightarrow> string \<Rightarrow> string \<Rightarrow> string \<Rightarrow> nat \<Rightarrow> 't statistic" where
  "stat stat_type_of title type_name value prio =
     \<lparr>st_title = title, st_type = stat_type_of type_name, st_value = value, st_priority = Some prio\<rparr>"

definition round2 :: "'f float_ops \<Rightarrow> 'f \<Rightarrow> 'f" where
  "round2 F v = f_div F (f_round F (f_mul F v (f_of_int F 100))) (f_of_int F 100)"

definition build_statistics ::
  "'f float_ops \<Rightarrow> (string \<Rightarrow> 't) \<Rightarrow> overview_row \<Rightarrow> int option \<Rightarrow> 't statistic list" where
  "build_statistics F ty counts oldest_unix =
     (let success_rate =
            (if ov_total counts > 0
             then round2 F (f_div F (f_mul F (f_of_int F 100) (f_of_int F (ov_done counts)))
                     (f_of_int F (ov_total counts)))
             else f_of_int F 0);
          avg_duration =
            (if ov_finished counts > 0
             then round2 F (f_div F (f_div F (f_of_int F (ov_dur_secs counts))
                     (f_of_int F (ov_finished counts))) (f_of_int F 60))
             else f_of_int F 0)
      in [stat ty ''PENDING_JOBS'' ''Number'' (int_text (ov_pending counts)) 1,
          stat ty ''RUNNING_JOBS'' ''Number'' (int_text (ov_running counts)) 1,
          stat ty ''FAILED_JOBS'' ''Number'' (int_text (ov_failed counts)) 2,
          stat ty ''JOBS_PAST_HOUR'' ''Number'' (int_text (ov_past_hour counts)) 3,
          stat ty ''TOTAL_JOBS'' ''Number'' (int_text (ov_total counts)) 4,
          stat ty ''DONE_JOBS'' ''Number'' (int_text (ov_done counts)) 4,
          stat ty ''KILLED_JOBS'' ''Number'' (int_text (ov_killed counts)) 4,
          stat ty ''SUCCESS_RATE'' ''Percentage'' (f_text F success_rate) 4,
          stat ty ''AVG_JOB_DURATION_MINS'' ''Decimal'' (f_text F avg_duration) 5,
          stat ty ''QUEUE_BACKLOG'' ''Number'' (int_text (ov_backlog counts)) 5,
          stat ty ''OLDEST_PENDING_JOB'' ''Timestamp''
            (int_text (case oldest_unix of Some n \<Rightarrow> n | None \<Rightarrow> 0)) 8])"

text \<open>
  A request of several statements: each is a round trip of the model, a lost reply fails the
  request, and errors are met when the results are taken, in order.
\<close>

definition statistics_of ::
  "env \<Rightarrow> 'f float_ops \<Rightarrow> (string \<Rightarrow> 't) \<Rightarrow> (time \<Rightarrow> time \<Rightarrow> int) \<Rightarrow> (job \<Rightarrow> bool) \<Rightarrow> world
    \<Rightarrow> (surreal_error + 't statistic list) \<times> world" where
  "statistics_of env F ty secs_between P w =
     (case query env (overview_stmt secs_between P) w of
        (Transport e, w1) \<Rightarrow> (Inl (Database e), w1)
      | (resp1, w1) \<Rightarrow>
          (case query env (oldest_stmt P) w1 of
             (Transport e, w2) \<Rightarrow> (Inl (Database e), w2)
           | (resp2, w2) \<Rightarrow>
               (case take_rows resp1 of
                  Inl e \<Rightarrow> (Inl e, w2)
                | Inr rows \<Rightarrow>
                    (let counts = (case rows of r # _ \<Rightarrow> r | [] \<Rightarrow> overview_default) in
                     case take_rows resp2 of
                       Inl e \<Rightarrow> (Inl e, w2)
                     | Inr olds \<Rightarrow>
                         (Inr (build_statistics F ty counts
                            (case olds of x # _ \<Rightarrow> x | [] \<Rightarrow> None)), w2)))))"

definition global ::
  "env \<Rightarrow> 'f float_ops \<Rightarrow> (string \<Rightarrow> 't) \<Rightarrow> (time \<Rightarrow> time \<Rightarrow> int) \<Rightarrow> world
    \<Rightarrow> (surreal_error + 't statistic list) \<times> world" where
  "global env F ty secs_between w = statistics_of env F ty secs_between (\<lambda>_. True) w"

definition fetch_by_queue ::
  "env \<Rightarrow> 'f float_ops \<Rightarrow> (string \<Rightarrow> 't) \<Rightarrow> (time \<Rightarrow> time \<Rightarrow> int) \<Rightarrow> config \<Rightarrow> world
    \<Rightarrow> (surreal_error + 't statistic list) \<times> world" where
  "fetch_by_queue env F ty secs_between cfg w =
     statistics_of env F ty secs_between (\<lambda>j. queue j = cfg_queue cfg) w"

section \<open>Queues: \<open>list_queues\<close>\<close>

definition SECS_PER_DAY :: int where
  "SECS_PER_DAY = 86400"

definition ACTIVITY_DAYS :: int where
  "ACTIVITY_DAYS = 7"

text \<open>The counts of a queue: an overview row that also names its queue.\<close>

record queue_counts_row = overview_row +
  qc_queue :: string

definition overview_from :: "queue_counts_row \<Rightarrow> overview_row" where
  "overview_from row =
     \<lparr>ov_total = ov_total row, ov_pending = ov_pending row, ov_running = ov_running row,
      ov_failed = ov_failed row, ov_done = ov_done row, ov_killed = ov_killed row,
      ov_backlog = ov_backlog row, ov_past_hour = ov_past_hour row,
      ov_finished = ov_finished row, ov_dur_secs = ov_dur_secs row\<rparr>"

record queue_oldest_row =
  qo_queue :: string
  qo_oldest_unix :: "int option"

record activity_row =
  ar_queue :: string
  ar_day :: int
  ar_done_count :: int

record queue_worker_row =
  qw_name :: record_key
  qw_queue :: string

text \<open>The groups of \<open>GROUP BY queue\<close>, in the order in which they first occur.\<close>

definition queue_names :: "job list \<Rightarrow> string list" where
  "queue_names js = remdups (map queue js)"

definition counts_of :: "(time \<Rightarrow> time \<Rightarrow> int) \<Rightarrow> time \<Rightarrow> job list \<Rightarrow> string \<Rightarrow> queue_counts_row" where
  "counts_of secs_between now js q =
     overview_row.extend (aggregate secs_between now (filter (\<lambda>j. queue j = q) js))
       (queue_counts_row.fields q)"

definition queue_counts_stmt :: "(time \<Rightarrow> time \<Rightarrow> int) \<Rightarrow> queue_counts_row list stmt" where
  "queue_counts_stmt secs_between now d =
     Inr (map (counts_of secs_between now (jobs d)) (queue_names (jobs d)), d)"

definition queue_oldest_stmt :: "queue_oldest_row list stmt" where
  "queue_oldest_stmt now d =
     (let due_jobs = filter (\<lambda>j. status j = Pending \<and> run_at j \<le> now) (jobs d) in
      Inr (map (\<lambda>q. \<lparr>qo_queue = q, qo_oldest_unix = oldest_of now (filter (\<lambda>j. queue j = q) due_jobs)\<rparr>)
             (queue_names due_jobs), d))"

text \<open>\<open>time::unix(time::floor(done_at, 1d))\<close>.\<close>

definition day_of :: "time \<Rightarrow> int" where
  "day_of t = t div (SECS_PER_DAY * nanos_per_sec) * SECS_PER_DAY"

definition done_lately :: "time \<Rightarrow> job \<Rightarrow> bool" where
  "done_lately now j \<longleftrightarrow> status j = Done \<and>
     (case done_at j of None \<Rightarrow> False | Some t \<Rightarrow> t \<ge> now - 7 * 86400 * nanos_per_sec)"

definition activity_stmt :: "activity_row list stmt" where
  "activity_stmt now d =
     (let js = filter (done_lately now) (jobs d);
          key = (\<lambda>j. (queue j, day_of (the (done_at j))))
      in Inr (map (\<lambda>k. \<lparr>ar_queue = fst k, ar_day = snd k,
                       ar_done_count = int (length (filter (\<lambda>j. key j = k) js))\<rparr>)
                (remdups (map key js)), d))"

definition queue_workers_stmt :: "queue_worker_row list stmt" where
  "queue_workers_stmt now d =
     Inr (map (\<lambda>x. \<lparr>qw_name = worker_id x, qw_queue = worker_queue x\<rparr>) (workers d), d)"

record 't queue_info =
  qi_name :: string
  qi_stats :: "'t statistic list"
  qi_workers :: "string list"
  qi_activity :: "nat list"

text \<open>Division of \<open>i64\<close>s rounds towards zero.\<close>

definition i64_div :: "int \<Rightarrow> int \<Rightarrow> int" where
  "i64_div a b = sgn a * sgn b * (\<bar>a\<bar> div \<bar>b\<bar>)"

definition zero_days :: "nat list" where
  "zero_days = replicate (nat ACTIVITY_DAYS) 0"

text \<open>The indexed write \<open>days[i] = v\<close> panics (\<open>None\<close>) when \<open>i\<close> is out of bounds.\<close>

definition write_at :: "'a list \<Rightarrow> nat \<Rightarrow> 'a \<Rightarrow> 'a list option" where
  "write_at xs i v = (if i < length xs then Some (xs[i := v]) else None)"

definition slots :: "(string, nat list) btree \<Rightarrow> string \<Rightarrow> nat list" where
  "slots daily q = (case map_of daily q of Some ds \<Rightarrow> ds | None \<Rightarrow> zero_days)"

text \<open>The loop over the activity rows: one slot per day, the last one for today.\<close>

fun daily_loop :: "int \<Rightarrow> activity_row list \<Rightarrow> (string, nat list) btree \<Rightarrow> (string, nat list) btree option" where
  "daily_loop today [] daily = Some daily"
| "daily_loop today (row # rows) daily =
     (let offset = today - i64_div (ar_day row) SECS_PER_DAY in
      if 0 \<le> offset \<and> offset < ACTIVITY_DAYS
      then (case write_at (slots daily (ar_queue row)) (as_usize (ACTIVITY_DAYS - 1 - offset))
                   (as_usize (ar_done_count row)) of
              None \<Rightarrow> None
            | Some days \<Rightarrow> daily_loop today rows (bt_insert (ar_queue row) days daily))
      else daily_loop today rows daily)"

fun queue_infos ::
  "'f float_ops \<Rightarrow> (string \<Rightarrow> 't) \<Rightarrow> (string, int option) btree \<Rightarrow> queue_counts_row list
    \<Rightarrow> (string, nat list) btree \<Rightarrow> (string, 't queue_info) btree \<Rightarrow> (string, 't queue_info) btree" where
  "queue_infos F ty oldest [] daily queues = queues"
| "queue_infos F ty oldest (row # rows) daily queues =
     (let name = qc_queue row in
      queue_infos F ty oldest rows (bt_remove name daily)
        (bt_insert name
           \<lparr>qi_name = name,
            qi_stats = build_statistics F ty (overview_from row)
              (case map_of oldest name of Some x \<Rightarrow> x | None \<Rightarrow> None),
            qi_workers = [],
            qi_activity = slots daily name\<rparr> queues))"

fun add_workers ::
  "'f float_ops \<Rightarrow> (string \<Rightarrow> 't) \<Rightarrow> queue_worker_row list
    \<Rightarrow> (string, 't queue_info) btree \<Rightarrow> (string, 't queue_info) btree" where
  "add_workers F ty [] queues = queues"
| "add_workers F ty (row # rows) queues =
     add_workers F ty rows
       (bt_upsert (qw_queue row)
          (\<lambda>info. (let i = (case info of Some i \<Rightarrow> i
                    | None \<Rightarrow> \<lparr>qi_name = qw_queue row, qi_stats = build_statistics F ty overview_default None,
                               qi_workers = [], qi_activity = zero_days\<rparr>)
             in i\<lparr>qi_workers := qi_workers i @ [key_text (qw_name row)]\<rparr>)) queues)"

text \<open>The answer built from the four results, \<open>None\<close> a panic; \<open>now_secs\<close> is the client's clock.\<close>

definition queue_list ::
  "'f float_ops \<Rightarrow> (string \<Rightarrow> 't) \<Rightarrow> int \<Rightarrow> queue_counts_row list
    \<Rightarrow> queue_oldest_row list \<Rightarrow> activity_row list \<Rightarrow> queue_worker_row list \<Rightarrow> 't queue_info list option"
where
  "queue_list F ty now_secs counts olds acts wrks =
     (let oldest = fold (\<lambda>row. bt_insert (qo_queue row) (qo_oldest_unix row)) olds [] in
      case daily_loop (i64_div now_secs SECS_PER_DAY) acts [] of
        None \<Rightarrow> None
      | Some daily \<Rightarrow> Some (map snd (add_workers F ty wrks (queue_infos F ty oldest counts daily []))))"

definition list_queues ::
  "env \<Rightarrow> 'f float_ops \<Rightarrow> (string \<Rightarrow> 't) \<Rightarrow> (time \<Rightarrow> time \<Rightarrow> int) \<Rightarrow> int \<Rightarrow> world
    \<Rightarrow> ((surreal_error + 't queue_info list) \<times> world) option" where
  "list_queues env F ty secs_between now_secs w =
     (case query env (queue_counts_stmt secs_between) w of
        (Transport e, w1) \<Rightarrow> Some (Inl (Database e), w1)
      | (r0, w1) \<Rightarrow>
     (case query env queue_oldest_stmt w1 of
        (Transport e, w2) \<Rightarrow> Some (Inl (Database e), w2)
      | (r1, w2) \<Rightarrow>
     (case query env activity_stmt w2 of
        (Transport e, w3) \<Rightarrow> Some (Inl (Database e), w3)
      | (r2, w3) \<Rightarrow>
     (case query env queue_workers_stmt w3 of
        (Transport e, w4) \<Rightarrow> Some (Inl (Database e), w4)
      | (r3, w4) \<Rightarrow>
          (case take_rows r0 of
             Inl e \<Rightarrow> Some (Inl e, w4)
           | Inr counts \<Rightarrow>
          (case take_rows r1 of
             Inl e \<Rightarrow> Some (Inl e, w4)
           | Inr olds \<Rightarrow>
          (case take_rows r2 of
             Inl e \<Rightarrow> Some (Inl e, w4)
           | Inr acts \<Rightarrow>
          (case take_rows r3 of
             Inl e \<Rightarrow> Some (Inl e, w4)
           | Inr wrks \<Rightarrow>
               map_option (\<lambda>infos. (Inr infos, w4)) (queue_list F ty now_secs counts olds acts wrks)))))))))"

section \<open>Facts about the aggregates\<close>

lemma counts_of_simps [simp]:
  "qc_queue (counts_of secs_between now js q) = q"
  "overview_from (counts_of secs_between now js q) =
     aggregate secs_between now (filter (\<lambda>j. queue j = q) js)"
  by (simp_all add: counts_of_def overview_from_def aggregate_def overview_row.defs queue_counts_row.defs)

lemma count_where_split:
  "count_where P js = count_where (\<lambda>j. P j \<and> Q j) js + count_where (\<lambda>j. P j \<and> \<not> Q j) js"
  by (induction js) (auto simp: count_where_def)

lemma count_where_le: "(\<And>j. j \<in> set js \<Longrightarrow> P j \<Longrightarrow> Q j) \<Longrightarrow> count_where P js \<le> count_where Q js"
  by (induction js) (auto simp: count_where_def)

lemma count_where_statuses:
  "count_where (\<lambda>_. True) js =
     count_where (\<lambda>j. status j = Pending) js + count_where (\<lambda>j. status j = Queued) js +
     count_where (\<lambda>j. status j = Running) js + count_where (\<lambda>j. status j = Done) js +
     count_where (\<lambda>j. status j = Failed) js + count_where (\<lambda>j. status j = Killed) js"
proof (induction js)
  case (Cons j js)
  then show ?case by (cases "status j") (simp_all add: count_where_def)
qed (simp add: count_where_def)

text \<open>Counting per group and adding up counts everything once.\<close>

lemma sum_groups:
  fixes g :: "job \<Rightarrow> int"
  assumes "distinct qs" and "queue ` set js \<subseteq> set qs"
  shows "sum_list (map (\<lambda>q. sum_list (map g (filter (\<lambda>j. queue j = q) js))) qs) = sum_list (map g js)"
  using assms(2)
proof (induction js)
  case (Cons j js)
  have "sum_list (map (\<lambda>q. if queue j = q then g j else 0) xs) = (if queue j \<in> set xs then g j else 0)"
    if "distinct xs" for xs
    using that by (induction xs) auto
  from this [OF assms(1)] Cons
  have "sum_list (map (\<lambda>q. (if queue j = q then g j else 0) +
      sum_list (map g (filter (\<lambda>j. queue j = q) js))) qs) = g j + sum_list (map g js)"
    by (simp add: sum_list_addf)
  moreover have "sum_list (map g (filter (\<lambda>j. queue j = q) (j # js))) =
      (if queue j = q then g j else 0) + sum_list (map g (filter (\<lambda>j. queue j = q) js))" for q
    by simp
  ultimately show ?case by simp
qed simp

lemma count_where_sum: "count_where P js = sum_list (map (\<lambda>j. if P j then 1 else 0) js)"
  by (induction js) (simp_all add: count_where_def)

lemma sum_groups_count:
  assumes "distinct qs" and "queue ` set js \<subseteq> set qs"
  shows "sum_list (map (\<lambda>q. count_where P (filter (\<lambda>j. queue j = q) js)) qs) = count_where P js"
  unfolding count_where_sum by (rule sum_groups [OF assms])

section \<open>Properties\<close>

text \<open>The dashboard's counts are consistent: the total is the sum over the six statuses, the backlog is part of the pending jobs, no count is negative, and on consistent rows every done or failed job has its duration counted, so an average is formed over all of them.\<close>

lemma overview_counts_consistent:
  "let r = aggregate secs_between now js in
    ov_total r = ov_pending r + count_where (\<lambda>j. status j = Queued) js + ov_running r + ov_done r +
      ov_failed r + ov_killed r \<and>
    0 \<le> ov_backlog r \<and> ov_backlog r \<le> ov_pending r \<and> ov_past_hour r \<le> ov_total r \<and>
    ov_finished r \<le> ov_done r + ov_failed r + ov_killed r \<and>
    ((\<forall>j \<in> set js. row_ok j) \<longrightarrow> ov_done r + ov_failed r \<le> ov_finished r)"
proof -
  have split: "count_where is_finished js =
      count_where (\<lambda>j. is_finished j \<and> status j = Done) js +
      count_where (\<lambda>j. is_finished j \<and> status j = Failed) js +
      count_where (\<lambda>j. is_finished j \<and> status j = Killed) js"
  proof (induction js)
    case (Cons j js)
    then show ?case by (cases "status j") (auto simp: count_where_def is_finished_def)
  qed (simp add: count_where_def)
  have fin: "count_where (\<lambda>j. is_finished j \<and> status j = s) js \<le> count_where (\<lambda>j. status j = s) js" for s
    by (rule count_where_le) simp
  have ok: "count_where (\<lambda>j. status j = s) js \<le> count_where (\<lambda>j. is_finished j \<and> status j = s) js"
    if "\<forall>j \<in> set js. row_ok j" "s \<in> {Done, Failed}" for s
    using that by (intro count_where_le) (auto simp: row_ok_def is_finished_def)
  have nonneg: "0 \<le> count_where P js" for P by (simp add: count_where_def)
  show ?thesis
    using count_where_statuses [of js] split fin [of Done] fin [of Failed] fin [of Killed]
      ok [of Done] ok [of Failed] nonneg
      count_where_le [of js "\<lambda>j. status j = Pending \<and> run_at j \<le> now" "\<lambda>j. status j = Pending"]
      count_where_le [of js "\<lambda>j. run_at j \<ge> now - 3600 * nanos_per_sec" "\<lambda>_. True"]
      nonneg [of "\<lambda>j. is_finished j \<and> status j = Killed"]
    by (auto simp: Let_def aggregate_def)
qed

text \<open>The per-queue rows add up to the global ones: for every count and for the summed durations, the sum over the queues the grouping query lists is the value of the ungrouped query, and each queue is listed once.\<close>

lemma queue_counts_add_up:
  assumes "queue_counts_stmt secs_between now d = Inr (rows, d')"
  shows "distinct (map qc_queue rows) \<and> set (map qc_queue rows) = queue ` set (jobs d) \<and>
    (\<forall>f \<in> {ov_total, ov_pending, ov_running, ov_failed, ov_done, ov_killed, ov_backlog, ov_past_hour,
          ov_finished, ov_dur_secs}.
       sum_list (map (f \<circ> overview_from) rows) = f (aggregate secs_between now (jobs d)))"
proof -
  let ?qs = "queue_names (jobs d)"
  have rows: "rows = map (counts_of secs_between now (jobs d)) ?qs"
    using assms by (auto simp: queue_counts_stmt_def)
  have qs: "distinct ?qs" "queue ` set (jobs d) \<subseteq> set ?qs" by (simp_all add: queue_names_def)
  have "map qc_queue rows = ?qs" by (simp add: rows o_def)
  moreover have "set ?qs = queue ` set (jobs d)" by (simp add: queue_names_def)
  moreover have "sum_list (map (f \<circ> overview_from) rows) =
      sum_list (map (\<lambda>q. f (aggregate secs_between now (filter (\<lambda>j. queue j = q) (jobs d)))) ?qs)"
    for f :: "overview_row \<Rightarrow> int" by (simp add: rows o_def)
  ultimately show ?thesis
    using sum_groups_count [OF qs] sum_groups [OF qs] qs(1) by (simp add: aggregate_def)
qed

definition info_ok :: "(string, 't queue_info) btree \<Rightarrow> bool" where
  "info_ok qs \<longleftrightarrow> bt_ok qs \<and> (\<forall>(k, i) \<in> set qs. qi_name i = k \<and> length (qi_activity i) = 7)"

text \<open>The slot of a day in range is one of the seven, so the write of the loop cannot panic.\<close>

lemma activity_index_in_range:
  assumes "0 \<le> offset" and "offset < ACTIVITY_DAYS"
  shows "as_usize (ACTIVITY_DAYS - 1 - offset) = nat (6 - offset)"
  using assms by (simp add: ACTIVITY_DAYS_def as_usize_id)

definition weeks :: "(string, nat list) btree \<Rightarrow> bool" where
  "weeks daily \<longleftrightarrow> bt_ok daily \<and> (\<forall>(k, ds) \<in> set daily. length ds = 7)"

lemma length_slots: "weeks daily \<Longrightarrow> length (slots daily q) = 7"
  by (auto simp: weeks_def slots_def zero_days_def ACTIVITY_DAYS_def split: option.split dest: map_of_SomeD)

lemma weeks_insert: "weeks daily \<Longrightarrow> length ds = 7 \<Longrightarrow> weeks (bt_insert q ds daily)"
  unfolding weeks_def bt_insert_def by (intro conjI bt_ok_upsert bt_upsert_all) auto

lemma slots_insert: "weeks daily \<Longrightarrow> slots (bt_insert q ds daily) x = (if x = q then ds else slots daily x)"
  by (simp add: weeks_def slots_def bt_insert_def lookup_bt_upsert)

lemma i64_div_day: "i64_div (m * SECS_PER_DAY) SECS_PER_DAY = m"
  by (simp add: i64_div_def SECS_PER_DAY_def abs_mult sgn_mult sgn_mult_abs)

text \<open>Slot n of a queue holds the count of the last row of the queue whose day is 6 - n days ago.\<close>

lemma daily_loop_slots:
  assumes "weeks daily"
  shows "\<exists>daily'. daily_loop today rows daily = Some daily' \<and> weeks daily' \<and>
    (\<forall>q n. n < 7 \<longrightarrow> slots daily' q ! n =
       fold (\<lambda>row m. if ar_queue row = q \<and> today - i64_div (ar_day row) SECS_PER_DAY = 6 - int n
                     then as_usize (ar_done_count row) else m) rows (slots daily q ! n))"
  using assms
proof (induction rows arbitrary: daily)
  case (Cons row rows)
  let ?o = "today - i64_div (ar_day row) SECS_PER_DAY" and ?q = "ar_queue row" and ?v = "as_usize (ar_done_count row)"
  show ?case
  proof (cases "0 \<le> ?o \<and> ?o < ACTIVITY_DAYS")
    case False
    moreover have "\<not> (?o = 6 - int n)" if "n < 7" for n using False that by (auto simp: ACTIVITY_DAYS_def)
    moreover have "daily_loop today (row # rows) daily = daily_loop today rows daily"
      by (simp only: daily_loop.simps Let_def if_not_P [OF False])
    ultimately show ?thesis using Cons.IH [OF Cons.prems] by simp
  next
    case True
    let ?i = "nat (6 - ?o)" and ?ds = "(slots daily ?q)[nat (6 - ?o) := ?v]"
    have i: "?i < 7" "int ?i = 6 - ?o" using True by (auto simp: ACTIVITY_DAYS_def)
    note weeks = weeks_insert [OF Cons.prems, of ?ds ?q]
    have w: "write_at (slots daily ?q) (as_usize (ACTIVITY_DAYS - 1 - ?o)) ?v = Some ?ds"
      using True i(1) by (simp add: write_at_def activity_index_in_range length_slots [OF Cons.prems])
    have "slots (bt_insert ?q ?ds daily) q ! n = (if ?q = q \<and> ?o = 6 - int n then ?v else slots daily q ! n)"
      if "n < 7" for q n
      using that i by (auto simp: slots_insert [OF Cons.prems] nth_list_update length_slots [OF Cons.prems])
    moreover have "daily_loop today (row # rows) daily = daily_loop today rows (bt_insert ?q ?ds daily)"
      by (simp only: daily_loop.simps Let_def if_P [OF True] w option.case)
    ultimately show ?thesis using Cons.IH [OF weeks] by (simp add: length_slots [OF Cons.prems])
  qed
qed simp

lemma fold_last:
  "\<forall>x \<in> set xs. P x \<longleftrightarrow> x = x0 \<Longrightarrow> fold (\<lambda>x m. if P x then g x else m) xs m = (if x0 \<in> set xs then g x0 else m)"
  by (induction xs arbitrary: m) auto

text \<open>The day of slot n, when the client's clock says \<open>now_secs\<close>.\<close>

definition slot_day :: "int \<Rightarrow> nat \<Rightarrow> int" where
  "slot_day now_secs n = (i64_div now_secs SECS_PER_DAY - 6 + int n) * SECS_PER_DAY"

definition done_on :: "time \<Rightarrow> string \<Rightarrow> int \<Rightarrow> job list \<Rightarrow> int" where
  "done_on now q day js = count_where (\<lambda>j. done_lately now j \<and> queue j = q \<and> day_of (the (done_at j)) = day) js"

lemma activity_slots:
  assumes "activity_stmt now d = Inr (acts, d')"
  shows "\<exists>daily. daily_loop (i64_div now_secs SECS_PER_DAY) acts [] = Some daily \<and> weeks daily \<and>
    (\<forall>q n. n < 7 \<longrightarrow> slots daily q ! n = as_usize (done_on now q (slot_day now_secs n) (jobs d)))"
proof -
  let ?today = "i64_div now_secs SECS_PER_DAY" and ?js = "filter (done_lately now) (jobs d)"
  let ?key = "\<lambda>j. (queue j, day_of (the (done_at j)))"
  let ?row = "\<lambda>k. \<lparr>ar_queue = fst k, ar_day = snd k, ar_done_count = int (length (filter (\<lambda>j. ?key j = k) ?js))\<rparr>"
  let ?keys = "remdups (map ?key ?js)"
  have acts: "acts = map ?row ?keys" using assms by (auto simp: activity_stmt_def Let_def)
  have "weeks []" by (simp add: weeks_def)
  from daily_loop_slots [OF this, of ?today acts] obtain daily where
    daily: "daily_loop ?today acts [] = Some daily" "weeks daily"
    and s: "\<And>q n. n < 7 \<Longrightarrow> slots daily q ! n =
       fold (\<lambda>row m. if ar_queue row = q \<and> ?today - i64_div (ar_day row) SECS_PER_DAY = 6 - int n
                     then as_usize (ar_done_count row) else m) acts (slots [] q ! n)" by blast
  have "slots daily q ! n = as_usize (done_on now q (slot_day now_secs n) (jobs d))" if n: "n < 7" for q n
  proof -
    let ?k = "(q, slot_day now_secs n)" and ?g = "\<lambda>k. as_usize (int (length (filter (\<lambda>j. ?key j = k) ?js)))"
    have day: "?today - i64_div (snd k) SECS_PER_DAY = 6 - int n \<longleftrightarrow> snd k = slot_day now_secs n"
      if "k \<in> set ?keys" for k
    proof -
      have "\<exists>m. snd k = m * SECS_PER_DAY" using that by (auto simp: day_of_def)
      then obtain m where "snd k = m * SECS_PER_DAY" by blast
      moreover have "m * SECS_PER_DAY = m' * SECS_PER_DAY \<longleftrightarrow> m = m'" for m' by (simp add: SECS_PER_DAY_def)
      ultimately show ?thesis by (simp only: i64_div_day slot_day_def) linarith
    qed
    have "slots daily q ! n = fold (\<lambda>k m. if fst k = q \<and> ?today - i64_div (snd k) SECS_PER_DAY = 6 - int n
        then ?g k else m) ?keys 0"
      unfolding s [OF n] acts using n
      by (simp add: fold_map o_def slots_def zero_days_def ACTIVITY_DAYS_def del: filter_filter)
    also have "\<dots> = (if ?k \<in> set ?keys then ?g ?k else 0)"
      by (rule fold_last) (use day in \<open>auto simp: prod_eq_iff\<close>)
    also have "\<dots> = ?g ?k"
    proof (cases "?k \<in> set ?keys")
      case False
      then have "filter (\<lambda>j. ?key j = ?k) ?js = []" by (auto simp: filter_empty_conv)
      then show ?thesis by (simp add: as_usize_id)
    qed simp
    also have "filter (\<lambda>j. ?key j = ?k) ?js =
        filter (\<lambda>j. done_lately now j \<and> queue j = q \<and> day_of (the (done_at j)) = slot_day now_secs n) (jobs d)"
      by (simp add: conj_commute)
    finally show ?thesis by (simp only: done_on_def count_where_def)
  qed
  with daily show ?thesis by blast
qed

lemma bt_upsert_set:
  "(k', v) \<in> set (bt_upsert k f xs) \<Longrightarrow>
    (k', v) \<in> set xs \<or> (k' = k \<and> (v = f None \<or> (\<exists>v'. (k, v') \<in> set xs \<and> v = f (Some v'))))"
  by (induction k f xs rule: bt_upsert.induct) (auto split: if_splits)

lemma weeks_remove: "weeks daily \<Longrightarrow> weeks (bt_remove q daily)"
  by (auto simp: weeks_def bt_remove_def bt_ok_def sorted_wrt_map sorted_wrt_filter)

lemma slots_remove: "x \<noteq> q \<Longrightarrow> slots (bt_remove q daily) x = slots daily x"
  by (induction daily) (auto simp: slots_def bt_remove_def)

text \<open>Each queue with jobs has the slots of its days.\<close>

lemma queue_infos_activity:
  "distinct (map qc_queue rows) \<Longrightarrow> bt_ok qs \<Longrightarrow>
    bt_ok (queue_infos F ty oldest rows daily qs) \<and>
    map_option qi_activity (map_of (queue_infos F ty oldest rows daily qs) k) =
      (if k \<in> qc_queue ` set rows then Some (slots daily k) else map_option qi_activity (map_of qs k))"
proof (induction F ty oldest rows daily qs rule: queue_infos.induct)
  case (2 F ty oldest row rows daily qs)
  let ?i = "\<lparr>qi_name = qc_queue row,
      qi_stats = build_statistics F ty (overview_from row)
        (case map_of oldest (qc_queue row) of Some x \<Rightarrow> x | None \<Rightarrow> None),
      qi_workers = [], qi_activity = slots daily (qc_queue row)\<rparr>"
  have ok: "bt_ok (bt_insert (qc_queue row) ?i qs)" using 2(3) by (simp add: bt_insert_def bt_ok_upsert)
  have "distinct (map qc_queue rows)" using 2(2) by simp
  from 2(1) [OF refl this ok] 2(2,3) show ?case
    by (cases "k = qc_queue row") (auto simp: Let_def bt_insert_def lookup_bt_upsert slots_remove)
qed simp

lemma add_workers_activity:
  "bt_ok qs \<Longrightarrow> map_option qi_activity (map_of (add_workers F ty rows qs) k) =
    (case map_of qs k of
       Some i \<Rightarrow> Some (qi_activity i)
     | None \<Rightarrow> if k \<in> qw_queue ` set rows then Some zero_days else None)"
proof (induction rows arbitrary: qs)
  case (Cons row rows)
  then show ?case
    by (auto simp: bt_ok_upsert lookup_bt_upsert Let_def split: option.split)
qed (simp split: option.split)

lemma queue_infos_ok:
  assumes "weeks daily" and "info_ok qs"
  shows "info_ok (queue_infos F ty oldest rows daily qs) \<and>
    fst ` set (queue_infos F ty oldest rows daily qs) = qc_queue ` set rows \<union> fst ` set qs"
  using assms
proof (induction F ty oldest rows daily qs rule: queue_infos.induct)
  case (2 F ty oldest row rows daily qs)
  let ?name = "qc_queue row"
  note seven = length_slots [OF 2(2), of ?name]
  have "weeks (bt_remove ?name daily)" using 2(2) by (rule weeks_remove)
  moreover have "info_ok (bt_insert ?name i qs)" if "qi_name i = ?name" "length (qi_activity i) = 7" for i
    using 2(3) that bt_ok_upsert by (auto simp: info_ok_def bt_insert_def dest!: bt_upsert_set)
  ultimately show ?case using 2(1) [OF refl] seven by (auto simp: bt_insert_def Let_def)
qed simp

lemma add_workers_ok:
  "info_ok qs \<Longrightarrow> info_ok (add_workers F ty rows qs) \<and>
    fst ` set (add_workers F ty rows qs) = qw_queue ` set rows \<union> fst ` set qs"
proof (induction rows arbitrary: qs)
  case (Cons row rows)
  let ?f = "\<lambda>info. (let i = (case info of Some i \<Rightarrow> i
      | None \<Rightarrow> \<lparr>qi_name = qw_queue row, qi_stats = build_statistics F ty overview_default None,
                 qi_workers = [], qi_activity = zero_days\<rparr>)
    in i\<lparr>qi_workers := qi_workers i @ [key_text (qw_name row)]\<rparr>)"
  have "info_ok (bt_upsert (qw_queue row) ?f qs)"
    using Cons.prems bt_ok_upsert
    by (fastforce simp: info_ok_def zero_days_def ACTIVITY_DAYS_def Let_def dest!: bt_upsert_set)
  with Cons.IH show ?case by auto
qed simp

lemma map_snd_names:
  "info_ok qs \<Longrightarrow> map qi_name (map snd qs) = map fst qs"
  by (induction qs) (auto simp: info_ok_def bt_ok_def)

text \<open>The slots of every listed queue, those without jobs included.\<close>

lemma listed_activity:
  assumes "weeks daily"
    and slot: "\<And>q n. n < 7 \<Longrightarrow> slots daily q ! n = as_usize (done_on now q (slot_day now_secs n) js)"
  shows "list_all (\<lambda>i. qi_activity i = map (\<lambda>n. as_usize (done_on now (qi_name i) (slot_day now_secs n) js)) [0..<7])
    (map snd (add_workers F ty wrks
      (queue_infos F ty oldest (map (counts_of secs_between now js) (queue_names js)) daily [])))"
proof -
  let ?rows = "map (counts_of secs_between now js) (queue_names js)"
  let ?qs = "queue_infos F ty oldest ?rows daily []" and ?week = "\<lambda>q. map (\<lambda>n. as_usize (done_on now q (slot_day now_secs n) js)) [0..<7]"
  have week: "slots daily q = ?week q" for q
    by (rule nth_equalityI) (simp_all add: length_slots [OF assms(1)] slot del: upt_Suc)
  have zero: "zero_days = ?week q" if "q \<notin> queue ` set js" for q
  proof -
    have "filter (\<lambda>j. done_lately now j \<and> queue j = q \<and> day_of (the (done_at j)) = day) js = []" for day
      using that by (auto simp: filter_empty_conv)
    then have "done_on now q day js = 0" for day by (simp add: done_on_def count_where_def)
    then show ?thesis
      by (intro nth_equalityI) (simp_all add: zero_days_def ACTIVITY_DAYS_def as_usize_id del: upt_Suc)
  qed
  have d: "distinct (map qc_queue ?rows)" "qc_queue ` set ?rows = queue ` set js"
    by (simp_all add: o_def queue_names_def image_image)
  note qs = queue_infos_activity [OF d(1) bt_ok_Nil, of F ty oldest daily]
  have qs_ok: "info_ok ?qs" using queue_infos_ok [OF assms(1), of "[]" F ty oldest ?rows] by (simp add: info_ok_def)
  note ok = add_workers_ok [OF qs_ok, of F ty wrks, THEN conjunct1]
  have "qi_activity i = ?week (qi_name i)" if i: "i \<in> set (map snd (add_workers F ty wrks ?qs))" for i
  proof -
    from i obtain k where k: "(k, i) \<in> set (add_workers F ty wrks ?qs)" by auto
    with ok have n: "qi_name i = k" by (auto simp: info_ok_def)
    have "distinct (map fst (add_workers F ty wrks ?qs))"
      using ok strict_sorted_iff by (auto simp: info_ok_def bt_ok_def)
    with k have "map_of (add_workers F ty wrks ?qs) k = Some i" by (simp add: map_of_eq_Some_iff)
    with add_workers_activity [of ?qs F ty wrks k] qs [of k] week [of k] zero [of k] d(2) n show ?thesis
      by (auto split: option.splits if_splits)
  qed
  then show ?thesis by (simp only: list_all_iff) blast
qed

text \<open>C39. The queue list is well formed: on an undisturbed engine, whatever the client's clock says, the call does not panic at its indexed write and succeeds; it names every queue that has a job or a registered worker exactly once, in strictly ascending order, each with seven slots, of which the n-th holds the number of jobs of the queue that were done on the (6 - n)-th day before the client's day and no more than seven days before the engine's time.\<close>

theorem list_queues_well_formed:
  "\<exists>infos. list_queues (calm now) F ty secs_between now_secs w =
      Some (Inr infos, w\<lparr>trips := trips w + 4\<rparr>) \<and>
    sorted_wrt (<) (map qi_name infos) \<and>
    set (map qi_name infos) = queue ` set (jobs (store w)) \<union> worker_queue ` set (workers (store w)) \<and>
    list_all (\<lambda>i. qi_activity i =
      map (\<lambda>n. as_usize (done_on now (qi_name i) (slot_day now_secs n) (jobs (store w)))) [0..<7]) infos"
proof -
  let ?d = "store w"
  let ?counts = "map (counts_of secs_between now (jobs ?d)) (queue_names (jobs ?d))"
  let ?wrks = "map (\<lambda>x. \<lparr>qw_name = worker_id x, qw_queue = worker_queue x\<rparr>) (workers ?d)"
  obtain olds where olds: "queue_oldest_stmt now ?d = Inr (olds, ?d)"
    by (simp add: queue_oldest_stmt_def Let_def)
  obtain acts where acts: "activity_stmt now ?d = Inr (acts, ?d)"
    by (simp add: activity_stmt_def Let_def)
  from activity_slots [OF acts, of now_secs] obtain daily where
    daily: "daily_loop (i64_div now_secs SECS_PER_DAY) acts [] = Some daily" "weeks daily"
    and slot: "\<And>q n. n < 7 \<Longrightarrow> slots daily q ! n = as_usize (done_on now q (slot_day now_secs n) (jobs ?d))" by blast
  let ?oldest = "fold (\<lambda>row. bt_insert (qo_queue row) (qo_oldest_unix row)) olds []"
  let ?qs = "queue_infos F ty ?oldest ?counts daily []" and ?all = "add_workers F ty ?wrks
    (queue_infos F ty (fold (\<lambda>row. bt_insert (qo_queue row) (qo_oldest_unix row)) olds []) ?counts daily [])"
  have run: "list_queues (calm now) F ty secs_between now_secs w = Some (Inr (map snd ?all), w\<lparr>trips := trips w + 4\<rparr>)"
    using olds acts daily(1)
    by (simp add: list_queues_def query_def calm_def queue_counts_stmt_def queue_workers_stmt_def Let_def queue_list_def)
  have qs: "info_ok ?qs" "fst ` set ?qs = queue ` set (jobs ?d)"
    using queue_infos_ok [OF daily(2), of "[]" F ty ?oldest ?counts]
    by (auto simp: info_ok_def image_image queue_names_def)
  from add_workers_ok [OF qs(1), of F ty ?wrks] qs(2)
  have all: "info_ok ?all" "fst ` set ?all = queue ` set (jobs ?d) \<union> worker_queue ` set (workers ?d)"
    by (auto simp: image_image)
  have "sorted_wrt (<) (map qi_name (map snd ?all))"
    unfolding map_snd_names [OF all(1)] using all(1) by (simp add: info_ok_def bt_ok_def)
  moreover have "set (map qi_name (map snd ?all)) =
      queue ` set (jobs ?d) \<union> worker_queue ` set (workers ?d)"
    unfolding map_snd_names [OF all(1)] using all(2) by simp
  moreover have "list_all (\<lambda>i. qi_activity i =
      map (\<lambda>n. as_usize (done_on now (qi_name i) (slot_day now_secs n) (jobs ?d))) [0..<7]) (map snd ?all)"
    using listed_activity [OF daily(2) slot, where secs_between = secs_between and F = F and ty = ty
      and oldest = ?oldest and wrks = ?wrks] by simp
  ultimately show ?thesis using run by (intro exI [of _ "map snd ?all"]) simp
qed

section \<open>Witnesses\<close>

end
