(* ===== verification/Debug_Output.thy ===== *)
theory Debug_Output
  imports Driver Metrics
begin

text \<open>
  The \<open>Debug\<close> instances of the storages, fetchers and the sink, as the one-line text that
  \<open>debug_struct\<close> of the standard library writes. How the client, the configuration and the
  worker context print themselves is outside the repository, and so is the quoting of strings.
\<close>

section \<open>\<open>debug_struct\<close>\<close>

fun debug_fields :: "(string \<times> string) list \<Rightarrow> string" where
  "debug_fields [] = ''''"
| "debug_fields [(name, value)] = name @ '': '' @ value"
| "debug_fields ((name, value) # fs) = name @ '': '' @ value @ '', '' @ debug_fields fs"

definition debug_struct :: "string \<Rightarrow> (string \<times> string) list \<Rightarrow> string" where
  "debug_struct name fs = name @ (if fs = [] then '''' else '' { '' @ debug_fields fs @ '' }'')"

fun debug_bool :: "bool \<Rightarrow> string" where
  "debug_bool True = ''true''"
| "debug_bool False = ''false''"

record debug_ops =
  dbg_str :: "string \<Rightarrow> string"
  dbg_config :: "config \<Rightarrow> string"
  dbg_worker :: "worker_context \<Rightarrow> string"

section \<open>The instances\<close>

definition debug_storage :: "debug_ops \<Rightarrow> string \<Rightarrow> string \<Rightarrow> 'f storage \<Rightarrow> string" where
  "debug_storage D conn codec_name st =
     debug_struct ''SurrealStorage''
       [(''conn'', conn), (''job_type'', dbg_str D ''PhantomData<T>''), (''codec'', dbg_str D codec_name),
        (''config'', dbg_config D (st_config st))]"

definition debug_sink :: "debug_ops \<Rightarrow> config \<Rightarrow> sink \<Rightarrow> string" where
  "debug_sink D cfg s =
     debug_struct ''SurrealSink''
       [(''config'', dbg_config D cfg), (''buffered'', nat_text (length (sink_buffer s))),
        (''flushing'', debug_bool (sink_flush s \<noteq> None))]"

definition debug_poll_fetcher ::
  "debug_ops \<Rightarrow> string \<Rightarrow> config \<Rightarrow> worker_context \<Rightarrow> poll_fetcher \<Rightarrow> string" where
  "debug_poll_fetcher D conn cfg wc f =
     debug_struct ''SurrealPollFetcher''
       [(''conn'', conn), (''config'', dbg_config D cfg), (''wrk'', dbg_worker D wc),
        (''prev_count'', nat_text (pf_prev_count f))]"

definition debug_live_fetcher :: "string \<Rightarrow> live_fetcher \<Rightarrow> string" where
  "debug_live_fetcher conn f = debug_struct ''SurrealLiveFetcher'' [(''conn'', conn)]"

definition debug_shared_storage :: "debug_ops \<Rightarrow> string \<Rightarrow> string \<Rightarrow> 'c shared_storage \<Rightarrow> string" where
  "debug_shared_storage D conn codec_name sh =
     debug_struct ''SharedSurrealStorage'' [(''conn'', conn), (''codec'', dbg_str D codec_name)]"

definition debug_shared_fetcher :: "string \<Rightarrow> string" where
  "debug_shared_fetcher q = debug_struct ''SharedFetcher'' []"

section \<open>What the output gives away\<close>

text \<open>No task reaches a debug text: the text of a sink depends on its buffer only through its length and on its flush only through whether there is one, that of a poll fetcher not on the buffered tasks, and that of a shared storage not on the tasks in transit.\<close>

lemma debug_hides_tasks:
  assumes "length (sink_buffer s) = length (sink_buffer s')" and "sink_flush s = None \<longleftrightarrow> sink_flush s' = None"
    and "pf_prev_count f = pf_prev_count f'"
  shows "debug_sink D cfg s = debug_sink D cfg s'"
    and "debug_poll_fetcher D conn cfg wc f = debug_poll_fetcher D conn cfg wc f'"
    and "debug_shared_storage D conn c sh = debug_shared_storage D conn c sh'"
    and "st_config st = st_config st' \<Longrightarrow> debug_storage D conn c st = debug_storage D conn c st'"
  using assms by (simp_all add: debug_sink_def debug_poll_fetcher_def debug_shared_storage_def debug_storage_def)

text \<open>The text with its parts written out.\<close>

lemma debug_sink_text:
  "debug_sink D cfg sink_new = ''SurrealSink { config: '' @ dbg_config D cfg @ '', buffered: 0, flushing: false }''"
proof -
  have "nat_text 0 = ''0''" by code_simp
  then show ?thesis by (simp add: debug_sink_def debug_struct_def sink_new_def)
qed

end
