(* ===== verification/Fairness.thy ===== *)
theory Fairness
  imports Progress
begin

text \<open>
  Schedules that never end: from the bound of theory Progress, a waiting job is claimed on every
  fair schedule, one that pulls for it again and again and puts other jobs before it only
  finitely often.
\<close>

section \<open>Prefixes\<close>

definition first_steps :: "(nat \<Rightarrow> time \<times> action) \<Rightarrow> nat \<Rightarrow> (time \<times> action) list" where
  "first_steps \<sigma> n = map \<sigma> [0..<n]"

lemma first_steps_simps [simp]:
  "first_steps \<sigma> 0 = []" "first_steps \<sigma> (Suc n) = first_steps \<sigma> n @ [\<sigma> n]" "length (first_steps \<sigma> n) = n"
  by (simp_all add: first_steps_def)

lemma first_steps_split:
  assumes "first_steps \<sigma> n = s1 @ ta # s2"
  shows "s1 = first_steps \<sigma> (length s1) \<and> ta = \<sigma> (length s1)"
proof -
  have l: "length s1 < n" using arg_cong [OF assms, of length] by simp
  have "s1 = take (length s1) (first_steps \<sigma> n)" by (simp add: assms)
  then have "s1 = first_steps \<sigma> (length s1)" using l by (simp add: first_steps_def take_map)
  moreover have "ta = first_steps \<sigma> n ! length s1" by (simp add: assms)
  ultimately show ?thesis using l by (simp add: first_steps_def)
qed

section \<open>Counting\<close>

text \<open>The step of the schedule at which other jobs are put before \<open>j\<close>.\<close>

definition overtakes :: "string set \<Rightarrow> job \<Rightarrow> (nat \<Rightarrow> time \<times> action) \<Rightarrow> db \<Rightarrow> nat \<Rightarrow> bool" where
  "overtakes S j \<sigma> d i \<longleftrightarrow>
     \<not> ahead S j (play (first_steps \<sigma> (Suc i)) d) \<subseteq> ahead S j (play (first_steps \<sigma> i) d)"

definition newly_ahead :: "string set \<Rightarrow> job \<Rightarrow> (nat \<Rightarrow> time \<times> action) \<Rightarrow> db \<Rightarrow> nat \<Rightarrow> nat" where
  "newly_ahead S j \<sigma> d i = card (ahead S j (play (first_steps \<sigma> (Suc i)) d) - ahead S j (play (first_steps \<sigma> i) d))"

lemma arrivals_append:
  "arrivals S j (s @ s') d = arrivals S j s d + arrivals S j s' (play s d)"
  by (induction s arbitrary: d) simp_all

lemma arrivals_first_steps: "arrivals S j (first_steps \<sigma> n) d = (\<Sum>i<n. newly_ahead S j \<sigma> d i)"
  by (induction n) (simp_all add: arrivals_append newly_ahead_def)

lemma arrivals_bounded:
  assumes "finite {i. overtakes S j \<sigma> d i}"
  shows "arrivals S j (first_steps \<sigma> n) d \<le> (\<Sum>i \<in> {i. overtakes S j \<sigma> d i}. newly_ahead S j \<sigma> d i)"
proof -
  let ?F = "{i. overtakes S j \<sigma> d i}"
  have none: "newly_ahead S j \<sigma> d i = 0" if "i \<notin> ?F" for i
  proof -
    have "ahead S j (play (first_steps \<sigma> (Suc i)) d) - ahead S j (play (first_steps \<sigma> i) d) = {}"
      using that by (auto simp: overtakes_def)
    then show ?thesis by (simp only: newly_ahead_def card.empty)
  qed
  have "arrivals S j (first_steps \<sigma> n) d = (\<Sum>i \<in> {..<n} \<inter> ?F. newly_ahead S j \<sigma> d i)"
    unfolding arrivals_first_steps using none by (intro sum.mono_neutral_right) auto
  also have "\<dots> \<le> (\<Sum>i \<in> ?F. newly_ahead S j \<sigma> d i)"
    using assms by (intro sum_mono2) auto
  finally show ?thesis .
qed

lemma pulls_unbounded:
  assumes "infinite {i. pulls S j 1 (\<sigma> i)}"
  shows "\<exists>n. b < length (filter (pulls S j 1) (first_steps \<sigma> n))"
proof -
  obtain T where T: "T \<subseteq> {i. pulls S j 1 (\<sigma> i)}" "finite T" "card T = Suc b"
    using infinite_arbitrarily_large [OF assms, of "Suc b"] by blast
  let ?n = "Suc (Max T)"
  have "T \<subseteq> {i. i < ?n \<and> pulls S j 1 (first_steps \<sigma> ?n ! i)}"
    using T(1) Max_ge [OF T(2)] by (auto simp: first_steps_def less_Suc_eq_le simp del: upt_Suc)
  moreover have "length (filter (pulls S j 1) (first_steps \<sigma> ?n)) = card {i. i < ?n \<and> pulls S j 1 (first_steps \<sigma> ?n ! i)}"
    unfolding length_filter_conv_card by (simp only: first_steps_simps(3))
  ultimately have "card T \<le> length (filter (pulls S j 1) (first_steps \<sigma> ?n))"
    using card_mono [of "{i. i < ?n \<and> pulls S j 1 (first_steps \<sigma> ?n ! i)}" T] by simp
  with T(3) show ?thesis by (intro exI [of _ ?n]) (simp only: Suc_le_eq)
qed

section \<open>Property\<close>

text \<open>C16. No starvation on fair schedules: if the statements that any clients run go on for ever, claims that pull for a waiting job (of its queue or of queues among S, for at least one job, at a time when it is due) come again and again, and other jobs are put before it in the claim order only finitely often, then some claim takes the job, and finds its row as it was.\<close>

theorem fair_schedule_claims:
  assumes "db_inv d" and "lookup_job d k = Some j" and "retryable j" and "queue j \<in> S"
    and "\<forall>i. \<not> names_job k (snd (\<sigma> i))"
    and "infinite {i. pulls S j 1 (\<sigma> i)}" and "finite {i. overtakes S j \<sigma> d i}"
  shows "\<exists>i j'. lookup_job (play (first_steps \<sigma> i) d) k = Some j \<and> is_claim (snd (\<sigma> i)) \<and>
    lookup_job (play (first_steps \<sigma> (Suc i)) d) k = Some j' \<and> status j' = Queued"
proof -
  obtain n where n: "card (ahead S j d) + (\<Sum>i \<in> {i. overtakes S j \<sigma> d i}. newly_ahead S j \<sigma> d i) <
      length (filter (pulls S j 1) (first_steps \<sigma> n))"
    using pulls_unbounded [OF assms(6)] by blast
  then have "card (ahead S j d) + arrivals S j (first_steps \<sigma> n) d < 1 * length (filter (pulls S j 1) (first_steps \<sigma> n))"
    using arrivals_bounded [OF assms(7), of n] by linarith
  moreover have "\<forall>ta \<in> set (first_steps \<sigma> n). \<not> names_job k (snd ta)" using assms(5) by (auto simp: first_steps_def)
  ultimately obtain s1 ta s2 j' where s: "first_steps \<sigma> n = s1 @ ta # s2" "lookup_job (play s1 d) k = Some j"
    "is_claim (snd ta)" "lookup_job (play (s1 @ [ta]) d) k = Some j'" "status j' = Queued"
    using waiting_job_claimed [OF assms(1-4)] by blast
  with first_steps_split [OF s(1)] show ?thesis by (intro exI [of _ "length s1"] exI [of _ j']) simp
qed

section \<open>Witness\<close>

text \<open>A claim puts no job before another.\<close>

lemma claim_overtakes_none:
  assumes inv: "db_inv d"
  shows "ahead S j (after (t, Claim q w n) d) \<subseteq> ahead S j d"
proof
  fix k assume "k \<in> ahead S j (after (t, Claim q w n) d)"
  then obtain x where x: "x \<in> set (jobs (after (t, Claim q w n) d))" "k = job_id x" "retryable x"
    "queue x \<in> S" "claim_order x < claim_order j" by (auto simp: ahead_def)
  obtain rows d' where "update_records (due_ids (\<lambda>x. x = q) n t d) (set_claimed w t) d = (rows, d')"
    by fastforce
  then have st: "fetch_next_stmt q w n t d = Inr (rows, d')" by (simp add: fetch_next_stmt_def)
  then have d': "after (t, Claim q w n) d = d'" by (simp add: after_def committed_def)
  have "distinct (map job_id (jobs d'))" using after_db_inv [OF inv] d' by (metis db_inv_def)
  from lookup_job_mem [OF this, of x] x(1) d' have "lookup_job d' (job_id x) = Some x" by simp
  with fetch_next_lookup [OF inv st, of "job_id x"] obtain y where
    y: "lookup_job d (job_id x) = Some y" "x = (if y \<in> set (due_batch (\<lambda>x. x = q) n t d) then set_claimed w t y else y)"
    by auto
  have "\<not> retryable (set_claimed w t y)" by (simp add: retryable_def row_simps)
  with x(3) y(2) have "x = y" by (auto split: if_splits)
  with x(2-5) lookup_job_Some [OF y(1)] show "k \<in> ahead S j d" unfolding ahead_def by blast
qed

theorem fair_schedule_claims_witness:
  "\<exists>i j'. lookup_job (play (first_steps (\<lambda>_. (late, Claim ''emails'' ''w1'' 1)) i) two_jobs) (StringKey ''01C'') = Some j' \<and>
    status j' = Queued"
proof -
  let ?c = "\<lambda>_ :: nat. (late, Claim ''emails'' ''w1'' 1)" and ?j = "new_job poison_row"
  have j: "lookup_job two_jobs (StringKey ''01C'') = Some ?j" "retryable ?j" "queue ?j \<in> {''emails''}"
    by (code_simp, code_simp, simp add: new_job_def poison_row_def sample_row_def)
  have ns: "\<forall>i. \<not> names_job (StringKey ''01C'') (snd (?c i))" by simp
  have "pulls {''emails''} ?j 1 (late, Claim ''emails'' ''w1'' 1)" by code_simp
  then have inf: "infinite {i. pulls {''emails''} ?j 1 (?c i)}" by simp
  have inv: "db_inv (play (first_steps ?c i) two_jobs)" for i
    by (induction i) (simp_all add: db_inv_two_jobs after_db_inv)
  have "{i. overtakes {''emails''} ?j ?c two_jobs i} = {}"
    using claim_overtakes_none [OF inv] by (simp add: overtakes_def)
  then have fin: "finite {i. overtakes {''emails''} ?j ?c two_jobs i}" by simp
  from fair_schedule_claims [OF db_inv_two_jobs j ns inf fin] show ?thesis by blast
qed

end
