(* ===== verification/Listing.thy ===== *)
theory Listing
  imports Wait_For Workers
begin

text \<open>
  Reading and purging: \<open>src/queries/list_tasks.rs\<close>, \<open>src/queries/list_workers.rs\<close>,
  \<open>src/queries/fetch_by_id.rs\<close> and \<open>src/queries/vacuum.rs\<close>.
\<close>

section \<open>Listing tasks\<close>

text \<open>\<open>Filter\<close> of \<open>apalis_core\<close>: its status and what \<open>limit()\<close> and \<open>offset()\<close> return.\<close>

record task_filter =
  flt_status :: "status option"
  flt_limit :: nat
  flt_offset :: nat

text \<open>\<open>ORDER BY run_at DESC, id DESC\<close>; ids are unique, so there are no ties.\<close>

definition listing :: "(job \<Rightarrow> bool) \<Rightarrow> db \<Rightarrow> job list" where
  "listing P d = rev (sort_key (\<lambda>j. (run_at j, job_id j)) (filter P (jobs d)))"

definition list_jobs_stmt :: "string \<Rightarrow> status \<Rightarrow> nat \<Rightarrow> nat \<Rightarrow> job list stmt" where
  "list_jobs_stmt q s limit offset now d =
     Inr (take limit (drop offset (listing (\<lambda>j. queue j = q \<and> status j = s) d)), d)"

definition list_all_jobs_stmt :: "status \<Rightarrow> nat \<Rightarrow> nat \<Rightarrow> job list stmt" where
  "list_all_jobs_stmt s limit offset now d =
     Inr (take limit (drop offset (listing (\<lambda>j. status j = s) d)), d)"

definition filter_status :: "task_filter \<Rightarrow> status" where
  "filter_status flt = (case flt_status flt of Some s \<Rightarrow> s | None \<Rightarrow> Pending)"

definition decode_task ::
  "row_conv \<Rightarrow> (bytes \<Rightarrow> string + 'a) \<Rightarrow> job \<Rightarrow> surreal_error + 'a surreal_task" where
  "decode_task conv decode row =
     (case decode_row conv row of
        Inl e \<Rightarrow> Inl e
      | Inr task \<Rightarrow>
          (case decode (fst task) of Inl e \<Rightarrow> Inl (Decode e) | Inr x \<Rightarrow> Inr (x, snd task)))"

definition list_tasks ::
  "env \<Rightarrow> row_conv \<Rightarrow> (bytes \<Rightarrow> string + 'a) \<Rightarrow> config \<Rightarrow> task_filter \<Rightarrow> world
    \<Rightarrow> (surreal_error + 'a surreal_task list) \<times> world" where
  "list_tasks env conv decode cfg flt w =
     (case query env (list_jobs_stmt (cfg_queue cfg) (filter_status flt) (flt_limit flt)
             (flt_offset flt)) w of
        (resp, w') \<Rightarrow>
          (case take_rows resp of
             Inl e \<Rightarrow> (Inl e, w')
           | Inr rows \<Rightarrow> (collect_results (map (decode_task conv decode) rows), w')))"

definition list_all_tasks ::
  "env \<Rightarrow> row_conv \<Rightarrow> task_filter \<Rightarrow> world \<Rightarrow> (surreal_error + compact_task list) \<times> world" where
  "list_all_tasks env conv flt w =
     (case query env (list_all_jobs_stmt (filter_status flt) (flt_limit flt) (flt_offset flt)) w of
        (resp, w') \<Rightarrow>
          (case take_rows resp of
             Inl e \<Rightarrow> (Inl e, w')
           | Inr rows \<Rightarrow> (collect_results (map (decode_row conv) rows), w')))"

section \<open>One task by its id\<close>

definition fetch_by_id_stmt :: "record_key \<Rightarrow> job list stmt" where
  "fetch_by_id_stmt k now d = Inr (filter (\<lambda>j. job_id j = k) (jobs d), d)"

definition fetch_by_id ::
  "env \<Rightarrow> row_conv \<Rightarrow> (bytes \<Rightarrow> string + 'a) \<Rightarrow> string \<Rightarrow> world
    \<Rightarrow> (surreal_error + 'a surreal_task option) \<times> world" where
  "fetch_by_id env conv decode ident w =
     (case query env (fetch_by_id_stmt (StringKey ident)) w of
        (resp, w') \<Rightarrow>
          (case take_rows resp of
             Inl e \<Rightarrow> (Inl e, w')
           | Inr [] \<Rightarrow> (Inr None, w')
           | Inr (row # _) \<Rightarrow>
               (case decode_task conv decode row of
                  Inl e \<Rightarrow> (Inl e, w')
                | Inr task \<Rightarrow> (Inr (Some task), w'))))"

section \<open>Listing workers\<close>

record worker_row =
  wr_name :: string
  wr_queue :: string
  wr_storage_name :: string
  wr_layers :: "string option"
  wr_started_at :: time
  wr_last_seen :: time

record running_worker =
  rw_id :: string
  rw_queue :: string
  rw_backend :: string
  rw_started_at :: nat
  rw_last_heartbeat :: nat
  rw_layers :: string

text \<open>\<open>timestamp()\<close> is the second the instant lies in; \<open>as u64\<close> keeps the low 64 bits.\<close>

definition to_running_worker :: "worker_row \<Rightarrow> running_worker" where
  "to_running_worker row =
     \<lparr>rw_id = wr_name row, rw_queue = wr_queue row, rw_backend = wr_storage_name row,
      rw_started_at = as_usize (wr_started_at row div nanos_per_sec),
      rw_last_heartbeat = as_usize (wr_last_seen row div nanos_per_sec),
      rw_layers = (case wr_layers row of Some l \<Rightarrow> l | None \<Rightarrow> '''')\<rparr>"

definition to_worker_row :: "worker \<Rightarrow> worker_row" where
  "to_worker_row x =
     \<lparr>wr_name = worker_name x, wr_queue = worker_queue x, wr_storage_name = storage_name x,
      wr_layers = layers x, wr_started_at = started_at x, wr_last_seen = last_seen x\<rparr>"

definition workers_page :: "(worker \<Rightarrow> bool) \<Rightarrow> nat \<Rightarrow> nat \<Rightarrow> db \<Rightarrow> worker list" where
  "workers_page P limit offset d =
     take limit (drop offset (sort_key (\<lambda>x. - last_seen x) (filter P (workers d))))"

definition list_workers_stmt :: "string \<Rightarrow> nat \<Rightarrow> nat \<Rightarrow> worker_row list stmt" where
  "list_workers_stmt q limit offset now d =
     Inr (map to_worker_row (workers_page (\<lambda>x. worker_queue x = q) limit offset d), d)"

definition list_all_workers_stmt :: "nat \<Rightarrow> nat \<Rightarrow> worker_row list stmt" where
  "list_all_workers_stmt limit offset now d =
     Inr (map to_worker_row (workers_page (\<lambda>_. True) limit offset d), d)"

definition list_workers ::
  "env \<Rightarrow> config \<Rightarrow> world \<Rightarrow> (surreal_error + running_worker list) \<times> world" where
  "list_workers env cfg w =
     (case query env (list_workers_stmt (cfg_queue cfg) 100 0) w of
        (resp, w') \<Rightarrow>
          (case take_rows resp of
             Inl e \<Rightarrow> (Inl e, w')
           | Inr rows \<Rightarrow> (Inr (map to_running_worker rows), w')))"

definition list_all_workers :: "env \<Rightarrow> world \<Rightarrow> (surreal_error + running_worker list) \<times> world" where
  "list_all_workers env w =
     (case query env (list_all_workers_stmt 100 0) w of
        (resp, w') \<Rightarrow>
          (case take_rows resp of
             Inl e \<Rightarrow> (Inl e, w')
           | Inr rows \<Rightarrow> (Inr (map to_running_worker rows), w')))"

section \<open>Purging\<close>

definition vacuum :: "env \<Rightarrow> world \<Rightarrow> (surreal_error + nat) \<times> world" where
  "vacuum env w =
     (case query env vacuum_stmt w of
        (resp, w') \<Rightarrow>
          (case take_rows resp of
             Inl e \<Rightarrow> (Inl e, w')
           | Inr rows \<Rightarrow> (Inr (length rows), w')))"

section \<open>Properties\<close>

lemma set_listing: "set (listing P d) = {j \<in> set (jobs d). P j}"
  by (auto simp: listing_def)

lemma listing_descending:
  assumes "distinct (map job_id (jobs d))"
  shows "sorted_wrt (\<lambda>x y. (run_at y, job_id y) < (run_at x, job_id x)) (listing P d)"
proof -
  let ?k = "\<lambda>j. (run_at j, job_id j)"
  let ?s = "sort_key ?k (filter P (jobs d))"
  have "distinct (map job_id ?s)"
    using assms distinct_map_take_sort_key [OF distinct_map_filterI [OF assms, of P],
      of "length (filter P (jobs d))" ?k] by simp
  then have "distinct (map ?k ?s)" by (auto simp: distinct_map inj_on_def)
  then have "sorted_wrt (<) (map ?k ?s)" by (simp add: strict_sorted_iff)
  then show ?thesis by (simp add: listing_def sorted_wrt_rev sorted_wrt_map)
qed

text \<open>Paging through the tasks of a queue neither skips nor repeats: reading page after page of a fixed size from an unchanged table gives, put together, the jobs of the queue with that status in strictly descending order of run time and id, and enough pages give each of them once.\<close>

lemma list_pages_tile:
  assumes "db_inv d" and "\<forall>i. list_jobs_stmt q s n (i * n) (now i) d = Inr (page i, d)"
  shows "sorted_wrt (\<lambda>x y. (run_at y, job_id y) < (run_at x, job_id x)) (concat (map page [0..<m])) \<and>
    set (concat (map page [0..<m])) \<subseteq> {j \<in> set (jobs d). queue j = q \<and> status j = s} \<and>
    (card {j \<in> set (jobs d). queue j = q \<and> status j = s} \<le> m * n \<longrightarrow>
      set (concat (map page [0..<m])) = {j \<in> set (jobs d). queue j = q \<and> status j = s})"
proof -
  let ?P = "\<lambda>j. queue j = q \<and> status j = s"
  let ?l = "listing ?P d"
  have ids: "distinct (map job_id (jobs d))" using assms(1) by (simp add: db_inv_def)
  have "page i = take n (drop (i * n) ?l)" for i
    using assms(2) by (simp add: list_jobs_stmt_def)
  then have "concat (map page [0..<m]) = take (m * n) ?l"
    by (induction m) (simp_all add: add.commute [of n] flip: take_add)
  moreover have "sorted_wrt (\<lambda>x y. (run_at y, job_id y) < (run_at x, job_id x)) (take (m * n) ?l)"
    by (rule sorted_wrt_take) (rule listing_descending [OF ids])
  moreover have "length ?l = card {j \<in> set (jobs d). ?P j}"
  proof -
    have "distinct (filter ?P (jobs d))" using ids by (simp add: distinct_map)
    from distinct_card [OF this] show ?thesis by (simp add: listing_def)
  qed
  ultimately show ?thesis using set_listing [of ?P d] by (auto dest: in_set_takeD)
qed

text \<open>Listing is all or nothing and read-only: on an undisturbed engine it returns the decoded tasks of its page exactly when every row of the page decodes, and otherwise the error of the first row that does not; no table changes, undecodable rows stay as they are.\<close>

lemma list_tasks_all_or_error:
  "\<exists>rows. list_jobs_stmt (cfg_queue cfg) (filter_status flt) (flt_limit flt) (flt_offset flt) now (store w) =
      Inr (rows, store w) \<and>
    snd (list_tasks (calm now) conv decode cfg flt w) = w\<lparr>trips := Suc (trips w)\<rparr> \<and>
    (fst (list_tasks (calm now) conv decode cfg flt w) = Inr tasks) =
      (map (decode_task conv decode) rows = map Inr tasks)"
proof -
  let ?st = "list_jobs_stmt (cfg_queue cfg) (filter_status flt) (flt_limit flt) (flt_offset flt)"
  obtain rows where st: "?st now (store w) = Inr (rows, store w)"
    by (simp add: list_jobs_stmt_def)
  have "query (calm now) ?st w = (Rows rows, w\<lparr>store := store w, trips := Suc (trips w)\<rparr>)"
    using st by (rule query_calm)
  then have "list_tasks (calm now) conv decode cfg flt w =
      (collect_results (map (decode_task conv decode) rows), w\<lparr>trips := Suc (trips w)\<rparr>)"
    by (simp add: list_tasks_def)
  with st show ?thesis by (intro exI [of _ rows]) (auto simp: collect_results_Inr)
qed

text \<open>A fetch by id finds exactly the stored job: on an undisturbed engine it returns nothing when no job has the id, the decoded job when its row decodes, and its decoding error otherwise, without changing any table.\<close>

lemma fetch_by_id_finds_job:
  assumes "db_inv (store w)"
  shows "fetch_by_id (calm now) conv decode ident w =
    (case lookup_job (store w) (StringKey ident) of
       None \<Rightarrow> Inr None
     | Some j \<Rightarrow> (case decode_task conv decode j of Inl e \<Rightarrow> Inl e | Inr t \<Rightarrow> Inr (Some t)),
     w\<lparr>trips := Suc (trips w)\<rparr>)"
proof -
  let ?rows = "filter (\<lambda>j. job_id j = StringKey ident) (jobs (store w))"
  have ids: "distinct (map job_id (jobs (store w)))" using assms by (simp add: db_inv_def)
  have rows: "?rows = (case lookup_job (store w) (StringKey ident) of None \<Rightarrow> [] | Some j \<Rightarrow> [j])"
    using filter_one_id [OF ids, of "StringKey ident" "\<lambda>_. True"]
    by (simp add: lookup_job_def split: option.splits)
  have "query (calm now) (fetch_by_id_stmt (StringKey ident)) w =
      (Rows ?rows, w\<lparr>store := store w, trips := Suc (trips w)\<rparr>)"
    by (rule query_calm) (simp add: fetch_by_id_stmt_def)
  with rows show ?thesis
    by (simp add: fetch_by_id_def split: option.splits sum.splits)
qed

text \<open>A vacuum removes exactly the finished jobs, of every queue, and reports how many: on an undisturbed engine jobs that are pending, in flight or failed with attempts left keep their rows, and no terminal job remains.\<close>

lemma vacuum_exact:
  assumes "db_inv (store w)"
  shows "fst (vacuum (calm now) w) = Inr (card {j \<in> set (jobs (store w)). terminal j}) \<and>
    set (jobs (store (snd (vacuum (calm now) w)))) =
      {j \<in> set (jobs (store w)). retryable j \<or> in_flight j} \<and>
    workers (store (snd (vacuum (calm now) w))) = workers (store w)"
proof -
  have ids: "distinct (map job_id (jobs (store w)))" using assms by (simp add: db_inv_def)
  have "distinct (filter terminal (jobs (store w)))" using ids by (simp add: distinct_map)
  from distinct_card [OF this] have c:
    "length (filter terminal (jobs (store w))) = card {j \<in> set (jobs (store w)). terminal j}" by simp
  have ok: "row_ok j" if "j \<in> set (jobs (store w))" for j using assms that by (simp add: db_inv_def)
  have v: "vacuum (calm now) w = (Inr (length (filter terminal (jobs (store w)))),
      w\<lparr>store := (store w)\<lparr>jobs := filter (\<lambda>j. \<not> terminal j) (jobs (store w))\<rparr>, trips := Suc (trips w)\<rparr>)"
    by (simp add: vacuum_def query_def calm_def vacuum_stmt_def Let_def)
  have "{j \<in> set (jobs (store w)). \<not> terminal j} =
      {j \<in> set (jobs (store w)). retryable j \<or> in_flight j}"
    using row_phases(1,3,4) [OF ok] by blast
  with c v show ?thesis by simp
qed

text \<open>The worker list shows the most recently seen workers: on an undisturbed engine it lists at most 100 registrations of the queue, each as a row of the table, and no registration it leaves out was seen later than one it shows.\<close>

lemma list_workers_most_recent:
  assumes "fst (list_workers (calm now) cfg w) = Inr rs"
  shows "\<exists>shown. rs = map (to_running_worker \<circ> to_worker_row) shown \<and>
    set shown \<subseteq> {x \<in> set (workers (store w)). worker_queue x = cfg_queue cfg} \<and>
    length shown = min 100 (length (filter (\<lambda>x. worker_queue x = cfg_queue cfg) (workers (store w)))) \<and>
    (\<forall>x \<in> set shown. \<forall>y \<in> set (workers (store w)) - set shown.
       worker_queue y = cfg_queue cfg \<longrightarrow> last_seen y \<le> last_seen x)"
proof -
  let ?P = "\<lambda>x. worker_queue x = cfg_queue cfg"
  let ?s = "workers_page ?P 100 0 (store w)"
  have "rs = map (to_running_worker \<circ> to_worker_row) ?s"
    using assms by (simp add: list_workers_def query_def calm_def list_workers_stmt_def)
  moreover have "last_seen y \<le> last_seen x"
    if "x \<in> set ?s" "y \<in> set (workers (store w)) - set ?s" "?P y" for x y
  proof -
    have "- last_seen x \<le> - last_seen y"
      using that
      by (intro take_sort_key_precedes [of x 100 "\<lambda>x. - last_seen x" "filter ?P (workers (store w))" y])
         (simp_all add: workers_page_def)
    then show ?thesis by simp
  qed
  moreover have "set ?s \<subseteq> {x \<in> set (workers (store w)). ?P x}"
  proof
    fix x assume "x \<in> set ?s"
    then have "x \<in> set (filter ?P (workers (store w)))"
      unfolding workers_page_def drop0 by (rule set_take_sort_key)
    then show "x \<in> {x \<in> set (workers (store w)). ?P x}" by simp
  qed
  moreover have "length ?s = min 100 (length (filter ?P (workers (store w))))"
    by (simp add: workers_page_def)
  ultimately show ?thesis by blast
qed

end
