(* ===== verification/Spec2Isabelle.thy ===== *)
theory Spec2Isabelle
  imports Typing Live_Listener Backend Examples Debug_Output Job_Queue Fairness Listing Metrics
begin

text \<open>
  Verification development of the apalis backend for SurrealDB (\<open>src/\<close> and \<open>queries/\<close> of the
  repository): a job queue whose state lives in the tables of a database that any number of
  producers and workers share.

  Parts and how they interact. Producers push through a buffered sink (\<open>src/sink.rs\<close>), which
  inserts a batch in one transaction (\<open>push_tasks\<close>). A worker polls a stream (\<open>src/lib.rs\<close>) built
  from the poll fetcher and, with events, the live fetcher (\<open>src/fetcher.rs\<close>); both claim due jobs
  with \<open>fetch_next\<close>. A shared storage (\<open>src/shared.rs\<close>) claims for several queues at once and routes
  the tasks to per-queue channels. The middleware (\<open>src/ack.rs\<close>, stacked in \<open>src/lib.rs\<close> and
  \<open>src/shared.rs\<close>) locks a task before it runs and records its outcome. Heartbeats keep a
  worker's registration alive, and orphan passes return the jobs of dead workers to the queue. A
  worker meets all this as one of three \<open>Backend\<close> instances: heartbeat, middleware and stream.
  Results, lists, statistics and the purge are read or run by clients at any time.

  Theories, in the order of their imports:
    \<^item> Prelude: named collections, numeric casts, ordered limits, updates of tables, ordered maps,
      runs of step relations and the contract \<open>kept_by_steps\<close> of what allowed steps keep;
    \<^item> Schema: rows and tables (\<open>schema.surql\<close>, \<open>SurrealTaskRow\<close>), row conditions, \<open>db_inv\<close>;
    \<^item> Errors: \<open>SurrealError\<close> and \<open>classify_tx_errors\<close> (\<open>errors.rs\<close>, \<open>queries/mod.rs\<close>);
    \<^item> Engine: one request (\<open>query\<close>), the retry loop (\<open>tx_loop\<close>), and the contract \<open>stmt_keeps\<close>
      by which a statement that keeps an invariant lets every operation over it keep it;
    \<^item> Statements: every SurrealQL statement that writes or claims, the contract \<open>row_update\<close>;
    \<^item> Push, Claim, Ack, Workers: the operations of \<open>queries/*.rs\<close> and \<open>ack.rs\<close>;
    \<^item> System: statements of any clients as steps, the life cycle of a job, ownership;
    \<^item> Typing: the rows written over any interleaving are read back without loss;
    \<^item> Poll_Fetcher, Live_Fetcher, Sink, Storage: the stream and sink state machines;
    \<^item> Live_Listener: the lazy half of \<open>poll_with_listener\<close> with the live fetcher, its chunks of
      wake-ups and the fetch in flight inside; it refines the listener of Storage;
    \<^item> Middleware: the lock and acknowledgement layers in their two orders;
    \<^item> Shared, Driver: the registry of queues, the driver that claims for all of them, as a plain
      loop and as a machine that waits for the replies to its claims and for full channels, and the
      shared fetchers that run it;
    \<^item> Job_Queue: the job table refines a priority queue (\<open>line_claim\<close>, \<open>line_claim_total\<close>);
    \<^item> Progress: the steps of System as a function (\<open>execute\<close>), schedules of them (\<open>play\<close>), and how
      long a job waits;
    \<^item> Fairness: schedules that never end (\<open>first_steps\<close>) and the jobs that overtake another;
    \<^item> Interleaving: a task through the middleware while other clients commit what they like;
    \<^item> Backend: the \<open>Backend\<close> and \<open>BackendExt\<close> instances as records of their methods, and the
      contract \<open>stream_turns\<close> of what a stream hands out;
    \<^item> Debug_Output, Examples: the \<open>Debug\<close> texts and the programs under \<open>examples/\<close>;
    \<^item> Wait_For, Listing, Metrics: results, lists, purge and statistics.

  How state and operations correspond. A table is the list of its rows; a statement is a
  function from the engine's time and the tables to rows and tables, or to errors of its result
  slots. The database server, the other clients and the network are the argument \<open>env\<close>: for the
  n-th request it gives what others committed before, the engine's clock, and whether the request
  is executed, rejected without effect, or its reply lost (with or without effect). An operation
  of the crate is a function of \<open>env\<close> and the world that returns its \<open>Result\<close> as a sum (\<open>Inl\<close> the error)
  and the new world. Theorems hold for every \<open>env\<close> unless they name \<open>calm\<close>, the undisturbed engine,
  \<open>lossless\<close>, \<open>responsive\<close>, one request's verdict, \<open>env_keeps\<close> or \<open>env_runs\<close> (others run statements of System). A pinned
  stream or sink is a record and its poll a function of what the executor has ready, which is an
  input; \<open>PollPending\<close> is the answer when nothing more is ready.

  What the groups of lemmas show. Errors: the classification is the reference and independent of
  map order. Engine: a retry loop commits at most once, an error leaves no trace, conflicts are
  retried and surface after the last attempt. Statements: each statement keeps \<open>db_inv\<close> (unique
  ids, unique idempotency keys per queue, rows consistent with their status). Push and Claim: which
  rows a batch creates, which jobs a claim takes and in which order, what becomes of rows that do
  not decode. Ack: who may lock and acknowledge, and in which phase a job is left. Workers: the
  liveness window, who is spared and who is recovered. System: over any interleaving a job keeps
  its payload and follows the life cycle, is owned by one instance at a time, is locked once per
  claim, and is lost only to a vacuum when finished. Typing: ids, attempts,
  budgets and priorities survive the casts of the readers. Job_Queue: claims take the front of the
  line, pushes insert in order, repeated fetches drain a queue. Progress: no job starves, and one
  stranded by a crash is claimed again, with bounds in the jobs that stand or come before it.
  Fairness: in a schedule that claims again and again, a due job that finitely many overtake is claimed.
  Interleaving and Backend: the tasks of each backend carry what its middleware needs, and their
  outcome is recorded under any interleaving that leaves them to their owner; what becomes of a job
  when the acknowledgement, or the reply to the lock, does not get through. Examples: the
  programs on unique and on scheduled jobs do what their comments say. Streams and sink: no task is lost,
  duplicated or reordered, errors and ends, back-pressure, back-off. Live_Listener: the stream with
  the live fetcher inside hands out what the listener of Storage hands out for some numbers of
  fetches, and the notifications of created jobs are answered by enough claims. Middleware: what is recorded
  for a granted and for a refused lock in either stack. Driver: nothing in transit is lost or
  reordered, what a full channel holds up and for how long, what a registration sees of a claim
  under way, and that a poll which runs to its end does what the plain loop does. Wait_For: each
  task reported once, when waiting ends. Metrics: the statistics and the queue list, whose indexed
  write never panics (\<open>None\<close> of \<open>list_queues\<close>). The last section here follows one task through all
  components on any engine.

  Bounds and fuel. The retry loop is recursion on the attempts left, \<open>MAX_TX_RETRIES\<close> as in the
  code. The poll loops terminate by what is ready, so no fuel is needed. Streams that never end
  (keep-alive, re-enqueue, waiting) are given by their first n items or steps; \<open>wait_for_ends\<close> says
  how many steps are enough. Durations and instants are integers of nanoseconds, casts to 64 bits
  wrap (\<open>as_i64\<close>, \<open>as_usize\<close>); columns of type int are integers, as the values the crate writes
  fit 64 bits.

  Not modelled. The engine itself beyond the statements above, indexes, \<open>log\<close>, accessors that hand
  out the client object, trait plumbing (associated types and bounds), and timers (an elapsed delay
  is an input). Parameters of the model, with what is assumed of them where a theorem needs it: the row
  conversion of \<open>apalis_sql\<close>, codecs and serialisation, identifiers and clocks of the client, poll
  strategies, live queries, \<open>ready_chunks\<close> (\<open>chunks_documented\<close>), bounded channels (\<open>open_fifo\<close>,
  \<open>bounded_fifo\<close>), the row conversion's parts (\<open>conv_keeps\<close>), the parsing of ids (\<open>canonical_ids\<close>),
  the stack and the acknowledgement layer (\<open>nests_outward\<close>, \<open>acknowledges\<close>), \<open>f64\<close> arithmetic, and
  for the examples the task builders, the worker's run and \<open>TaskSink\<close> (\<open>sends_and_flushes\<close>).

  What could still be refined: the wake-ups of the shared driver, a live query and a timer, are
  inputs of it; and a lost reply is followed through to the state of the job only for the lock, the
  acknowledgement and the transactions that retry.
\<close>

section \<open>From the producer to the stored outcome\<close>

text \<open>
  The path of one task through all components: the sink, the push transaction, the claim, the row
  conversion, and the middleware with the lock, the task's code and the acknowledgement.
\<close>

lemma flushed_task_stored:
  assumes "env_keeps db_inv env" and "db_inv (store w)"
    and task: "part_task_id (snd task) = Some ident" "part_idempotency_key (snd task) = None"
    and flush: "poll_close env cl cfg n (send_all [task] sink_new) w = (PollReady (Inr ()), s', w1)"
  shows "stores (StringKey ident) (payload (new_job (to_push_row (cl (trips w)) (cfg_queue cfg) 0 task))) (store w1)"
proof -
  let ?r = "to_push_row (cl (trips w)) (cfg_queue cfg) 0 task"
  from poll_flush_outcome [OF flush [unfolded poll_close_def]]
  have "push_all env cl cfg (pending (send_all [task] sink_new)) w = (Inr (), w1)"
    by (auto simp: flush_outcome_def)
  then have "push_tasks env (cl (trips w)) cfg [task] w = (Inr (), w1)"
    by (simp add: pending_def sink_new_def start_send_def split: prod.splits sum.splits)
  with push_tasks_invariant [OF assms(1,2)] have inv: "db_inv (store w1)" by (metis snd_conv)
  from flushed_tasks_are_stored [OF flush] obtain k where
    "jobs (store w1) = jobs (arrives env w k) @
      map new_job (accepted (idem_key ` set (jobs (arrives env w k))) (to_push_rows (cl (trips w)) (cfg_queue cfg) [task]))"
    by auto
  moreover have r: "pr_id ?r = StringKey ident" "pr_idempotency_key ?r = None"
    using task by (simp_all add: to_push_row_def Let_def)
  ultimately have "new_job ?r \<in> set (jobs (store w1))"
    by (simp add: to_push_rows_def row_key_def)
  with inv r have "lookup_job (store w1) (StringKey ident) = Some (new_job ?r)"
    using lookup_job_mem [of "store w1" "new_job ?r"] by (simp add: db_inv_def new_job_def)
  with inv show ?thesis by (simp add: stores_def)
qed

text \<open>On an engine that nobody else uses and that executes every request, the flush and the fetch do succeed.\<close>

lemma push_then_fetch:
  assumes inv: "db_inv (store w)"
    and fresh: "part_task_id (snd task) = Some ident" "lookup_job (store w) (StringKey ident) = None"
    and key: "part_idempotency_key (snd task) = None"
    and idle: "claimable (\<lambda>x. x = cfg_queue cfg) t1 (store w) = {}"
    and due: "pr_run_at (to_push_row (cl (trips w)) (cfg_queue cfg) 0 task) \<le> t1"
    and buf: "1 \<le> cfg_buffer_size cfg" "cfg_buffer_size cfg < 2 ^ 63"
    and conv: "decode_row conv (set_claimed inst t1
        (new_job (to_push_row (cl (trips w)) (cfg_queue cfg) 0 task))) = Inr (raw, p)"
  shows "\<exists>w1 w2.
    poll_close (calm t0) cl cfg 1 (send_all [task] sink_new) w = (PollReady (Inr ()), sink_new, w1) \<and>
    fetch_next (calm t1) conv cfg inst w1 = (Inr [(raw, p)], w2) \<and> db_inv (store w2) \<and>
    lookup_job (store w2) (StringKey ident) = Some (set_claimed inst t1
      (new_job (to_push_row (cl (trips w)) (cfg_queue cfg) 0 task)))"
proof -
  let ?r = "to_push_row (cl (trips w)) (cfg_queue cfg) 0 task" and ?k = "StringKey ident"
  let ?j = "new_job ?r" and ?d = "store w" and ?q = "cfg_queue cfg" and ?n = "as_i64 (int (cfg_buffer_size cfg))"
  let ?d1 = "?d\<lparr>jobs := jobs ?d @ [?j]\<rparr>"
  have r: "pr_id ?r = ?k" "pr_idempotency_key ?r = None" "pr_queue ?r = ?q"
    using fresh key by (simp_all add: to_push_row_def Let_def)
  have rows: "to_push_rows (cl (trips w)) ?q [task] = [?r]" by (simp add: to_push_rows_def)
  have loop: "push_loop [?r] ?d = Inr ?d1" using r fresh by simp
  have inv1: "db_inv ?d1" using push_loop_db_inv [OF inv loop] .
  let ?w1 = "w\<lparr>store := ?d1, trips := Suc (trips w)\<rparr>"
  have push: "push_tasks (calm t0) (cl (trips w)) cfg [task] w = (Inr (), ?w1)"
    using push_tasks_calm [of "cl (trips w)" cfg "[task]" w ?d1 t0] rows loop by simp
  have close: "poll_close (calm t0) cl cfg 1 (send_all [task] sink_new) w = (PollReady (Inr ()), sink_new, ?w1)"
    by (simp add: poll_close_def sink_new_def poll_flush.simps push start_send_def)
  have "filter (\<lambda>j. queue j = ?q \<and> due t1 j) (jobs ?d) = []"
    using idle by (auto simp: claimable_def filter_empty_conv)
  moreover have "queue ?j = ?q" "due t1 ?j" using r due by (simp_all add: new_job_def due_def retryable_def)
  ultimately have b: "due_batch (\<lambda>x. x = ?q) ?n t1 ?d1 = [?j]" using buf by (simp add: due_batch_def as_i64_id)
  have ids1: "distinct (map job_id (jobs ?d1))" using inv1 by (simp add: db_inv_def)
  obtain d2 where st: "fetch_next_stmt ?q inst ?n t1 ?d1 = Inr ([set_claimed inst t1 ?j], d2)"
    using claim_update [OF ids1, of "\<lambda>x. x = ?q" ?n t1] b by (simp add: fetch_next_stmt_def)
  let ?w2 = "?w1\<lparr>store := d2, trips := Suc (trips ?w1)\<rparr>"
  have fetch: "fetch_next (calm t1) conv cfg inst ?w1 = (Inr [(raw, p)], ?w2)"
    using fetch_next_calm [where cfg = cfg and inst = inst and now = t1 and w = ?w1] st conv by simp
  have "lookup_job ?d1 ?k = Some ?j" using lookup_job_mem [OF ids1, of ?j] r by simp
  then have "lookup_job d2 ?k = Some (set_claimed inst t1 ?j)" using fetch_next_lookup [OF inv1 st, of ?k] b by simp
  with close fetch fetch_next_db_inv [OF inv1 st] show ?thesis
    by (intro exI [of _ ?w1] exI [of _ ?w2]) simp
qed

text \<open>C3. A pushed task gets done, on any engine: other clients may commit anything between and during the requests except a vacuum, a release of the job from this instance or a lock of it in this instance's name, and requests may fail. If the task has an id and no idempotency key, the flush of the sink it was sent to reports success, a later fetch of the instance hands out a task with this id, and the request for its lock is executed, then the polling backend's middleware runs the task's code, whatever it does short of releasing its own job. The code gets the arguments decoded from a row that has exactly what was pushed and is claimed by the instance, while the row is Running. Afterwards the row ends as outcome_row says: with the code's outcome if that serialises and the acknowledgement takes effect. In particular, when the code succeeds with a value that serialises and the acknowledgement is executed, the middleware returns the value and the job is Done with it as its result.\<close>

theorem pushed_task_gets_done:
  fixes ser :: "'r \<Rightarrow> string + json" and svc :: "(bytes, 'r) service"
  assumes layers: "nests_outward stack_new" "acknowledges ack_layer" and conv: "conv_keeps conv"
    and env: "env_runs (\<lambda>a. \<not> releases k inst a \<and> a \<noteq> Lock k inst \<and> a \<noteq> Vacuum) env"
    and svc: "service_runs (\<lambda>a. \<not> releases k inst a) svc"
    and inv: "db_inv (store w)" and k: "k = StringKey ident"
    and task: "part_task_id (snd task) = Some ident" "part_idempotency_key (snd task) = None"
    and flush: "poll_close env cl cfg n (send_all [task] sink_new) w = (PollReady (Inr ()), s', w1)"
    and fetch: "fetch_next env conv cfg inst w1 = (Inr tasks, w2)" "(raw, p) \<in> set tasks" "part_task_id p = Some ident"
    and up: "verdict (env (trips w2)) = Executes"
  shows "\<exists>j locked w3 res w4 r w5.
    payload j = payload (new_job (to_push_row (cl (trips w)) (cfg_queue cfg) 0 task)) \<and>
    decode_row conv j = Inr (raw, p) \<and> lock_by j = Some inst \<and>
    locked = set_running inst (clock (env (trips w2))) j \<and> lookup_job (store w3) k = Some locked \<and>
    svc (raw, stamped inst p) w3 = (res, w4) \<and>
    middleware_stack stack_new ack_layer env ser inst svc (raw, p) w2 = (r, w5) \<and>
    lookup_job (store w5) k = Some (outcome_row env ser p res (trips w4) locked) \<and>
    (\<forall>v out. res = Inr v \<and> ser v = Inr out \<and> verdict (env (trips w4)) = Executes \<longrightarrow>
      r = Inr v \<and> (\<exists>j'. lookup_job (store w5) k = Some j' \<and> status j' = Done \<and>
        last_result j' = Some (ok_object out) \<and> done_at j' = Some (clock (env (trips w4)))))"
proof -
  let ?pl = "payload (new_job (to_push_row (cl (trips w)) (cfg_queue cfg) 0 task))"
  have keeps: "env_keeps db_inv env" using env_runs_keeps [OF env, of db_inv] inv.run_keeps by blast
  have "stores k ?pl (store w1)" unfolding k by (rule flushed_task_stored [OF keeps inv task flush])
  moreover have "\<forall>tr task. conv tr = Inr task \<longrightarrow> part_task_id (snd task) = Some (tr_id tr)"
    using conv by (simp add: conv_keeps_def)
  ultimately obtain j where j: "payload j = ?pl" "decode_row conv j = Inr (raw, p)" "claimed_row k inst j (store w2)"
    using fetched_row [where env = env, OF env k _ _ fetch] by blast
  have "env_keeps (claimed_row k inst j) env"
    by (rule env_runs_keeps [OF env], rule queued.run_keeps) auto
  with j(3) have c: "claimed_row k inst j (others (env (trips w2)) (store w2))" by (simp add: env_keeps_def)
  then have row: "lookup_job (others (env (trips w2)) (store w2)) (StringKey ident) = Some j" "lock_guard inst j"
    by (simp_all add: claimed_row_def lock_guard_def k)
  have "ctx_lock_by (part_ctx p) = Some inst"
    using decoded_row_parts [OF conv j(2)] j(3) by (simp add: claimed_row_def)
  then have mw: "middleware_stack stack_new ack_layer env ser inst svc = shared_middleware stack_new ack_layer env ser inst svc \<or>
      middleware_stack stack_new ack_layer env ser inst svc = middleware_stack stack_new ack_layer env ser inst svc \<and>
      ctx_lock_by (part_ctx p) = Some inst" by simp
  have env': "env_runs (\<lambda>a. \<not> releases (StringKey ident) inst a) env"
    using env by (rule env_runs_mono) (simp add: k)
  have inv2: "db_inv (store w2)" using j(3) by (simp add: claimed_row_def)
  obtain w3 res w4 r w5 where out:
    "lookup_job (store w3) k = Some (set_running inst (clock (env (trips w2))) j)"
    "svc (raw, stamped inst p) w3 = (res, w4)"
    "middleware_stack stack_new ack_layer env ser inst svc (raw, p) w2 = (r, w5)"
    "lookup_job (store w5) k = Some (outcome_row env ser p res (trips w4) (set_running inst (clock (env (trips w2))) j))"
    "(\<exists>v. result_value ser res = Inr v) \<and> verdict (env (trips w4)) = Executes \<longrightarrow> r = res"
    using interleaved_outcome [where env = env and w = w2 and ser = ser and x = raw,
        OF layers up env' svc [unfolded k] inv2 row fetch(3) mw refl, folded k]
    by (elim exE conjE) (rule that, assumption+)
  have finish: "r = Inr v \<and> (\<exists>j'. lookup_job (store w5) k = Some j' \<and> status j' = Done \<and>
      last_result j' = Some (ok_object out) \<and> done_at j' = Some (clock (env (trips w4))))"
    if "res = Inr v" "ser v = Inr out" "verdict (env (trips w4)) = Executes" for v out
    using that out(4,5)
    by (simp add: outcome_row_def result_value_def gets_through_def set_acked_def calculate_status_def)
  show ?thesis
    by (intro exI [of _ j] exI [of _ "set_running inst (clock (env (trips w2))) j"] exI [of _ w3] exI [of _ res]
        exI [of _ w4] exI [of _ r] exI [of _ w5]) (use j out finish in \<open>simp add: claimed_row_def\<close>)
qed

definition due_task :: compact_task where
  "due_task = ([42], (snd (sample_task None))\<lparr>part_task_id := Some ''01A''\<rparr>)"

theorem pushed_task_gets_done_witness:
  "\<exists>(w5 :: world) j. lookup_job (store w5) (StringKey ''01A'') = Some j \<and> status j = Done \<and>
    last_result j = Some (ok_object (JNumber 7))"
proof -
  let ?env = "calm late" and ?ser = "\<lambda>n. Inr (JNumber n) :: string + json"
  have inv: "db_inv (store start_world)" using db_inv_empty by (simp add: start_world_def)
  have id: "part_task_id (snd due_task) = Some ''01A''" by (simp add: due_task_def)
  have none: "lookup_job (store start_world) (StringKey ''01A'') = None"
    by (simp add: lookup_job_def start_world_def empty_db_def)
  have key: "part_idempotency_key (snd due_task) = None" by (simp add: due_task_def sample_task_def)
  have idle: "claimable (\<lambda>x. x = cfg_queue sample_config) late (store start_world) = {}"
    by (simp add: claimable_def start_world_def empty_db_def)
  have due: "pr_run_at (to_push_row sample_client (cfg_queue sample_config) 0 due_task) \<le> late"
    by (simp add: due_task_def to_push_row_def sample_task_def sample_client_def as_i64_id nanos_per_sec_def late_def)
  have buf: "1 \<le> cfg_buffer_size sample_config" "cfg_buffer_size sample_config < 2 ^ 63"
    by (simp_all add: sample_config_def)
  obtain raw p where conv: "decode_row sample_conv (set_claimed ''w1'' late
      (new_job (to_push_row sample_client (cfg_queue sample_config) 0 due_task))) = Inr (raw, p)"
    "part_task_id p = Some ''01A''"
    by (simp add: decode_row_def try_from_row.simps sample_conv_def set_claimed_def new_job_def
        to_push_row_def Let_def due_task_def)
  obtain w1 w2 where run:
    "poll_close ?env (\<lambda>_. sample_client) sample_config 1 (send_all [due_task] sink_new) start_world =
      (PollReady (Inr ()), sink_new, w1)"
    "fetch_next ?env sample_conv sample_config ''w1'' w1 = (Inr [(raw, p)], w2)"
    using push_then_fetch [where cl = "\<lambda>_. sample_client" and ?t0.0 = late, OF inv id none key idle due buf conv(1)]
    by blast
  have env: "env_runs ok ?env" for ok by (auto simp: env_runs_def calm_def intro: exI [of _ "[]"])
  have up: "verdict (?env i) = Executes" for i by (simp add: calm_def)
  obtain res w3 w4 and w5 :: world and r :: "boxed_error + int" where "seven (raw, stamped ''w1'' p) w3 = (res, w4)"
    and out: "\<forall>v out. res = Inr v \<and> ?ser v = Inr out \<and> verdict (?env (trips w4)) = Executes \<longrightarrow>
      r = Inr v \<and> (\<exists>j'. lookup_job (store w5) (StringKey ''01A'') = Some j' \<and> status j' = Done \<and>
        last_result j' = Some (ok_object out) \<and> done_at j' = Some (clock (?env (trips w4))))"
    using pushed_task_gets_done [where env = ?env and ser = ?ser and cl = "\<lambda>_. sample_client" and w = start_world
        and raw = raw and p = p,
        OF sample_layers conv_keeps_sample env seven_runs inv refl id key run(1,2) list.set_intros(1) conv(2) up]
    by (elim exE conjE) (rule that, assumption+)
  then have "res = Inr 7" by (simp add: seven_def)
  with out up show ?thesis by blast
qed

end
